(* ===== verification/Os_Prelude.thy ===== *)
theory Os_Prelude
  imports Main "HOL-Library.Word" "HOL-Library.Monad_Syntax"
begin

text \<open>
  Shared vocabulary of the OS/161 kernel development.

  \<^item> A kernel operation that may fail an assertion (\<open>KASSERT\<close>), call \<open>panic\<close> or read
    outside an object has an option type: \<open>None\<close> is the kernel stopping, \<open>Some r\<close> is a
    normal return.
  \<^item> A C function of type \<open>int\<close> that returns an error code, or 0 and a value through a
    pointer, returns \<open>errno + 'a\<close>: \<open>Inl e\<close> is the error, \<open>Inr v\<close> the value.
  \<^item> An operation that reads or writes kernel state takes the state and returns the new one.
  \<^item> Unsigned 32-bit values are \<open>32 word\<close> or \<open>nat\<close> with the wrap-around written out
    (\<open>wrap32\<close>).
\<close>

unbundle bit_operations_syntax

named_theorems os_defs \<open>definitions of the model that a component's proofs unfold\<close>
named_theorems os_inv \<open>preservation facts for the component invariants\<close>

section \<open>Error codes\<close>

text \<open>The codes of \<open>kern/errno.h\<close> that the modelled sources return.\<close>

datatype errno =
    ENOSYS | EUNIMP | ENOMEM | EAGAIN | EFAULT | ENAMETOOLONG | EINVAL | ENOEXEC
  | ENOTDIR | EISDIR | ENOENT | ENOTEMPTY | EEXIST | EXDEV | ENODEV | ENXIO | EBUSY
  | EMFILE | ENFILE | EBADF | EIO | ESPIPE | ENOSPC | EFBIG

text \<open>The panic monad is the option monad; \<open>kassert\<close> is the kernel's \<open>KASSERT\<close>.\<close>

definition kassert :: "bool \<Rightarrow> unit option" where
  "kassert b = (if b then Some () else None)"

lemma kassert_bind [simp]: "kassert b \<bind> f = (if b then f () else None)"
  by (simp add: kassert_def)

lemma kassert_Some [simp]: "kassert b = Some u \<longleftrightarrow> b"
  by (simp add: kassert_def)

text \<open>An array read; reading outside the array is the kernel stopping.\<close>

definition aget :: "'a list \<Rightarrow> nat \<Rightarrow> 'a option" where
  "aget xs i = (if i < length xs then Some (xs ! i) else None)"

definition aset :: "'a list \<Rightarrow> nat \<Rightarrow> 'a \<Rightarrow> 'a list option" where
  "aset xs i x = (if i < length xs then Some (xs[i := x]) else None)"

lemma aget_in [simp]: "i < length xs \<Longrightarrow> aget xs i = Some (xs ! i)"
  by (simp add: aget_def)

lemma aget_Some: "aget xs i = Some x \<longleftrightarrow> i < length xs \<and> x = xs ! i"
  by (auto simp: aget_def)

lemma aset_in [simp]: "i < length xs \<Longrightarrow> aset xs i x = Some (xs[i := x])"
  by (simp add: aset_def)

lemma aset_Some: "aset xs i x = Some ys \<longleftrightarrow> i < length xs \<and> ys = xs[i := x]"
  by (auto simp: aset_def)

section \<open>Unsigned arithmetic\<close>

abbreviation wrap32 :: "nat \<Rightarrow> nat" where
  "wrap32 n \<equiv> n mod 2 ^ 32"

text \<open>The macro \<open>DIVROUNDUP(a,b)\<close> of \<open>lib.h\<close> on \<open>unsigned\<close> operands.\<close>

definition DIVROUNDUP :: "nat \<Rightarrow> nat \<Rightarrow> nat" where
  "DIVROUNDUP a b = wrap32 (a + b - 1) div b"

lemma DIVROUNDUP_bounds:
  assumes "0 < b" and "a + b \<le> 2 ^ 32"
  shows "a \<le> b * DIVROUNDUP a b" and "b * DIVROUNDUP a b < a + b"
proof -
  have w: "wrap32 (a + b - 1) = a + b - 1"
    using assms by simp
  have eq: "a + b - 1 = b * ((a + b - 1) div b) + (a + b - 1) mod b"
    by simp
  have lt: "(a + b - 1) mod b < b"
    using assms(1) by simp
  show "a \<le> b * DIVROUNDUP a b" "b * DIVROUNDUP a b < a + b"
    unfolding DIVROUNDUP_def w using eq lt assms(1) by linarith+
qed

section \<open>Lists\<close>

lemma find_upt_Some:
  "find P [0..<n] = Some i \<longleftrightarrow> i < n \<and> P i \<and> (\<forall>j<i. \<not> P j)"
proof -
  have "find P [0..<n] = Some i \<longleftrightarrow>
      (\<exists>k<length [0..<n]. P ([0..<n] ! k) \<and> i = [0..<n] ! k \<and> (\<forall>j<k. \<not> P ([0..<n] ! j)))"
    by (rule find_Some_iff)
  also have "\<dots> \<longleftrightarrow> i < n \<and> P i \<and> (\<forall>j<i. \<not> P j)"
    by auto
  finally show ?thesis .
qed

lemma find_upt_None: "find P [0..<n] = None \<longleftrightarrow> (\<forall>i<n. \<not> P i)"
  by (auto simp: find_None_iff)

section \<open>Bits of words\<close>

lemma and_mask1_eq_0_iff:
  fixes w :: "'a::len word"
  assumes "n < LENGTH('a)"
  shows "w AND 2 ^ n = 0 \<longleftrightarrow> \<not> bit w n"
proof
  assume "w AND 2 ^ n = 0"
  then have "bit (w AND 2 ^ n) n = bit (0 :: 'a word) n" by simp
  with assms show "\<not> bit w n"
    by (simp add: bit_simps)
next
  assume "\<not> bit w n"
  then show "w AND 2 ^ n = 0"
    by (intro bit_word_eqI) (auto simp: bit_simps)
qed

lemma bit_or_mask1:
  fixes w :: "'a::len word"
  shows "bit (w OR 2 ^ n) m \<longleftrightarrow> bit w m \<or> (m = n \<and> n < LENGTH('a))"
  by (auto simp: bit_simps)

lemma bit_andnot_mask1:
  fixes w :: "'a::len word"
  shows "bit (w AND NOT (2 ^ n)) m \<longleftrightarrow> bit w m \<and> m \<noteq> n"
  by (auto simp: bit_simps dest: bit_imp_le_length)

lemma all_bits_set:
  fixes w :: "8 word"
  shows "w = 0xff \<longleftrightarrow> (\<forall>n<8. bit w n)"
proof
  assume "w = 0xff"
  then show "\<forall>n<8. bit w n"
    by (auto simp: less_Suc_eq numeral_eq_Suc)
next
  assume a: "\<forall>n<8. bit w n"
  have "w = mask 8"
    by (rule bit_word_eqI) (use a in \<open>auto simp: bit_mask_iff\<close>)
  also have "(mask 8 :: 8 word) = 0xff"
    by (simp add: mask_eq_exp_minus_1)
  finally show "w = 0xff" .
qed

end
