(* ===== verification/Threadlist.thy ===== *)
theory Threadlist
  imports Os_Prelude
begin

text \<open>
  The doubly linked lists of threads of \<open>kern/thread/threadlist.c\<close>: the run queues, the
  queues of wait channels and the lists of zombies. The pointers are modelled as they are:
  a heap gives the \<open>tln_next\<close>, \<open>tln_prev\<close> and \<open>tln_self\<close> fields of every node, where a node
  is the head or the tail bookend of a list or the \<open>t_listnode\<close> of a thread, and every
  operation performs the assignments of the code in their order. Following a null pointer
  stops the kernel.

  \<open>tl_rep h l ts\<close> says that list \<open>l\<close> is well formed in heap \<open>h\<close> and holds the threads \<open>ts\<close>
  in order. Every operation is shown to perform the corresponding list operation and to
  leave the lists that do not hold the thread alone. The locale \<open>thread_queue\<close> is the
  interface the scheduler and the wait channels use.
\<close>

section \<open>Nodes, lists and the heap\<close>

type_synonym thread = nat
type_synonym tlist = nat

datatype node = tl_head tlist | tl_tail tlist | t_listnode thread

record tlheap =
  tln_prev :: "node \<Rightarrow> node option"
  tln_next :: "node \<Rightarrow> node option"
  tln_self :: "node \<Rightarrow> thread option"
  tl_count :: "tlist \<Rightarrow> nat"

definition set_next :: "node \<Rightarrow> node option \<Rightarrow> tlheap \<Rightarrow> tlheap" where
  "set_next n p h = h\<lparr>tln_next := (tln_next h)(n := p)\<rparr>"

definition set_prev :: "node \<Rightarrow> node option \<Rightarrow> tlheap \<Rightarrow> tlheap" where
  "set_prev n p h = h\<lparr>tln_prev := (tln_prev h)(n := p)\<rparr>"

definition set_self :: "node \<Rightarrow> thread option \<Rightarrow> tlheap \<Rightarrow> tlheap" where
  "set_self n t h = h\<lparr>tln_self := (tln_self h)(n := t)\<rparr>"

definition set_count :: "tlist \<Rightarrow> nat \<Rightarrow> tlheap \<Rightarrow> tlheap" where
  "set_count l c h = h\<lparr>tl_count := (tl_count h)(l := c)\<rparr>"

lemmas tl_setters = set_next_def set_prev_def set_self_def set_count_def

text \<open>The unsigned counter: \<open>tl_count++\<close> and \<open>tl_count--\<close> wrap around.\<close>

definition count_inc :: "tlist \<Rightarrow> tlheap \<Rightarrow> tlheap" where
  "count_inc l h = set_count l (wrap32 (tl_count h l + 1)) h"

definition count_dec :: "tlist \<Rightarrow> tlheap \<Rightarrow> tlheap" where
  "count_dec l h = set_count l (wrap32 (tl_count h l + 2 ^ 32 - 1)) h"

section \<open>Operations\<close>

definition threadlistnode_init :: "node \<Rightarrow> thread option \<Rightarrow> tlheap \<Rightarrow> tlheap option" where
  "threadlistnode_init tln t h = do {
     kassert (t \<noteq> None);
     let h = set_next tln None h;
     let h = set_prev tln None h;
     Some (set_self tln t h)
   }"

definition threadlistnode_cleanup :: "node \<Rightarrow> tlheap \<Rightarrow> unit option" where
  "threadlistnode_cleanup tln h = do {
     kassert (tln_next h tln = None);
     kassert (tln_prev h tln = None);
     kassert (tln_self h tln \<noteq> None)
   }"

definition threadlist_init :: "tlist \<Rightarrow> tlheap \<Rightarrow> tlheap" where
  "threadlist_init l h =
     (let h = set_next (tl_head l) (Some (tl_tail l)) h;
          h = set_prev (tl_head l) None h;
          h = set_next (tl_tail l) None h;
          h = set_prev (tl_tail l) (Some (tl_head l)) h;
          h = set_self (tl_head l) None h;
          h = set_self (tl_tail l) None h
      in set_count l 0 h)"

definition threadlist_isempty :: "tlist \<Rightarrow> tlheap \<Rightarrow> bool" where
  "threadlist_isempty l h = (tl_count h l = 0)"

definition threadlist_cleanup :: "tlist \<Rightarrow> tlheap \<Rightarrow> unit option" where
  "threadlist_cleanup l h = do {
     kassert (threadlist_isempty l h);
     kassert (tl_count h l = 0)
   }"

definition threadlist_insertafternode :: "node \<Rightarrow> thread \<Rightarrow> tlheap \<Rightarrow> tlheap option" where
  "threadlist_insertafternode onlist t h = do {
     let addee = t_listnode t;
     let h = set_prev addee (Some onlist) h;
     let h = set_next addee (tln_next h onlist) h;
     p \<leftarrow> tln_prev h addee;
     let h = set_next p (Some addee) h;
     n \<leftarrow> tln_next h addee;
     Some (set_prev n (Some addee) h)
   }"

definition threadlist_insertbeforenode :: "thread \<Rightarrow> node \<Rightarrow> tlheap \<Rightarrow> tlheap option" where
  "threadlist_insertbeforenode t onlist h = do {
     let addee = t_listnode t;
     let h = set_prev addee (tln_prev h onlist) h;
     let h = set_next addee (Some onlist) h;
     p \<leftarrow> tln_prev h addee;
     let h = set_next p (Some addee) h;
     n \<leftarrow> tln_next h addee;
     Some (set_prev n (Some addee) h)
   }"

definition threadlist_removenode :: "node \<Rightarrow> tlheap \<Rightarrow> tlheap option" where
  "threadlist_removenode tln h = do {
     p \<leftarrow> tln_prev h tln;
     let h = set_next p (tln_next h tln) h;
     n \<leftarrow> tln_next h tln;
     let h = set_prev n (tln_prev h tln) h;
     let h = set_prev tln None h;
     Some (set_next tln None h)
   }"

definition threadlist_addhead :: "tlist \<Rightarrow> thread \<Rightarrow> tlheap \<Rightarrow> tlheap option" where
  "threadlist_addhead l t h = do {
     h \<leftarrow> threadlist_insertafternode (tl_head l) t h;
     Some (count_inc l h)
   }"

definition threadlist_addtail :: "tlist \<Rightarrow> thread \<Rightarrow> tlheap \<Rightarrow> tlheap option" where
  "threadlist_addtail l t h = do {
     h \<leftarrow> threadlist_insertbeforenode t (tl_tail l) h;
     Some (count_inc l h)
   }"

text \<open>The result \<open>None\<close> of a removal is the null pointer: the list was empty.\<close>

definition threadlist_remhead :: "tlist \<Rightarrow> tlheap \<Rightarrow> (thread option \<times> tlheap) option" where
  "threadlist_remhead l h = do {
     tln \<leftarrow> tln_next h (tl_head l);
     if tln_next h tln = None then Some (None, h)
     else do {
       h \<leftarrow> threadlist_removenode tln h;
       let h = count_dec l h;
       Some (tln_self h tln, h)
     }
   }"

definition threadlist_remtail :: "tlist \<Rightarrow> tlheap \<Rightarrow> (thread option \<times> tlheap) option" where
  "threadlist_remtail l h = do {
     tln \<leftarrow> tln_prev h (tl_tail l);
     if tln_prev h tln = None then Some (None, h)
     else do {
       h \<leftarrow> threadlist_removenode tln h;
       let h = count_dec l h;
       Some (tln_self h tln, h)
     }
   }"

definition threadlist_insertafter :: "tlist \<Rightarrow> thread \<Rightarrow> thread \<Rightarrow> tlheap \<Rightarrow> tlheap option" where
  "threadlist_insertafter l onlist addee h = do {
     h \<leftarrow> threadlist_insertafternode (t_listnode onlist) addee h;
     Some (count_inc l h)
   }"

definition threadlist_insertbefore :: "tlist \<Rightarrow> thread \<Rightarrow> thread \<Rightarrow> tlheap \<Rightarrow> tlheap option" where
  "threadlist_insertbefore l addee onlist h = do {
     h \<leftarrow> threadlist_insertbeforenode addee (t_listnode onlist) h;
     Some (count_inc l h)
   }"

definition threadlist_remove :: "tlist \<Rightarrow> thread \<Rightarrow> tlheap \<Rightarrow> tlheap option" where
  "threadlist_remove l t h = do {
     h \<leftarrow> threadlist_removenode (t_listnode t) h;
     Some (count_dec l h)
   }"

section \<open>Chains of nodes\<close>

definition linked :: "tlheap \<Rightarrow> node \<Rightarrow> node \<Rightarrow> bool" where
  "linked h a b \<longleftrightarrow> tln_next h a = Some b \<and> tln_prev h b = Some a"

abbreviation chain :: "tlheap \<Rightarrow> node list \<Rightarrow> bool" where
  "chain h \<equiv> successively (linked h)"

lemma chain_frame:
  assumes "chain h ns"
    and "\<And>n. n \<in> set (butlast ns) \<Longrightarrow> tln_next h' n = tln_next h n"
    and "\<And>n. n \<in> set (tl ns) \<Longrightarrow> tln_prev h' n = tln_prev h n"
  shows "chain h' ns"
  using assms
proof (induction ns)
  case Nil
  then show ?case by simp
next
  case (Cons a ns)
  show ?case
  proof (cases ns)
    case (Cons b ns')
    have "chain h' ns"
      using Cons.IH Cons.prems Cons by (auto split: if_splits)
    with Cons.prems Cons show ?thesis by (auto simp: linked_def)
  qed simp
qed

text \<open>The nodes of a list, bookends included, and its representation predicate.\<close>

definition nodes :: "tlist \<Rightarrow> thread list \<Rightarrow> node list" where
  "nodes l ts = tl_head l # map t_listnode ts @ [tl_tail l]"

definition tl_rep :: "tlheap \<Rightarrow> tlist \<Rightarrow> thread list \<Rightarrow> bool" where
  "tl_rep h l ts \<longleftrightarrow>
     distinct ts \<and> chain h (nodes l ts) \<and>
     tln_prev h (tl_head l) = None \<and> tln_next h (tl_tail l) = None \<and>
     tln_self h (tl_head l) = None \<and> tln_self h (tl_tail l) = None \<and>
     (\<forall>t\<in>set ts. tln_self h (t_listnode t) = Some t) \<and>
     tl_count h l = wrap32 (length ts)"

text \<open>A thread that is on no list: both links of its node are null.\<close>

definition idle :: "tlheap \<Rightarrow> thread \<Rightarrow> bool" where
  "idle h t \<longleftrightarrow> tln_next h (t_listnode t) = None \<and> tln_prev h (t_listnode t) = None \<and>
     tln_self h (t_listnode t) = Some t"

text \<open>What the insertions and the removal do to the links around one node.\<close>

definition splice_in :: "node \<Rightarrow> node \<Rightarrow> node \<Rightarrow> tlheap \<Rightarrow> tlheap" where
  "splice_in a c b h =
     set_prev b (Some c) (set_next a (Some c) (set_next c (Some b) (set_prev c (Some a) h)))"

definition splice_out :: "node \<Rightarrow> node \<Rightarrow> node \<Rightarrow> tlheap \<Rightarrow> tlheap" where
  "splice_out a c b h =
     set_next c None (set_prev c None (set_prev b (Some a) (set_next a (Some b) h)))"

lemma insertafternode_splice:
  assumes "linked h a b" "a \<noteq> t_listnode t"
  shows "threadlist_insertafternode a t h = Some (splice_in a (t_listnode t) b h)"
  using assms by (simp add: threadlist_insertafternode_def splice_in_def linked_def tl_setters Let_def)

lemma insertbeforenode_splice:
  assumes "linked h a b" "a \<noteq> t_listnode t" "b \<noteq> t_listnode t"
  shows "threadlist_insertbeforenode t b h = Some (splice_in a (t_listnode t) b h)"
  using assms by (simp add: threadlist_insertbeforenode_def splice_in_def linked_def tl_setters Let_def)

lemma removenode_splice:
  assumes "linked h a c" "linked h c b" "a \<noteq> c"
  shows "threadlist_removenode c h = Some (splice_out a c b h)"
  using assms by (simp add: threadlist_removenode_def splice_out_def linked_def tl_setters)

lemma successively_split:
  "successively P (xs @ a # b # ys) \<longleftrightarrow>
     successively P (xs @ [a]) \<and> P a b \<and> successively P (b # ys)"
  by (simp add: successively_append_iff successively_Cons) blast

lemma chain_splice_in:
  assumes "chain h (xs @ a # b # ys)" "distinct (xs @ a # b # ys)"
    and "c \<notin> set (xs @ a # b # ys)"
  shows "chain (splice_in a c b h) (xs @ a # c # b # ys)"
proof -
  let ?h = "splice_in a c b h"
  from assms(1) have l: "chain h (xs @ [a])" and r: "chain h (b # ys)"
    by (simp_all only: successively_split)
  have "chain ?h (xs @ [a])"
    using assms by (intro chain_frame [OF l]) (cases xs; auto simp: splice_in_def tl_setters)+
  moreover have "chain ?h (b # ys)"
    using assms
    by (intro chain_frame [OF r]) (auto simp: splice_in_def tl_setters dest: in_set_butlastD
        split: if_splits)
  moreover have "linked ?h a c" "linked ?h c b"
    using assms by (auto simp: splice_in_def tl_setters linked_def)
  ultimately show ?thesis by (simp add: successively_split successively_Cons)
qed

lemma chain_splice_out:
  assumes "chain h (xs @ a # c # b # ys)" "distinct (xs @ a # c # b # ys)"
  shows "chain (splice_out a c b h) (xs @ a # b # ys)"
proof -
  let ?h = "splice_out a c b h"
  have split: "xs @ a # c # b # ys = (xs @ [a]) @ c # b # ys" by simp
  from assms(1) have l: "chain h (xs @ [a])" by (simp only: successively_split)
  from assms(1) have r: "chain h (b # ys)"
    unfolding split by (simp only: successively_split)
  have "chain ?h (xs @ [a])"
    using assms by (intro chain_frame [OF l]) (cases xs; auto simp: splice_out_def tl_setters)+
  moreover have "chain ?h (b # ys)"
    using assms
    by (intro chain_frame [OF r]) (auto simp: splice_out_def tl_setters dest: in_set_butlastD
        split: if_splits)
  moreover have "linked ?h a b"
    using assms by (auto simp: splice_out_def tl_setters linked_def)
  ultimately show ?thesis by (simp add: successively_split)
qed

text \<open>The neighbours of a position inside a list.\<close>

definition before :: "tlist \<Rightarrow> thread list \<Rightarrow> node" where
  "before l us = last (tl_head l # map t_listnode us)"

definition after :: "tlist \<Rightarrow> thread list \<Rightarrow> node" where
  "after l vs = hd (map t_listnode vs @ [tl_tail l])"

lemma before_simps [simp]:
  "before l [] = tl_head l" "before l (us @ [u]) = t_listnode u"
  by (simp_all add: before_def)

lemma after_simps [simp]:
  "after l [] = tl_tail l" "after l (v # vs) = t_listnode v"
  by (simp_all add: after_def)

lemma before_cases: "before l us = tl_head l \<and> us = [] \<or> (\<exists>u\<in>set us. before l us = t_listnode u)"
  by (cases us rule: rev_cases) auto

lemma after_cases: "after l vs = tl_tail l \<and> vs = [] \<or> (\<exists>v\<in>set vs. after l vs = t_listnode v)"
  by (cases vs) auto

lemma nodes_split:
  obtains xs ys where
    "tl_head l # map t_listnode us = xs @ [before l us]"
    "map t_listnode vs @ [tl_tail l] = after l vs # ys"
proof
  show "tl_head l # map t_listnode us = butlast (tl_head l # map t_listnode us) @ [before l us]"
    unfolding before_def by (simp only: append_butlast_last_id list.distinct not_False_eq_True)
  show "map t_listnode vs @ [tl_tail l] = after l vs # tl (map t_listnode vs @ [tl_tail l])"
    by (cases vs) simp_all
qed

lemma distinct_nodes: "distinct (nodes l ts) \<longleftrightarrow> distinct ts"
  by (auto simp: nodes_def distinct_map inj_on_def)

lemma set_nodes: "set (nodes l ts) = {tl_head l, tl_tail l} \<union> t_listnode ` set ts"
  by (auto simp: nodes_def)

text \<open>Inserting a thread at, and removing it from, any position of a list.\<close>

lemma tl_rep_linked:
  assumes "tl_rep h l (us @ vs)"
  shows "linked h (before l us) (after l vs)"
proof -
  obtain xs ys where "tl_head l # map t_listnode us = xs @ [before l us]"
    "map t_listnode vs @ [tl_tail l] = after l vs # ys" by (rule nodes_split)
  then have "nodes l (us @ vs) = xs @ before l us # after l vs # ys"
    by (metis append.assoc append_Cons append_Nil map_append nodes_def)
  with assms show ?thesis by (simp add: tl_rep_def successively_split)
qed

lemma wrap32_Suc [simp]: "wrap32 (Suc (wrap32 n)) = wrap32 (Suc n)"
  by (simp add: mod_Suc_eq)

lemma wrap32_dec [simp]:
  "(4294967295 + Suc n mod 4294967296) mod 4294967296 = n mod 4294967296"
proof -
  have "(4294967295 + Suc n mod 4294967296) mod 4294967296 = (4294967295 + Suc n) mod 4294967296"
    by (rule mod_add_right_eq)
  then show ?thesis by simp
qed

lemma count_frame [simp]:
  "tl_count (splice_in a c b h) = tl_count h" "tl_count (splice_out a c b h) = tl_count h"
  "tln_self (splice_in a c b h) = tln_self h" "tln_self (splice_out a c b h) = tln_self h"
  by (simp_all add: splice_in_def splice_out_def tl_setters)

lemma links_count [simp]:
  "tln_next (count_inc l h) = tln_next h" "tln_prev (count_inc l h) = tln_prev h"
  "tln_self (count_inc l h) = tln_self h" "tln_next (count_dec l h) = tln_next h"
  "tln_prev (count_dec l h) = tln_prev h" "tln_self (count_dec l h) = tln_self h"
  by (simp_all add: count_inc_def count_dec_def tl_setters)

lemma linked_count [simp]:
  "linked (count_inc l h) = linked h" "linked (count_dec l h) = linked h"
  by (intro ext; simp add: linked_def)+

lemma tl_rep_insert:
  assumes rep: "tl_rep h l (us @ vs)" and t: "t \<notin> set (us @ vs)"
    and self: "tln_self h (t_listnode t) = Some t"
  shows "tl_rep (count_inc l (splice_in (before l us) (t_listnode t) (after l vs) h)) l (us @ t # vs)"
    (is "tl_rep ?h l _")
proof -
  let ?c = "t_listnode t"
  obtain xs ys where xs: "tl_head l # map t_listnode us = xs @ [before l us]"
    and ys: "map t_listnode vs @ [tl_tail l] = after l vs # ys" by (rule nodes_split)
  have n1: "nodes l (us @ vs) = xs @ before l us # after l vs # ys"
    using xs ys by (metis append.assoc append_Cons append_Nil map_append nodes_def)
  have n2: "nodes l (us @ t # vs) = xs @ before l us # ?c # after l vs # ys"
    unfolding nodes_def using xs ys by (metis append.assoc append_Cons append_Nil list.map(2) map_append)
  have c: "?c \<notin> set (nodes l (us @ vs))" using t by (auto simp: set_nodes)
  have "chain ?h (nodes l (us @ t # vs))"
    using rep chain_splice_in [of h xs "before l us" "after l vs" ys ?c] c distinct_nodes [of l "us @ vs"]
    unfolding tl_rep_def n1 n2 by simp
  moreover have "before l us \<noteq> tl_tail l" "after l vs \<noteq> tl_head l"
    using before_cases [of l us] after_cases [of l vs] by auto
  ultimately show ?thesis
    using rep t self
    by (auto simp: tl_rep_def splice_in_def count_inc_def tl_setters mod_Suc_eq)
qed

lemma tl_rep_delete:
  assumes rep: "tl_rep h l (us @ t # vs)"
  shows "tl_rep (count_dec l (splice_out (before l us) (t_listnode t) (after l vs) h)) l (us @ vs)"
      (is "tl_rep ?h l _")
    and "linked h (before l us) (t_listnode t)" "linked h (t_listnode t) (after l vs)"
    and "before l us \<noteq> t_listnode t" "after l vs \<noteq> t_listnode t"
    and "idle (count_dec l (splice_out (before l us) (t_listnode t) (after l vs) h)) t"
proof -
  let ?c = "t_listnode t"
  obtain xs ys where xs: "tl_head l # map t_listnode us = xs @ [before l us]"
    and ys: "map t_listnode vs @ [tl_tail l] = after l vs # ys" by (rule nodes_split)
  have n1: "nodes l (us @ vs) = xs @ before l us # after l vs # ys"
    using xs ys by (metis append.assoc append_Cons append_Nil map_append nodes_def)
  have n2: "nodes l (us @ t # vs) = xs @ before l us # ?c # after l vs # ys"
    unfolding nodes_def using xs ys by (metis append.assoc append_Cons append_Nil list.map(2) map_append)
  have "chain ?h (nodes l (us @ vs))"
    using rep chain_splice_out [of h xs "before l us" ?c "after l vs" ys] distinct_nodes [of l "us @ t # vs"]
    unfolding tl_rep_def n1 n2 by simp
  moreover have "before l us \<noteq> tl_tail l" "after l vs \<noteq> tl_head l"
    using before_cases [of l us] after_cases [of l vs] by auto
  ultimately show "tl_rep ?h l (us @ vs)"
    using rep
    by (auto simp: tl_rep_def splice_out_def count_dec_def tl_setters)
  show "linked h (before l us) ?c" "linked h ?c (after l vs)"
    using tl_rep_linked [of h l us "t # vs"] tl_rep_linked [of h l "us @ [t]" vs] rep by simp_all
  show "before l us \<noteq> ?c" "after l vs \<noteq> ?c"
    using rep before_cases [of l us] after_cases [of l vs] by (auto simp: tl_rep_def)
  then show "idle ?h t" using rep
    by (simp add: idle_def splice_out_def tl_setters count_dec_def tl_rep_def)
qed

text \<open>A list is untouched when its own fields are.\<close>

lemma tl_rep_frame:
  assumes "tl_rep h l ts"
    and "\<And>n. n \<in> set (nodes l ts) \<Longrightarrow>
      tln_next h' n = tln_next h n \<and> tln_prev h' n = tln_prev h n \<and> tln_self h' n = tln_self h n"
    and "tl_count h' l = tl_count h l"
  shows "tl_rep h' l ts"
proof -
  have "chain h (nodes l ts)" using assms(1) by (simp add: tl_rep_def)
  then have "chain h' (nodes l ts)"
  proof (rule chain_frame)
    fix n
    show "tln_next h' n = tln_next h n" if "n \<in> set (butlast (nodes l ts))"
      using assms(2) in_set_butlastD [OF that] by blast
    show "tln_prev h' n = tln_prev h n" if "n \<in> set (tl (nodes l ts))"
      using assms(2) list.set_sel(2) [OF _ that] by (auto simp: nodes_def)
  qed
  with assms(1,3) assms(2) show ?thesis by (simp add: tl_rep_def set_nodes)
qed

lemma before_in: "before l us \<in> insert (tl_head l) (t_listnode ` set us)"
  using before_cases [of l us] by auto

lemma after_in: "after l vs \<in> insert (tl_tail l) (t_listnode ` set vs)"
  using after_cases [of l vs] by auto

lemma splice_other:
  assumes rep': "tl_rep h l' ts'" and "l' \<noteq> l" and disj: "set ts' \<inter> set (us @ t # vs) = {}"
  shows "tl_rep (count_inc l (splice_in (before l us) (t_listnode t) (after l vs) h)) l' ts'"
    and "tl_rep (count_dec l (splice_out (before l us) (t_listnode t) (after l vs) h)) l' ts'"
proof -
  have "set (nodes l' ts') \<inter> {before l us, t_listnode t, after l vs} = {}"
    using assms before_in [of l us] after_in [of l vs] by (auto simp: set_nodes)
  then show "tl_rep (count_inc l (splice_in (before l us) (t_listnode t) (after l vs) h)) l' ts'"
    and "tl_rep (count_dec l (splice_out (before l us) (t_listnode t) (after l vs) h)) l' ts'"
    using \<open>l' \<noteq> l\<close>
    by (intro tl_rep_frame [OF rep'];
        auto simp: splice_in_def splice_out_def count_inc_def count_dec_def tl_setters)+
qed

section \<open>All lists of the heap\<close>

text \<open>
  \<open>tls_rep h L\<close>: the initialised lists are the domain of \<open>L\<close>, each holds the threads \<open>L\<close>
  gives, and no thread is on two of them.
\<close>

definition tls_rep :: "tlheap \<Rightarrow> (tlist \<rightharpoonup> thread list) \<Rightarrow> bool" where
  "tls_rep h L \<longleftrightarrow> (\<forall>l ts. L l = Some ts \<longrightarrow> tl_rep h l ts) \<and>
     (\<forall>l l' ts ts'. L l = Some ts \<and> L l' = Some ts' \<and> l \<noteq> l' \<longrightarrow> set ts \<inter> set ts' = {})"

definition off :: "(tlist \<rightharpoonup> thread list) \<Rightarrow> thread \<Rightarrow> bool" where
  "off L t \<longleftrightarrow> (\<forall>ts\<in>ran L. t \<notin> set ts)"

definition has_node :: "tlheap \<Rightarrow> thread \<Rightarrow> bool" where
  "has_node h t \<longleftrightarrow> tln_self h (t_listnode t) = Some t"

lemma offD: "off L t \<Longrightarrow> L l = Some ts \<Longrightarrow> t \<notin> set ts"
  by (auto simp: off_def ran_def)

lemma off_upd: "off L t \<Longrightarrow> t \<notin> set us \<Longrightarrow> off (L(l \<mapsto> us)) t"
  by (auto simp: off_def ran_def split: if_splits)

lemma tls_repD: "tls_rep h L \<Longrightarrow> L l = Some ts \<Longrightarrow> tl_rep h l ts"
  by (simp add: tls_rep_def)

lemma tls_rep_disj:
  "tls_rep h L \<Longrightarrow> L l = Some ts \<Longrightarrow> L l' = Some ts' \<Longrightarrow> l' \<noteq> l \<Longrightarrow> set ts' \<inter> set ts = {}"
  unfolding tls_rep_def by blast

lemma tls_rep_update:
  assumes "tls_rep h L" "L l = Some ts" "tl_rep h' l ts2"
    and "\<And>l' ts'. L l' = Some ts' \<Longrightarrow> l' \<noteq> l \<Longrightarrow> tl_rep h' l' ts' \<and> set ts' \<inter> set ts2 = {}"
  shows "tls_rep h' (L(l \<mapsto> ts2))"
  unfolding tls_rep_def
proof (intro conjI allI impI)
  fix k us assume k: "(L(l \<mapsto> ts2)) k = Some us"
  show "tl_rep h' k us" using k assms(3) assms(4) [of k us] by (cases "k = l") auto
next
  fix k k' us us'
  assume a: "(L(l \<mapsto> ts2)) k = Some us \<and> (L(l \<mapsto> ts2)) k' = Some us' \<and> k \<noteq> k'"
  show "set us \<inter> set us' = {}"
    using a assms(4) [of k us] assms(4) [of k' us'] tls_rep_disj [OF assms(1), of k us k' us']
    by (cases "k = l"; cases "k' = l") (auto split: if_splits)
qed

lemma tls_rep_insert:
  assumes rep: "tls_rep h L" and l: "L l = Some (us @ vs)" and t: "off L t" "has_node h t"
  shows "tls_rep (count_inc l (splice_in (before l us) (t_listnode t) (after l vs) h))
           (L(l \<mapsto> us @ t # vs))"
proof (rule tls_rep_update [OF rep l])
  show "tl_rep (count_inc l (splice_in (before l us) (t_listnode t) (after l vs) h)) l (us @ t # vs)"
    using tls_repD [OF rep l] offD [OF t(1) l] t(2) by (intro tl_rep_insert) (auto simp: has_node_def)
next
  fix l' ts' assume l': "L l' = Some ts'" "l' \<noteq> l"
  have "set ts' \<inter> set (us @ t # vs) = {}"
    using tls_rep_disj [OF rep l l'] offD [OF t(1) l'(1)] by auto
  then show "tl_rep (count_inc l (splice_in (before l us) (t_listnode t) (after l vs) h)) l' ts' \<and>
      set ts' \<inter> set (us @ t # vs) = {}"
    using splice_other(1) [OF tls_repD [OF rep l'(1)] l'(2)] by blast
qed

lemma tls_rep_delete:
  assumes rep: "tls_rep h L" and l: "L l = Some (us @ t # vs)"
  shows "tls_rep (count_dec l (splice_out (before l us) (t_listnode t) (after l vs) h))
           (L(l \<mapsto> us @ vs))"
proof (rule tls_rep_update [OF rep l])
  show "tl_rep (count_dec l (splice_out (before l us) (t_listnode t) (after l vs) h)) l (us @ vs)"
    by (rule tl_rep_delete [OF tls_repD [OF rep l]])
next
  fix l' ts' assume l': "L l' = Some ts'" "l' \<noteq> l"
  show "tl_rep (count_dec l (splice_out (before l us) (t_listnode t) (after l vs) h)) l' ts' \<and>
      set ts' \<inter> set (us @ vs) = {}"
    using splice_other(2) [OF tls_repD [OF rep l'(1)] l'(2) tls_rep_disj [OF rep l l']]
      tls_rep_disj [OF rep l l'] by auto
qed

text \<open>What each operation does, on every branch.\<close>

lemma tls_linked: "tls_rep h L \<Longrightarrow> L l = Some (us @ vs) \<Longrightarrow> linked h (before l us) (after l vs)"
  by (rule tl_rep_linked [OF tls_repD])

lemma before_neq: "t \<notin> set us \<Longrightarrow> before l us \<noteq> t_listnode t"
  using before_cases [of l us] by auto

lemma after_neq: "t \<notin> set vs \<Longrightarrow> after l vs \<noteq> t_listnode t"
  using after_cases [of l vs] by auto

lemma insertafternode_rep:
  assumes "tls_rep h L" "L l = Some (us @ vs)" "off L t" "has_node h t"
  shows "threadlist_insertafternode (before l us) t h =
      Some (splice_in (before l us) (t_listnode t) (after l vs) h)"
  using tls_linked [OF assms(1,2)] before_neq [of t us l] offD [OF assms(3,2)]
  by (intro insertafternode_splice) auto

lemma insertbeforenode_rep:
  assumes "tls_rep h L" "L l = Some (us @ vs)" "off L t" "has_node h t"
  shows "threadlist_insertbeforenode t (after l vs) h =
      Some (splice_in (before l us) (t_listnode t) (after l vs) h)"
  using tls_linked [OF assms(1,2)] before_neq [of t us l] after_neq [of t vs l] offD [OF assms(3,2)]
  by (intro insertbeforenode_splice) auto

lemma removenode_rep:
  assumes "tls_rep h L" "L l = Some (us @ t # vs)"
  shows "threadlist_removenode (t_listnode t) h =
      Some (splice_out (before l us) (t_listnode t) (after l vs) h)"
  using tl_rep_delete [OF tls_repD [OF assms]] by (intro removenode_splice)

lemma has_node_ops [simp]:
  "has_node (count_inc l (splice_in a c b h)) = has_node h"
  "has_node (count_dec l (splice_out a c b h)) = has_node h"
  by (intro ext; simp add: has_node_def)+

lemma addhead_spec:
  assumes "tls_rep h L" "L l = Some ts" "off L t" "has_node h t"
  shows "\<exists>h'. threadlist_addhead l t h = Some h' \<and> tls_rep h' (L(l \<mapsto> t # ts)) \<and> has_node h' = has_node h"
  using assms tls_rep_insert [of h L l "[]" ts t] insertafternode_rep [of h L l "[]" ts t]
  by (simp add: threadlist_addhead_def)

lemma addtail_spec:
  assumes "tls_rep h L" "L l = Some ts" "off L t" "has_node h t"
  shows "\<exists>h'. threadlist_addtail l t h = Some h' \<and> tls_rep h' (L(l \<mapsto> ts @ [t])) \<and> has_node h' = has_node h"
  using assms tls_rep_insert [of h L l ts "[]" t] insertbeforenode_rep [of h L l ts "[]" t]
  by (simp add: threadlist_addtail_def)

lemma insertafter_spec:
  assumes "tls_rep h L" "L l = Some (us @ o' # vs)" "off L t" "has_node h t"
  shows "\<exists>h'. threadlist_insertafter l o' t h = Some h' \<and> tls_rep h' (L(l \<mapsto> us @ o' # t # vs)) \<and>
      has_node h' = has_node h"
  using assms tls_rep_insert [of h L l "us @ [o']" vs t] insertafternode_rep [of h L l "us @ [o']" vs t]
  by (simp add: threadlist_insertafter_def)

lemma insertbefore_spec:
  assumes "tls_rep h L" "L l = Some (us @ o' # vs)" "off L t" "has_node h t"
  shows "\<exists>h'. threadlist_insertbefore l t o' h = Some h' \<and> tls_rep h' (L(l \<mapsto> us @ t # o' # vs)) \<and>
      has_node h' = has_node h"
  using assms tls_rep_insert [of h L l us "o' # vs" t] insertbeforenode_rep [of h L l us "o' # vs" t]
  by (simp add: threadlist_insertbefore_def)

lemma remove_spec:
  assumes "tls_rep h L" "L l = Some (us @ t # vs)"
  shows "\<exists>h'. threadlist_remove l t h = Some h' \<and> tls_rep h' (L(l \<mapsto> us @ vs)) \<and> idle h' t \<and>
      has_node h' = has_node h"
  using tls_rep_delete [OF assms] removenode_rep [OF assms] tl_rep_delete(6) [OF tls_repD [OF assms]]
  by (simp add: threadlist_remove_def)

lemma rem_empty:
  assumes "tls_rep h L" "L l = Some []"
  shows "threadlist_remhead l h = Some (None, h)" "threadlist_remtail l h = Some (None, h)"
  using tls_repD [OF assms]
  by (simp_all add: tl_rep_def nodes_def linked_def threadlist_remhead_def threadlist_remtail_def)

lemma remhead_spec:
  assumes "tls_rep h L" "L l = Some (t # ts)"
  shows "\<exists>h'. threadlist_remhead l h = Some (Some t, h') \<and> tls_rep h' (L(l \<mapsto> ts)) \<and> idle h' t \<and>
      has_node h' = has_node h"
proof -
  have a: "L l = Some ([] @ t # ts)" using assms(2) by simp
  note r = tl_rep_delete [OF tls_repD [OF assms(1) a]]
  have "tln_next h (tl_head l) = Some (t_listnode t)" "tln_next h (t_listnode t) \<noteq> None"
    "tln_self h (t_listnode t) = Some t"
    using r(2,3) tls_repD [OF assms] by (auto simp: linked_def tl_rep_def)
  then show ?thesis
    using tls_rep_delete [OF assms(1) a] removenode_rep [OF assms(1) a] r(6)
    by (simp add: threadlist_remhead_def)
qed

lemma remtail_spec:
  assumes "tls_rep h L" "L l = Some (ts @ [t])"
  shows "\<exists>h'. threadlist_remtail l h = Some (Some t, h') \<and> tls_rep h' (L(l \<mapsto> ts)) \<and> idle h' t \<and>
      has_node h' = has_node h"
proof -
  note r = tl_rep_delete [OF tls_repD [OF assms]]
  have "tln_prev h (tl_tail l) = Some (t_listnode t)" "tln_prev h (t_listnode t) \<noteq> None"
    "tln_self h (t_listnode t) = Some t"
    using r(2,3) tls_repD [OF assms] by (auto simp: linked_def tl_rep_def)
  then show ?thesis
    using tls_rep_delete [OF assms] removenode_rep [OF assms] r(6)
    by (simp add: threadlist_remtail_def)
qed

lemma init_spec:
  assumes "tls_rep h L" "L l = None"
  shows "tls_rep (threadlist_init l h) (L(l \<mapsto> []))" "has_node (threadlist_init l h) = has_node h"
proof -
  let ?h = "threadlist_init l h"
  have new: "tl_rep ?h l []"
    by (simp add: threadlist_init_def tl_rep_def nodes_def linked_def tl_setters)
  have old: "tl_rep ?h l' ts" if "tl_rep h l' ts" "l' \<noteq> l" for l' ts
    using that by (intro tl_rep_frame [OF that(1)])
      (auto simp: threadlist_init_def tl_setters Let_def set_nodes)
  show "tls_rep ?h (L(l \<mapsto> []))"
    using assms new old by (fastforce simp: tls_rep_def)
  show "has_node ?h = has_node h"
    by (intro ext) (simp add: has_node_def threadlist_init_def tl_setters Let_def)
qed

lemma node_init_spec:
  assumes "tls_rep h L" "off L t"
  shows "\<exists>h'. threadlistnode_init (t_listnode t) (Some t) h = Some h' \<and> tls_rep h' L \<and> idle h' t \<and>
      has_node h' t"
proof -
  have "tl_rep (set_self (t_listnode t) (Some t) (set_prev (t_listnode t) None
      (set_next (t_listnode t) None h))) l ts" if "L l = Some ts" for l ts
    using offD [OF assms(2) that]
    by (intro tl_rep_frame [OF tls_repD [OF assms(1) that]]) (auto simp: tl_setters set_nodes)
  with assms(1) show ?thesis
    by (simp add: threadlistnode_init_def tls_rep_def idle_def has_node_def) (simp add: tl_setters)
qed

lemma isempty_spec:
  assumes "tls_rep h L" "L l = Some ts" "length ts < 2 ^ 32"
  shows "threadlist_isempty l h \<longleftrightarrow> ts = []"
    and "threadlist_cleanup l h = (if ts = [] then Some () else None)"
  using tls_repD [OF assms(1,2)] assms(3)
  by (simp_all add: threadlist_isempty_def threadlist_cleanup_def tl_rep_def)

section \<open>The queue interface\<close>

text \<open>
  What the scheduler and the wait channels rely on: threads are queued at the tail and
  taken from the head, other queues are not affected. \<open>push_all\<close> and \<open>pop_n\<close> are a client
  that queues several threads and takes several.
\<close>

fun push_all :: "('l \<Rightarrow> thread \<Rightarrow> 'h \<Rightarrow> 'h option) \<Rightarrow> 'l \<Rightarrow> thread list \<Rightarrow> 'h \<Rightarrow> 'h option" where
  "push_all add l [] h = Some h"
| "push_all add l (t # ts) h = do { h \<leftarrow> add l t h; push_all add l ts h }"

fun pop_n ::
  "('l \<Rightarrow> 'h \<Rightarrow> (thread option \<times> 'h) option) \<Rightarrow> 'l \<Rightarrow> nat \<Rightarrow> 'h \<Rightarrow> (thread list \<times> 'h) option" where
  "pop_n rem l 0 h = Some ([], h)"
| "pop_n rem l (Suc n) h = do {
     (t, h) \<leftarrow> rem l h;
     case t of
       None \<Rightarrow> Some ([], h)
     | Some t \<Rightarrow> do { (ts, h) \<leftarrow> pop_n rem l n h; Some (t # ts, h) }
   }"

locale thread_queue =
  fixes rep :: "'h \<Rightarrow> (tlist \<rightharpoonup> thread list) \<Rightarrow> bool"
    and node_of :: "'h \<Rightarrow> thread \<Rightarrow> bool"
    and addtail :: "tlist \<Rightarrow> thread \<Rightarrow> 'h \<Rightarrow> 'h option"
    and remhead :: "tlist \<Rightarrow> 'h \<Rightarrow> (thread option \<times> 'h) option"
  assumes addtail_law: "\<lbrakk>rep h L; L l = Some ts; off L t; node_of h t\<rbrakk> \<Longrightarrow>
      \<exists>h'. addtail l t h = Some h' \<and> rep h' (L(l \<mapsto> ts @ [t])) \<and> node_of h' = node_of h"
    and remhead_empty_law: "\<lbrakk>rep h L; L l = Some []\<rbrakk> \<Longrightarrow> remhead l h = Some (None, h)"
    and remhead_law: "\<lbrakk>rep h L; L l = Some (t # ts)\<rbrakk> \<Longrightarrow>
      \<exists>h'. remhead l h = Some (Some t, h') \<and> rep h' (L(l \<mapsto> ts)) \<and> node_of h' = node_of h"
begin

lemma push_all_rep:
  assumes "rep h L" "L l = Some ts" "distinct us" "\<forall>u\<in>set us. off L u \<and> node_of h u"
  shows "\<exists>h'. push_all addtail l us h = Some h' \<and> rep h' (L(l \<mapsto> ts @ us)) \<and> node_of h' = node_of h"
  using assms
proof (induction us arbitrary: h L ts)
  case Nil
  then show ?case by (simp add: map_upd_triv)
next
  case (Cons u us)
  then obtain h1 where h1: "addtail l u h = Some h1" "rep h1 (L(l \<mapsto> ts @ [u]))" "node_of h1 = node_of h"
    using addtail_law [of h L l ts u] by auto
  have "\<forall>v\<in>set us. off (L(l \<mapsto> ts @ [u])) v \<and> node_of h1 v"
    using Cons.prems h1(3) offD [where L = L, OF _ Cons.prems(2)] by (auto intro!: off_upd)
  from Cons.IH [OF h1(2) _ _ this] Cons.prems(3) h1 show ?case
    by (auto simp del: fun_upd_apply simp add: fun_upd_same)
qed

lemma pop_n_rep:
  assumes "rep h L" "L l = Some ts"
  shows "\<exists>h'. pop_n remhead l n h = Some (take n ts, h') \<and> rep h' (L(l \<mapsto> drop n ts))"
  using assms
proof (induction n arbitrary: h L ts)
  case 0
  then show ?case by (simp add: map_upd_triv)
next
  case (Suc n)
  show ?case
  proof (cases ts)
    case Nil
    with Suc.prems show ?thesis by (simp add: remhead_empty_law map_upd_triv)
  next
    case (Cons t ts')
    then obtain h1 where "remhead l h = Some (Some t, h1)" "rep h1 (L(l \<mapsto> ts'))"
      using remhead_law [of h L l t ts'] Suc.prems by auto
    moreover from this(2) obtain h' where
      "pop_n remhead l n h1 = Some (take n ts', h')" "rep h' (L(l \<mapsto> drop n ts'))"
      using Suc.IH [of h1 "L(l \<mapsto> ts')" ts'] by (auto simp del: fun_upd_apply simp add: fun_upd_same)
    ultimately show ?thesis using Cons by (simp del: fun_upd_apply)
  qed
qed

lemma fifo:
  assumes "rep h L" "L l = Some ts" "distinct us" "\<forall>u\<in>set us. off L u \<and> node_of h u"
  shows "\<exists>h1 h2. push_all addtail l us h = Some h1 \<and>
      pop_n remhead l n h1 = Some (take n (ts @ us), h2) \<and> rep h2 (L(l \<mapsto> drop n (ts @ us)))"
proof -
  obtain h1 where h1: "push_all addtail l us h = Some h1" "rep h1 (L(l \<mapsto> ts @ us))"
    using push_all_rep [OF assms] by blast
  from pop_n_rep [OF h1(2) fun_upd_same, of n] h1(1) show ?thesis by (simp only: fun_upd_upd) blast
qed

end

interpretation tlq: thread_queue tls_rep has_node threadlist_addtail threadlist_remhead
proof unfold_locales
qed (use remhead_spec in \<open>blast intro: addtail_spec rem_empty(1)\<close>)+

text \<open>The heap of the examples: no list is initialised, every thread has a node.\<close>

definition tlheap0 :: tlheap where
  "tlheap0 = \<lparr>tln_prev = (\<lambda>_. None), tln_next = (\<lambda>_. None),
     tln_self = (\<lambda>n. case n of t_listnode t \<Rightarrow> Some t | _ \<Rightarrow> None), tl_count = (\<lambda>_. 0)\<rparr>"

lemma tlheap0_rep: "tls_rep tlheap0 (\<lambda>_. None)" "has_node tlheap0 t"
  by (simp_all add: tls_rep_def tlheap0_def has_node_def)

lemma off_empty [simp]: "off (\<lambda>_. None) t" "off [l \<mapsto> ts] t \<longleftrightarrow> t \<notin> set ts"
  by (auto simp: off_def)

section \<open>Properties\<close>

text \<open>
  C25: Every insertion puts the thread at the place the code promises: at the head, at the
  tail, right after or right before a thread of the list. It never stops the kernel, and it
  leaves every list well formed (links in both directions, bookends, count) with all the
  other lists as they were.
\<close>

theorem threadlist_insert_correct:
  assumes "tls_rep h L" "L l = Some ts" "off L t" "has_node h t"
  shows "(\<exists>h'. threadlist_addhead l t h = Some h' \<and> tls_rep h' (L(l \<mapsto> t # ts))) \<and>
    (\<exists>h'. threadlist_addtail l t h = Some h' \<and> tls_rep h' (L(l \<mapsto> ts @ [t]))) \<and>
    (\<forall>us o' vs. ts = us @ o' # vs \<longrightarrow>
      (\<exists>h'. threadlist_insertafter l o' t h = Some h' \<and> tls_rep h' (L(l \<mapsto> us @ o' # t # vs))) \<and>
      (\<exists>h'. threadlist_insertbefore l t o' h = Some h' \<and> tls_rep h' (L(l \<mapsto> us @ t # o' # vs))))"
proof (intro conjI allI impI)
  fix us o' vs assume "ts = us @ o' # vs"
  with assms(2) have l: "L l = Some (us @ o' # vs)" by simp
  show "\<exists>h'. threadlist_insertafter l o' t h = Some h' \<and> tls_rep h' (L(l \<mapsto> us @ o' # t # vs))"
    using insertafter_spec [OF assms(1) l assms(3,4)] by blast
  show "\<exists>h'. threadlist_insertbefore l t o' h = Some h' \<and> tls_rep h' (L(l \<mapsto> us @ t # o' # vs))"
    using insertbefore_spec [OF assms(1) l assms(3,4)] by blast
qed (use addhead_spec [OF assms] addtail_spec [OF assms] in blast)+

theorem threadlist_insert_correct_witness:
  "\<exists>h'. threadlist_addtail 7 4 (threadlist_init 7 tlheap0) = Some h' \<and> tls_rep h' [7 \<mapsto> [4]]"
  using threadlist_insert_correct [of "threadlist_init 7 tlheap0" "[7 \<mapsto> []]" 7 "[]" 4]
    init_spec [OF tlheap0_rep(1), of 7] tlheap0_rep(2) by simp

text \<open>
  C11: Removal. From an empty list \<open>threadlist_remhead\<close> and \<open>threadlist_remtail\<close> return the
  null pointer and change nothing. From a list that holds threads they return the first and
  the last one; \<open>threadlist_remove\<close> takes the given one. The removed thread is unlinked
  (\<open>threadlistnode_cleanup\<close> accepts it), and all lists stay well formed.
\<close>

theorem threadlist_remove_correct:
  assumes "tls_rep h L" "L l = Some ts"
  shows "(ts = [] \<longrightarrow> threadlist_remhead l h = Some (None, h) \<and> threadlist_remtail l h = Some (None, h)) \<and>
    (\<forall>t us. ts = t # us \<longrightarrow> (\<exists>h'. threadlist_remhead l h = Some (Some t, h') \<and>
       tls_rep h' (L(l \<mapsto> us)) \<and> threadlistnode_cleanup (t_listnode t) h' = Some ())) \<and>
    (\<forall>t us. ts = us @ [t] \<longrightarrow> (\<exists>h'. threadlist_remtail l h = Some (Some t, h') \<and>
       tls_rep h' (L(l \<mapsto> us)) \<and> threadlistnode_cleanup (t_listnode t) h' = Some ())) \<and>
    (\<forall>us t vs. ts = us @ t # vs \<longrightarrow> (\<exists>h'. threadlist_remove l t h = Some h' \<and>
       tls_rep h' (L(l \<mapsto> us @ vs)) \<and> threadlistnode_cleanup (t_listnode t) h' = Some ()))"
proof -
  have c: "threadlistnode_cleanup (t_listnode t) h' = Some ()" if "idle h' t" for t h'
    using that by (simp add: idle_def threadlistnode_cleanup_def)
  show ?thesis
  proof (intro conjI allI impI)
    show "threadlist_remhead l h = Some (None, h)" "threadlist_remtail l h = Some (None, h)" if "ts = []"
      using that rem_empty [OF assms(1)] assms(2) by simp_all
    show "\<exists>h'. threadlist_remhead l h = Some (Some t, h') \<and> tls_rep h' (L(l \<mapsto> us)) \<and>
        threadlistnode_cleanup (t_listnode t) h' = Some ()" if "ts = t # us" for t us
      using remhead_spec [OF assms [unfolded that]] c by blast
    show "\<exists>h'. threadlist_remtail l h = Some (Some t, h') \<and> tls_rep h' (L(l \<mapsto> us)) \<and>
        threadlistnode_cleanup (t_listnode t) h' = Some ()" if "ts = us @ [t]" for t us
      using remtail_spec [OF assms [unfolded that]] c by blast
    show "\<exists>h'. threadlist_remove l t h = Some h' \<and> tls_rep h' (L(l \<mapsto> us @ vs)) \<and>
        threadlistnode_cleanup (t_listnode t) h' = Some ()" if "ts = us @ t # vs" for us t vs
      using remove_spec [OF assms [unfolded that]] c by blast
  qed
qed

theorem threadlist_remove_correct_witness:
  "\<exists>h. tls_rep h [7 \<mapsto> [4]] \<and> (\<exists>h'. threadlist_remhead 7 h = Some (Some 4, h') \<and>
     tls_rep h' [7 \<mapsto> []] \<and> threadlistnode_cleanup (t_listnode 4) h' = Some ())"
proof -
  obtain h where h: "tls_rep h [7 \<mapsto> [4]]"
    using addtail_spec [of "threadlist_init 7 tlheap0" "[7 \<mapsto> []]" 7 "[]" 4]
      init_spec [OF tlheap0_rep(1), of 7] tlheap0_rep(2) by auto
  with threadlist_remove_correct [OF h, of 7 "[4]"] show ?thesis by auto
qed

text \<open>
  A thread list is a first-in first-out queue. Queueing the threads \<open>us\<close> at the tail of a
  list that holds \<open>ts\<close> and then taking \<open>n\<close> threads from the head succeeds, returns the first
  \<open>n\<close> threads of \<open>ts @ us\<close> in order (all of them when there are fewer), and leaves the rest.
\<close>

theorem threadlist_fifo:
  assumes "tls_rep h L" "L l = Some ts" "distinct us" "\<forall>u\<in>set us. off L u \<and> has_node h u"
  shows "\<exists>h1 h2. push_all threadlist_addtail l us h = Some h1 \<and>
      pop_n threadlist_remhead l n h1 = Some (take n (ts @ us), h2) \<and>
      tls_rep h2 (L(l \<mapsto> drop n (ts @ us)))"
  using assms by (rule tlq.fifo)

theorem threadlist_fifo_witness:
  "\<exists>h1 h2. push_all threadlist_addtail 7 [4, 9, 2] (threadlist_init 7 tlheap0) = Some h1 \<and>
      pop_n threadlist_remhead 7 2 h1 = Some ([4, 9], h2) \<and> tls_rep h2 [7 \<mapsto> [2]]"
  using threadlist_fifo [of "threadlist_init 7 tlheap0" "[7 \<mapsto> []]" 7 "[]" "[4, 9, 2]" 2]
    init_spec [OF tlheap0_rep(1), of 7] tlheap0_rep(2) by simp

end
