(* ===== verification/Kern_Array.thy ===== *)
theory Kern_Array
  imports Os_Prelude
begin

text \<open>
  The resizeable arrays of pointers of \<open>kern/lib/array.c\<close> and \<open>kern/include/array.h\<close>, on
  which the lists of threads, processors, devices and vnodes are built. \<open>v\<close> is the allocated
  block with all its \<open>max\<close> cells; the first \<open>num\<close> are in use.

  \<open>kmalloc\<close> is an argument: given a number of bytes it returns a block of pointer-sized
  cells with arbitrary contents, or nothing. A copy that would run past the end of a block
  stops the kernel in the model. The doubling loop of \<open>array_setsize\<close> need not end, because
  \<open>newmax*2\<close> wraps around: it is a partial function, and not returning is \<open>None\<close>.
\<close>

record 'a array =
  v :: "'a list"
  num :: nat
  max :: nat

type_synonym 'a kmalloc = "nat \<Rightarrow> 'a list option"

section \<open>Operations\<close>

definition array_init :: "'a array" where
  "array_init = \<lparr>v = [], num = 0, max = 0\<rparr>"

definition array_create :: "bool \<Rightarrow> 'a array option" where
  "array_create ok = (if ok then Some array_init else None)"

definition array_cleanup :: "'a array \<Rightarrow> 'a array option" where
  "array_cleanup a = do { kassert (num a = 0); Some (a\<lparr>v := []\<rparr>) }"

definition array_num :: "'a array \<Rightarrow> nat" where
  "array_num a = num a"



text \<open>\<open>while (num > newmax) newmax = newmax ? newmax*2 : 4;\<close>\<close>

partial_function (option) grow :: "nat \<Rightarrow> nat \<Rightarrow> nat option" where
  "grow n newmax =
     (if n > newmax then grow n (if newmax \<noteq> 0 then wrap32 (newmax * 2) else 4) else Some newmax)"

definition array_setsize :: "'a kmalloc \<Rightarrow> 'a array \<Rightarrow> nat \<Rightarrow> (errno + 'a array) option" where
  "array_setsize kmalloc a n =
     (if n > max a then do {
        newmax \<leftarrow> grow n (max a);
        case kmalloc (wrap32 (newmax * 4)) of
          None \<Rightarrow> Some (Inl ENOMEM)
        | Some newptr \<Rightarrow> do {
            kassert (num a \<le> length (v a) \<and> num a \<le> length newptr);
            Some (Inr (a\<lparr>v := take (num a) (v a) @ drop (num a) newptr, max := newmax, num := n\<rparr>))
          }
      }
      else Some (Inr (a\<lparr>num := n\<rparr>)))"



section \<open>Invariant and abstraction\<close>

text \<open>
  The block has \<open>max\<close> cells, a multiple of the initial four by a power of two that an
  allocation of \<open>4 * max\<close> bytes can express.
\<close>

definition array_inv :: "'a array \<Rightarrow> bool" where
  "array_inv a \<longleftrightarrow> length (v a) = max a \<and> num a \<le> max a \<and>
     max a \<in> insert 0 ((\<lambda>k. 2 ^ k) ` {2..29})"

definition elems :: "'a array \<Rightarrow> 'a list" where
  "elems a = take (num a) (v a)"


lemma elems_length [simp]: "array_inv a \<Longrightarrow> length (elems a) = num a"
  by (simp add: elems_def array_inv_def)

lemma array_init_inv: "array_inv array_init" "elems array_init = []"
  by (simp_all add: array_inv_def array_init_def elems_def)



text \<open>The loop never leaves the powers of two and zero, so it never ends above \<open>2 ^ 31\<close>.\<close>

lemma grow_result:
  "grow n m0 = Some m \<Longrightarrow> m0 \<in> insert 0 ((\<lambda>k. 2 ^ k) ` {2..31}) \<Longrightarrow> n \<le> m \<and> m \<le> 2 ^ 31"
proof (induction rule: grow.raw_induct [rotated, consumes 1, case_names step])
  case (step grow n newmax m)
  show ?case
  proof (cases "n > newmax")
    case True
    let ?next = "if newmax \<noteq> 0 then wrap32 (newmax * 2) else 4"
    have "?next \<in> insert 0 ((\<lambda>k. 2 ^ k) ` {2..31})"
    proof (cases "newmax = 0")
      case False
      then obtain k where k: "newmax = 2 ^ k" "2 \<le> k" "k \<le> 31" using step(3) by auto
      show ?thesis
      proof (cases "k = 31")
        case True
        then show ?thesis using k by simp
      next
        case False
        then have "(2::nat) ^ Suc k < 2 ^ 32" using k by (intro power_strict_increasing) auto
        then show ?thesis using k False by (auto intro!: image_eqI [of _ _ "Suc k"])
      qed
    qed (auto intro!: image_eqI [of _ _ 2])
    with True step show ?thesis by simp
  next
    case False
    moreover have "(2::nat) ^ k \<le> 2 ^ 31" if "k \<le> 31" for k
      using that by (intro power_increasing) auto
    ultimately show ?thesis using step(2,3) by auto
  qed
qed

section \<open>What the operations do\<close>






section \<open>Properties\<close>



text \<open>
  C33: \<open>array_setsize\<close> does not return when asked for more than \<open>2 ^ 31\<close> elements: \<open>newmax*2\<close>
  wraps around from \<open>2 ^ 31\<close> to zero, and the loop starts again from four.
\<close>

theorem array_setsize_diverges:
  assumes "array_inv a" "2 ^ 31 < n"
  shows "array_setsize kmalloc a n = None"
proof -
  have "max a \<in> insert 0 ((\<lambda>k. 2 ^ k) ` {2..31})" using assms(1) by (auto simp: array_inv_def)
  then have "grow n (max a) = None"
    using grow_result [of n "max a"] assms(2) by (cases "grow n (max a)") auto
  moreover have "max a < n"
  proof -
    have "(2::nat) ^ k \<le> 2 ^ 31" if "k \<le> 29" for k using that by (intro power_increasing) auto
    with assms show ?thesis by (fastforce simp: array_inv_def)
  qed
  ultimately show ?thesis by (simp add: array_setsize_def)
qed

theorem array_setsize_diverges_witness:
  "array_setsize (\<lambda>_. Some []) (array_init :: nat array) 3000000000 = None"
  using array_setsize_diverges [of "array_init :: nat array" 3000000000] array_init_inv(1)
  by simp

end
