(* ===== verification/Copyinout.thy ===== *)
theory Copyinout
  imports Os_Prelude
begin

text \<open>
  Copying between kernel and user memory: \<open>kern/vm/copyinout.c\<close>. Memory is one address space
  of bytes in which user addresses are those below \<open>USERSPACETOP\<close>. Which user addresses can
  be read and written is an argument (\<open>rd\<close>, \<open>wr\<close>): it is decided by the address translation
  of the machine and the fault handler. A bad access while \<open>tm_badfaultfunc\<close> is set resumes in
  \<open>copyfail\<close>, which jumps back to the \<open>setjmp\<close> of the copy; otherwise it stops the kernel.
\<close>

type_synonym addr = nat
type_synonym memory = "addr \<Rightarrow> 8 word"

record machine =
  mem :: memory
  badfaultfunc :: bool

abbreviation (input) USERSPACETOP :: nat where
  "USERSPACETOP \<equiv> 0x80000000"

section \<open>Operations\<close>

definition copycheck :: "addr \<Rightarrow> nat \<Rightarrow> errno + nat" where
  "copycheck userptr len =
     (let stoplen = len;
          bot = userptr;
          top = wrap32 (bot + len + 2 ^ 32 - 1)
      in if top < bot then Inl EFAULT
         else if bot \<ge> USERSPACETOP then Inl EFAULT
         else if top \<ge> USERSPACETOP then Inr (USERSPACETOP - bot)
         else Inr stoplen)"

text \<open>
  \<open>memcpy\<close> byte by byte, up to the first access that faults. The boolean tells whether it
  finished.
\<close>

fun memcpy_faulting ::
  "(addr \<Rightarrow> bool) \<Rightarrow> (addr \<Rightarrow> bool) \<Rightarrow> addr \<Rightarrow> addr \<Rightarrow> nat \<Rightarrow> memory \<Rightarrow> bool \<times> memory" where
  "memcpy_faulting rd wr dest src 0 m = (True, m)"
| "memcpy_faulting rd wr dest src (Suc n) m =
     (if rd src \<and> wr dest then memcpy_faulting rd wr (dest + 1) (src + 1) n (m(dest := m src))
      else (False, m))"

definition copyin ::
  "(addr \<Rightarrow> bool) \<Rightarrow> addr \<Rightarrow> addr \<Rightarrow> nat \<Rightarrow> machine \<Rightarrow> ((errno + unit) \<times> machine) option" where
  "copyin rd usersrc dest len s =
     (case copycheck usersrc len of
        Inl e \<Rightarrow> Some (Inl e, s)
      | Inr stoplen \<Rightarrow>
          if stoplen \<noteq> len then Some (Inl EFAULT, s)
          else do {
            let s = s\<lparr>badfaultfunc := True\<rparr>;
            let (fin, m) = memcpy_faulting rd (\<lambda>_. True) dest usersrc len (mem s);
            let s = s\<lparr>mem := m\<rparr>;
            kassert (fin \<or> badfaultfunc s);
            let s = s\<lparr>badfaultfunc := False\<rparr>;
            Some (if fin then Inr () else Inl EFAULT, s)
          })"

definition copyout ::
  "(addr \<Rightarrow> bool) \<Rightarrow> addr \<Rightarrow> addr \<Rightarrow> nat \<Rightarrow> machine \<Rightarrow> ((errno + unit) \<times> machine) option" where
  "copyout wr src userdest len s =
     (case copycheck userdest len of
        Inl e \<Rightarrow> Some (Inl e, s)
      | Inr stoplen \<Rightarrow>
          if stoplen \<noteq> len then Some (Inl EFAULT, s)
          else do {
            let s = s\<lparr>badfaultfunc := True\<rparr>;
            let (fin, m) = memcpy_faulting (\<lambda>_. True) wr userdest src len (mem s);
            let s = s\<lparr>mem := m\<rparr>;
            kassert (fin \<or> badfaultfunc s);
            let s = s\<lparr>badfaultfunc := False\<rparr>;
            Some (if fin then Inr () else Inl EFAULT, s)
          })"

text \<open>
  The loop of \<open>copystr\<close> from index \<open>i\<close> with \<open>k\<close> rounds left: it finds the terminator, runs out
  of room, or faults.
\<close>

datatype copystr_result = Got nat | Ran_out | Fault

fun copystr_loop ::
  "(addr \<Rightarrow> bool) \<Rightarrow> (addr \<Rightarrow> bool) \<Rightarrow> addr \<Rightarrow> addr \<Rightarrow> nat \<Rightarrow> nat \<Rightarrow> memory \<Rightarrow> copystr_result \<times> memory" where
  "copystr_loop rd wr dest src i 0 m = (Ran_out, m)"
| "copystr_loop rd wr dest src i (Suc k) m =
     (if rd (src + i) \<and> wr (dest + i) then
        let m = m(dest + i := m (src + i)) in
        if m (src + i) = 0 then (Got (i + 1), m) else copystr_loop rd wr dest src (i + 1) k m
      else (Fault, m))"

text \<open>\<open>None\<close> is a fault, which leaves \<open>copystr\<close> through \<open>longjmp\<close>.\<close>

definition copystr ::
  "(addr \<Rightarrow> bool) \<Rightarrow> (addr \<Rightarrow> bool) \<Rightarrow> addr \<Rightarrow> addr \<Rightarrow> nat \<Rightarrow> nat \<Rightarrow> memory \<Rightarrow>
     (errno + nat) option \<times> memory" where
  "copystr rd wr dest src maxlen stoplen m =
     (case copystr_loop rd wr dest src 0 (min maxlen stoplen) m of
        (Got n, m) \<Rightarrow> (Some (Inr n), m)
      | (Ran_out, m) \<Rightarrow> (Some (Inl (if stoplen < maxlen then EFAULT else ENAMETOOLONG)), m)
      | (Fault, m) \<Rightarrow> (None, m))"

definition copyinstr ::
  "(addr \<Rightarrow> bool) \<Rightarrow> addr \<Rightarrow> addr \<Rightarrow> nat \<Rightarrow> machine \<Rightarrow> ((errno + nat) \<times> machine) option" where
  "copyinstr rd usersrc dest len s =
     (case copycheck usersrc len of
        Inl e \<Rightarrow> Some (Inl e, s)
      | Inr stoplen \<Rightarrow> do {
          let s = s\<lparr>badfaultfunc := True\<rparr>;
          let (result, m) = copystr rd (\<lambda>_. True) dest usersrc len stoplen (mem s);
          let s = s\<lparr>mem := m\<rparr>;
          kassert (result \<noteq> None \<or> badfaultfunc s);
          let s = s\<lparr>badfaultfunc := False\<rparr>;
          Some (case result of Some r \<Rightarrow> r | None \<Rightarrow> Inl EFAULT, s)
        })"

definition copyoutstr ::
  "(addr \<Rightarrow> bool) \<Rightarrow> addr \<Rightarrow> addr \<Rightarrow> nat \<Rightarrow> machine \<Rightarrow> ((errno + nat) \<times> machine) option" where
  "copyoutstr wr src userdest len s =
     (case copycheck userdest len of
        Inl e \<Rightarrow> Some (Inl e, s)
      | Inr stoplen \<Rightarrow> do {
          let s = s\<lparr>badfaultfunc := True\<rparr>;
          let (result, m) = copystr (\<lambda>_. True) wr userdest src len stoplen (mem s);
          let s = s\<lparr>mem := m\<rparr>;
          kassert (result \<noteq> None \<or> badfaultfunc s);
          let s = s\<lparr>badfaultfunc := False\<rparr>;
          Some (case result of Some r \<Rightarrow> r | None \<Rightarrow> Inl EFAULT, s)
        })"

section \<open>Lemmas\<close>

definition user_range :: "addr \<Rightarrow> nat \<Rightarrow> bool" where
  "user_range a n \<longleftrightarrow> 0 < n \<and> a + n \<le> USERSPACETOP"

text \<open>
  The check accepts a range of at least one byte that starts in user space and does not wrap;
  the stop length cuts it at the top of user space. A range of length zero is refused, or cut
  to a length that is not zero.
\<close>

lemma top_wrap:
  assumes "a < 2 ^ 32" "n < 2 ^ 32"
  shows "wrap32 (a + n + 2 ^ 32 - 1) =
    (if a + n = 0 then 2 ^ 32 - 1 else if a + n \<le> 2 ^ 32 then a + n - 1 else a + n - 1 - 2 ^ 32)"
proof (cases "a + n = 0")
  case False
  then have "a + n + 2 ^ 32 - 1 = (a + n - 1) + 2 ^ 32" by simp
  then have "wrap32 (a + n + 2 ^ 32 - 1) = (a + n - 1) mod 2 ^ 32" by (metis mod_add_self2)
  also have "\<dots> = (if a + n \<le> 2 ^ 32 then a + n - 1 else a + n - 1 - 2 ^ 32)"
  proof (cases "a + n \<le> 2 ^ 32")
    case False
    then have "(a + n - 1) mod 2 ^ 32 = (a + n - 1 - 2 ^ 32) mod 2 ^ 32"
      by (intro le_mod_geq) simp
    also have "\<dots> = a + n - 1 - 2 ^ 32" using assms by (intro mod_less) simp
    finally show ?thesis using False by simp
  qed (use False in simp)
  finally show ?thesis using False by simp
qed simp

lemma copycheck_eq:
  assumes "a < 2 ^ 32" "n < 2 ^ 32"
  shows "copycheck a n =
    (if n = 0 then (if a = 0 then Inr USERSPACETOP else Inl EFAULT)
     else if a \<ge> USERSPACETOP \<or> a + n > 2 ^ 32 then Inl EFAULT
     else if a + n > USERSPACETOP then Inr (USERSPACETOP - a) else Inr n)"
  unfolding copycheck_def top_wrap [OF assms] Let_def using assms by auto

lemma copycheck_full:
  assumes "a < 2 ^ 32" "n < 2 ^ 32"
  shows "copycheck a n = Inr n \<longleftrightarrow> user_range a n"
  using assms by (auto simp: copycheck_eq user_range_def)

lemma copycheck_error: "copycheck a n = Inl e \<Longrightarrow> e = EFAULT"
  by (auto simp: copycheck_def Let_def split: if_splits)

text \<open>What \<open>memcpy\<close> does to memory, when source and destination do not overlap.\<close>

definition copied :: "memory \<Rightarrow> addr \<Rightarrow> addr \<Rightarrow> nat \<Rightarrow> memory" where
  "copied m dest src n = (\<lambda>a. if dest \<le> a \<and> a < dest + n then m (src + (a - dest)) else m a)"

lemma memcpy_frame:
  "memcpy_faulting rd wr dest src n m = (fin, m') \<Longrightarrow> a < dest \<or> dest + n \<le> a \<Longrightarrow> m' a = m a"
  by (induction rd wr dest src n m rule: memcpy_faulting.induct) (auto split: if_splits)

lemma memcpy_wr:
  "memcpy_faulting rd wr dest src n m = (fin, m') \<Longrightarrow> \<not> wr a \<Longrightarrow> m' a = m a"
  by (induction rd wr dest src n m rule: memcpy_faulting.induct) (auto split: if_splits)

lemma memcpy_fin:
  "fst (memcpy_faulting rd wr dest src n m) \<longleftrightarrow> (\<forall>i<n. rd (src + i) \<and> wr (dest + i))"
proof (induction rd wr dest src n m rule: memcpy_faulting.induct)
  case (2 rd wr dest src n m)
  then show ?case by (auto simp: All_less_Suc2 simp del: fun_upd_apply)
qed simp

lemma memcpy_done:
  assumes "\<forall>i<n. rd (src + i) \<and> wr (dest + i)" "src + n \<le> dest \<or> dest + n \<le> src"
  shows "memcpy_faulting rd wr dest src n m = (True, copied m dest src n)"
  using assms
proof (induction rd wr dest src n m rule: memcpy_faulting.induct)
  case (2 rd wr dest src n m)
  have "rd src \<and> wr dest" using 2(2) by (auto dest: spec [of _ 0])
  moreover have "\<forall>i<n. rd (src + 1 + i) \<and> wr (dest + 1 + i)" using 2(2) by (auto simp: All_less_Suc2)
  moreover have "copied (m(dest := m src)) (dest + 1) (src + 1) n = copied m dest src (Suc n)"
  proof
    fix a
    have "Suc (src + (a - Suc dest)) = src + (a - dest)" if "dest < a" using that by simp
    then show "copied (m(dest := m src)) (dest + 1) (src + 1) n a = copied m dest src (Suc n) a"
      using 2(3) by (auto simp: copied_def not_less_eq_eq)
  qed
  ultimately show ?case using 2 by (auto simp del: fun_upd_apply)
qed (auto simp: copied_def fun_eq_iff)

lemma copyin_cases:
  assumes "usersrc < 2 ^ 32" "len < 2 ^ 32" "USERSPACETOP \<le> dest"
  shows "\<exists>r m'. copyin rd usersrc dest len s = Some (r, s\<lparr>mem := m', badfaultfunc :=
        (if user_range usersrc len then False else badfaultfunc s)\<rparr>) \<and>
      (\<forall>a. a < dest \<or> dest + len \<le> a \<longrightarrow> m' a = mem s a) \<and>
      (if user_range usersrc len \<and> (\<forall>i<len. rd (usersrc + i))
       then r = Inr () \<and> m' = copied (mem s) dest usersrc len else r = Inl EFAULT)"
proof (cases "user_range usersrc len")
  case False
  then have "copyin rd usersrc dest len s = Some (Inl EFAULT, s)"
    using copycheck_full [OF assms(1,2)] copycheck_error [of usersrc len]
    by (auto simp: copyin_def split: sum.split)
  then show ?thesis using False by (intro exI [of _ "Inl EFAULT"] exI [of _ "mem s"]) simp
next
  case True
  obtain fin m' where m': "memcpy_faulting rd (\<lambda>_. True) dest usersrc len (mem s) = (fin, m')"
    by fastforce
  have f: "fin \<longleftrightarrow> (\<forall>i<len. rd (usersrc + i))"
    using memcpy_fin [of rd "\<lambda>_. True" dest usersrc len "mem s"] m' by simp
  have "fin \<longrightarrow> m' = copied (mem s) dest usersrc len"
    using memcpy_done [of len rd usersrc "\<lambda>_. True" dest "mem s"] f True assms(3) m'
    by (auto simp: user_range_def)
  then show ?thesis
    using True f m' memcpy_frame [OF m'] copycheck_full [OF assms(1,2)]
    by (auto simp: copyin_def)
qed

lemma copyout_cases:
  assumes "userdest < 2 ^ 32" "len < 2 ^ 32" "USERSPACETOP \<le> src"
  shows "\<exists>r m'. copyout wr src userdest len s = Some (r, s\<lparr>mem := m', badfaultfunc :=
        (if user_range userdest len then False else badfaultfunc s)\<rparr>) \<and>
      (\<forall>a. \<not> (wr a \<and> a < USERSPACETOP \<and> userdest \<le> a \<and> a < userdest + len) \<longrightarrow> m' a = mem s a) \<and>
      (if user_range userdest len \<and> (\<forall>i<len. wr (userdest + i))
       then r = Inr () \<and> m' = copied (mem s) userdest src len else r = Inl EFAULT)"
proof (cases "user_range userdest len")
  case False
  then have "copyout wr src userdest len s = Some (Inl EFAULT, s)"
    using copycheck_full [OF assms(1,2)] copycheck_error [of userdest len]
    by (auto simp: copyout_def split: sum.split)
  then show ?thesis using False by (intro exI [of _ "Inl EFAULT"] exI [of _ "mem s"]) simp
next
  case True
  obtain fin m' where m': "memcpy_faulting (\<lambda>_. True) wr userdest src len (mem s) = (fin, m')"
    by fastforce
  have f: "fin \<longleftrightarrow> (\<forall>i<len. wr (userdest + i))"
    using memcpy_fin [of "\<lambda>_. True" wr userdest src len "mem s"] m' by simp
  have "fin \<longrightarrow> m' = copied (mem s) userdest src len"
    using memcpy_done [of len "\<lambda>_. True" src wr userdest "mem s"] f True assms(3) m'
    by (auto simp: user_range_def)
  moreover have "m' a = mem s a"
    if "\<not> (wr a \<and> a < USERSPACETOP \<and> userdest \<le> a \<and> a < userdest + len)" for a
    using that True memcpy_frame [OF m', of a] memcpy_wr [OF m', of a]
    by (cases "wr a") (auto simp: user_range_def)
  ultimately show ?thesis
    using True f m' copycheck_full [OF assms(1,2)]
    by (auto simp: copyout_def)
qed

text \<open>The loop of \<open>copystr\<close>: it stops at the terminator, and copies what it has passed.\<close>

lemma copystr_loop_frame:
  "copystr_loop rd wr dest src i k m = (r, m') \<Longrightarrow> a < dest + i \<or> dest + i + k \<le> a \<Longrightarrow> m' a = m a"
  by (induction rd wr dest src i k m rule: copystr_loop.induct) (auto simp: Let_def split: if_splits)

lemma copystr_loop_wr:
  "copystr_loop rd wr dest src i k m = (r, m') \<Longrightarrow> \<not> wr a \<Longrightarrow> m' a = m a"
  by (induction rd wr dest src i k m rule: copystr_loop.induct) (auto simp: Let_def split: if_splits)

lemma copystr_loop_got:
  assumes "i \<le> j" "j < i + k" "m (src + j) = 0" "\<forall>l. i \<le> l \<and> l < j \<longrightarrow> m (src + l) \<noteq> 0"
    and "\<forall>l. i \<le> l \<and> l \<le> j \<longrightarrow> rd (src + l) \<and> wr (dest + l)"
    and "src + j < dest \<or> dest + j < src"
  shows "copystr_loop rd wr dest src i k m = (Got (j + 1), copied m (dest + i) (src + i) (j + 1 - i))"
  using assms
proof (induction rd wr dest src i k m rule: copystr_loop.induct)
  case (2 rd wr dest src i k m)
  let ?m = "m(dest + i := m (src + i))"
  have acc: "rd (src + i) \<and> wr (dest + i)" using 2(2,6) by auto
  have same: "?m (src + l) = m (src + l)" if "i \<le> l" "l \<le> j" for l using 2(7) that by auto
  show ?case
  proof (cases "i = j")
    case True
    then show ?thesis using acc 2(4) by (auto simp: Let_def copied_def fun_eq_iff)
  next
    case False
    have nz: "m (src + i) \<noteq> 0" using False 2(2,5) by auto
    have "copied ?m (dest + (i + 1)) (src + (i + 1)) (j + 1 - (i + 1)) =
        copied m (dest + i) (src + i) (j + 1 - i)"
    proof
      fix a
      have "src + (i + 1) + (a - (dest + (i + 1))) = src + i + (a - (dest + i))" if "dest + i < a"
        using that by simp
      moreover have "src + i + (a - (dest + i)) \<noteq> dest + i" if "dest + i \<le> a" "a < dest + j + 1"
        using that 2(7) by auto
      ultimately show "copied ?m (dest + (i + 1)) (src + (i + 1)) (j + 1 - (i + 1)) a =
          copied m (dest + i) (src + i) (j + 1 - i) a"
        using 2(2) False by (auto simp: copied_def not_less_eq_eq)
    qed
    moreover have "copystr_loop rd wr dest src (i + 1) k ?m =
        (Got (j + 1), copied ?m (dest + (i + 1)) (src + (i + 1)) (j + 1 - (i + 1)))"
      using 2 False same acc nz by (intro 2(1)) (auto simp: Let_def)
    ultimately show ?thesis
      using acc nz same [of i] 2(2) by (simp add: Let_def del: fun_upd_apply)
  qed
qed simp

lemma copystr_loop_long:
  assumes "\<forall>l. i \<le> l \<and> l < i + k \<longrightarrow> m (src + l) \<noteq> 0 \<and> rd (src + l) \<and> wr (dest + l)"
    and "src + i + k \<le> dest \<or> dest + i + k \<le> src"
  shows "fst (copystr_loop rd wr dest src i k m) = Ran_out"
  using assms
proof (induction rd wr dest src i k m rule: copystr_loop.induct)
  case (2 rd wr dest src i k m)
  let ?m = "m(dest + i := m (src + i))"
  have same: "?m (src + l) = m (src + l)" if "i \<le> l" "l < i + Suc k" for l using 2(3) that by auto
  have acc: "rd (src + i) \<and> wr (dest + i)" "m (src + i) \<noteq> 0" using 2(2) by auto
  have "fst (copystr_loop rd wr dest src (i + 1) k ?m) = Ran_out"
    using 2 acc same by (intro 2(1)) (auto simp: Let_def)
  then show ?case using acc same [of i] by (simp add: Let_def del: fun_upd_apply)
qed simp

lemma copystr_loop_fault:
  assumes "i \<le> j" "j < i + k" "\<not> (rd (src + j) \<and> wr (dest + j))" "\<forall>l. i \<le> l \<and> l < j \<longrightarrow> m (src + l) \<noteq> 0"
    and "src + i + k \<le> dest \<or> dest + i + k \<le> src"
  shows "fst (copystr_loop rd wr dest src i k m) = Fault"
  using assms
proof (induction rd wr dest src i k m rule: copystr_loop.induct)
  case (2 rd wr dest src i k m)
  let ?m = "m(dest + i := m (src + i))"
  have same: "?m (src + l) = m (src + l)" if "i \<le> l" "l < i + Suc k" for l using 2(6) that by auto
  show ?case
  proof (cases "rd (src + i) \<and> wr (dest + i)")
    case True
    with 2(4) have "i \<noteq> j" by auto
    then have nz: "m (src + i) \<noteq> 0" using 2(2,5) by auto
    have "fst (copystr_loop rd wr dest src (i + 1) k ?m) = Fault"
      using 2 True nz same \<open>i \<noteq> j\<close> by (intro 2(1)) (auto simp: Let_def)
    then show ?thesis using True nz same [of i] by (simp add: Let_def del: fun_upd_apply)
  qed auto
qed simp

lemma copyinstr_eq:
  assumes "usersrc < USERSPACETOP" "0 < len" "usersrc + len \<le> 2 ^ 32" "len < 2 ^ 32"
    and "copystr_loop rd (\<lambda>_. True) dest usersrc 0 (min len (USERSPACETOP - usersrc)) (mem s) = (r, m')"
  shows "copyinstr rd usersrc dest len s = Some
    (case r of Got n \<Rightarrow> Inr n | Fault \<Rightarrow> Inl EFAULT
     | Ran_out \<Rightarrow> Inl (if USERSPACETOP - usersrc < len then EFAULT else ENAMETOOLONG),
     s\<lparr>mem := m', badfaultfunc := False\<rparr>)"
proof -
  let ?stop = "if usersrc + len > USERSPACETOP then USERSPACETOP - usersrc else len"
  have c: "copycheck usersrc len = Inr ?stop" using assms by (auto simp: copycheck_eq)
  have "min len ?stop = min len (USERSPACETOP - usersrc)" "?stop < len \<longleftrightarrow> USERSPACETOP - usersrc < len"
    using assms by auto
  then show ?thesis using assms(5)
    by (auto simp: copyinstr_def c copystr_def split: copystr_result.split)
qed

section \<open>Properties\<close>

text \<open>
  C27: \<open>copyin\<close> to a kernel buffer succeeds exactly when the range is not empty, lies in user
  space and is readable; then the buffer holds the user's bytes. In every other case it
  returns \<open>EFAULT\<close>. It never stops the kernel, writes nothing but the buffer, and leaves
  \<open>tm_badfaultfunc\<close> cleared.
\<close>

theorem copyin_correct:
  assumes "usersrc < 2 ^ 32" "len < 2 ^ 32" "USERSPACETOP \<le> dest" "\<not> badfaultfunc s"
  shows "\<exists>r s'. copyin rd usersrc dest len s = Some (r, s') \<and> \<not> badfaultfunc s' \<and>
      (\<forall>a. a < dest \<or> dest + len \<le> a \<longrightarrow> mem s' a = mem s a) \<and>
      (if 0 < len \<and> usersrc + len \<le> USERSPACETOP \<and> (\<forall>i<len. rd (usersrc + i))
       then r = Inr () \<and> (\<forall>i<len. mem s' (dest + i) = mem s (usersrc + i))
       else r = Inl EFAULT)"
proof -
  obtain r m' where c: "copyin rd usersrc dest len s = Some (r, s\<lparr>mem := m', badfaultfunc :=
        (if user_range usersrc len then False else badfaultfunc s)\<rparr>)"
    "\<forall>a. a < dest \<or> dest + len \<le> a \<longrightarrow> m' a = mem s a"
    "if user_range usersrc len \<and> (\<forall>i<len. rd (usersrc + i))
       then r = Inr () \<and> m' = copied (mem s) dest usersrc len else r = Inl EFAULT"
    using copyin_cases [OF assms(1-3), of rd s] by blast
  then show ?thesis using assms(4)
    by (intro exI [of _ r] exI [of _ "s\<lparr>mem := m', badfaultfunc := False\<rparr>"])
      (auto simp: user_range_def copied_def split: if_splits)
qed

theorem copyin_correct_witness:
  "\<exists>r s'. copyin (\<lambda>_. True) 100 0x80001000 4 \<lparr>mem = (\<lambda>a. of_nat a), badfaultfunc = False\<rparr> = Some (r, s') \<and>
     r = Inr () \<and> (\<forall>i<4. mem s' (0x80001000 + i) = of_nat (100 + i))"
  using copyin_correct [of 100 4 "0x80001000" "\<lparr>mem = (\<lambda>a. of_nat a), badfaultfunc = False\<rparr>" "\<lambda>_. True"]
  by auto

text \<open>
  C28: \<open>copyout\<close> can never be made to write kernel memory or a page the user may not write,
  whatever address and length a process passes: only writable user addresses inside the given
  range change. It succeeds exactly when the range is not empty, lies in user space and is
  writable, and then the range holds the kernel's bytes; otherwise it returns \<open>EFAULT\<close>.
\<close>

theorem copyout_safe:
  assumes "userdest < 2 ^ 32" "len < 2 ^ 32" "USERSPACETOP \<le> src" "\<not> badfaultfunc s"
  shows "\<exists>r s'. copyout wr src userdest len s = Some (r, s') \<and> \<not> badfaultfunc s' \<and>
      (\<forall>a. a \<ge> USERSPACETOP \<or> \<not> wr a \<or> a < userdest \<or> userdest + len \<le> a \<longrightarrow> mem s' a = mem s a) \<and>
      (if 0 < len \<and> userdest + len \<le> USERSPACETOP \<and> (\<forall>i<len. wr (userdest + i))
       then r = Inr () \<and> (\<forall>i<len. mem s' (userdest + i) = mem s (src + i))
       else r = Inl EFAULT)"
proof -
  obtain r m' where c: "copyout wr src userdest len s = Some (r, s\<lparr>mem := m', badfaultfunc :=
        (if user_range userdest len then False else badfaultfunc s)\<rparr>)"
    "\<forall>a. \<not> (wr a \<and> a < USERSPACETOP \<and> userdest \<le> a \<and> a < userdest + len) \<longrightarrow> m' a = mem s a"
    "if user_range userdest len \<and> (\<forall>i<len. wr (userdest + i))
       then r = Inr () \<and> m' = copied (mem s) userdest src len else r = Inl EFAULT"
    using copyout_cases [OF assms(1-3), of wr s] by blast
  then show ?thesis using assms(4)
    by (intro exI [of _ r] exI [of _ "s\<lparr>mem := m', badfaultfunc := False\<rparr>"])
      (auto simp: user_range_def copied_def split: if_splits)
qed

theorem copyout_safe_witness:
  "\<exists>r s'. copyout (\<lambda>_. True) 0x80001000 0x7ffffffe 4 \<lparr>mem = (\<lambda>a. of_nat a), badfaultfunc = False\<rparr> = Some (r, s') \<and>
     r = Inl EFAULT \<and> mem s' 0x80000000 = of_nat 0x80000000"
  using copyout_safe [of "0x7ffffffe" 4 "0x80001000" "\<lparr>mem = (\<lambda>a. of_nat a), badfaultfunc = False\<rparr>" "\<lambda>_. True"]
  by auto

text \<open>
  C29: \<open>copyinstr\<close> on a string in user memory. If the terminator is within the length limit and
  below the top of user space, and everything up to it is readable, the string and its
  terminator are copied and the length counts the terminator. If there is none within the
  limit the result is \<open>ENAMETOOLONG\<close>, or \<open>EFAULT\<close> when the top of user space comes first. If an
  unreadable byte comes first the result is \<open>EFAULT\<close>. Only the buffer is written.
\<close>

theorem copyinstr_correct:
  assumes "usersrc < USERSPACETOP" "0 < len" "usersrc + len \<le> 2 ^ 32" "len < 2 ^ 32" "USERSPACETOP \<le> dest"
  defines "avail \<equiv> min len (USERSPACETOP - usersrc)"
  shows "(\<forall>n. n < avail \<and> mem s (usersrc + n) = 0 \<and> (\<forall>i<n. mem s (usersrc + i) \<noteq> 0) \<and> (\<forall>i\<le>n. rd (usersrc + i)) \<longrightarrow>
       (\<exists>s'. copyinstr rd usersrc dest len s = Some (Inr (n + 1), s') \<and>
          (\<forall>i\<le>n. mem s' (dest + i) = mem s (usersrc + i)))) \<and>
    ((\<forall>i<avail. mem s (usersrc + i) \<noteq> 0 \<and> rd (usersrc + i)) \<longrightarrow>
       (\<exists>s'. copyinstr rd usersrc dest len s =
          Some (Inl (if USERSPACETOP - usersrc < len then EFAULT else ENAMETOOLONG), s'))) \<and>
    (\<forall>n. n < avail \<and> \<not> rd (usersrc + n) \<and> (\<forall>i<n. mem s (usersrc + i) \<noteq> 0) \<longrightarrow>
       (\<exists>s'. copyinstr rd usersrc dest len s = Some (Inl EFAULT, s'))) \<and>
    (\<exists>r s'. copyinstr rd usersrc dest len s = Some (r, s') \<and> \<not> badfaultfunc s' \<and>
       (\<forall>a. a < dest \<or> dest + len \<le> a \<longrightarrow> mem s' a = mem s a))"
proof -
  obtain r m' where l: "copystr_loop rd (\<lambda>_. True) dest usersrc 0 avail (mem s) = (r, m')" by fastforce
  note eq = copyinstr_eq [OF assms(1-4) l [unfolded avail_def]]
  have dis: "usersrc + avail \<le> dest" using assms by (simp add: avail_def)
  show ?thesis
  proof (intro conjI allI impI)
    fix n assume n: "n < avail \<and> mem s (usersrc + n) = 0 \<and> (\<forall>i<n. mem s (usersrc + i) \<noteq> 0) \<and> (\<forall>i\<le>n. rd (usersrc + i))"
    then have "r = Got (n + 1)" "m' = copied (mem s) dest usersrc (n + 1)"
      using copystr_loop_got [of 0 n avail "mem s" usersrc rd "\<lambda>_. True" dest] dis l by auto
    then show "\<exists>s'. copyinstr rd usersrc dest len s = Some (Inr (n + 1), s') \<and>
          (\<forall>i\<le>n. mem s' (dest + i) = mem s (usersrc + i))"
      using eq by (simp add: copied_def)
  next
    assume "\<forall>i<avail. mem s (usersrc + i) \<noteq> 0 \<and> rd (usersrc + i)"
    then have "r = Ran_out"
      using copystr_loop_long [of 0 avail "mem s" usersrc rd "\<lambda>_. True" dest] dis l by auto
    then show "\<exists>s'. copyinstr rd usersrc dest len s =
          Some (Inl (if USERSPACETOP - usersrc < len then EFAULT else ENAMETOOLONG), s')"
      using eq by simp
  next
    fix n assume "n < avail \<and> \<not> rd (usersrc + n) \<and> (\<forall>i<n. mem s (usersrc + i) \<noteq> 0)"
    then have "r = Fault"
      using copystr_loop_fault [of 0 n avail rd usersrc "\<lambda>_. True" dest "mem s"] dis l by auto
    then show "\<exists>s'. copyinstr rd usersrc dest len s = Some (Inl EFAULT, s')" using eq by simp
  next
    show "\<exists>r s'. copyinstr rd usersrc dest len s = Some (r, s') \<and> \<not> badfaultfunc s' \<and>
       (\<forall>a. a < dest \<or> dest + len \<le> a \<longrightarrow> mem s' a = mem s a)"
      using eq copystr_loop_frame [OF l] by (auto simp: avail_def)
  qed
qed

theorem copyinstr_correct_witness:
  "\<exists>s'. copyinstr (\<lambda>_. True) 100 0x80001000 16
       \<lparr>mem = (\<lambda>a. if a = 103 then 0 else 65), badfaultfunc = False\<rparr> = Some (Inr (3 + 1), s') \<and>
     (\<forall>i\<le>3. mem s' (0x80001000 + i) = (if i = 3 then 0 else 65))"
proof -
  let ?s = "\<lparr>mem = (\<lambda>a. if a = 103 then 0 else 65), badfaultfunc = False\<rparr> :: machine"
  have "\<exists>s'. copyinstr (\<lambda>_. True) 100 0x80001000 16 ?s = Some (Inr (3 + 1), s') \<and>
     (\<forall>i\<le>3. mem s' (0x80001000 + i) = mem ?s (100 + i))"
    by (rule copyinstr_correct [of 100 16 "0x80001000" ?s "\<lambda>_. True",
          THEN conjunct1, THEN spec [of _ 3], THEN mp]) simp_all
  then show ?thesis by simp
qed

end
