(* ===== verification/Kern_Proc.thy ===== *)
theory Kern_Proc
  imports Os_Prelude
begin

text \<open>
  Procedures of the kernel that change state, return an error code or a value, and may stop
  the kernel. \<open>bindP m f\<close> is the idiom
  \<open>result = m(); if (result) return result; f(...)\<close> of the sources; \<open>tryP\<close> hands the result
  code on without returning. \<open>wp m Q s\<close> says that \<open>m\<close> returns from state \<open>s\<close>, in particular
  that no assertion fails, with a result and a state that satisfy \<open>Q\<close>. The rules in
  \<open>wp_simps\<close> compute it along the structure of a procedure.
\<close>

type_synonym ('s, 'a) proc = "'s \<Rightarrow> ((errno + 'a) \<times> 's) option"

section \<open>Combinators\<close>

definition retP :: "'a \<Rightarrow> ('s, 'a) proc" where
  "retP x = (\<lambda>s. Some (Inr x, s))"

definition throwP :: "errno \<Rightarrow> ('s, 'a) proc" where
  "throwP e = (\<lambda>s. Some (Inl e, s))"

definition panicP :: "('s, 'a) proc" where
  "panicP = (\<lambda>s. None)"

definition bindP :: "('s, 'a) proc \<Rightarrow> ('a \<Rightarrow> ('s, 'b) proc) \<Rightarrow> ('s, 'b) proc" where
  "bindP m f = (\<lambda>s. case m s of
     None \<Rightarrow> None
   | Some (Inl e, s) \<Rightarrow> Some (Inl e, s)
   | Some (Inr x, s) \<Rightarrow> f x s)"

definition tryP :: "('s, 'a) proc \<Rightarrow> (errno + 'a \<Rightarrow> ('s, 'b) proc) \<Rightarrow> ('s, 'b) proc" where
  "tryP m f = (\<lambda>s. case m s of None \<Rightarrow> None | Some (r, s) \<Rightarrow> f r s)"

definition getP :: "('s \<Rightarrow> 'a) \<Rightarrow> ('s, 'a) proc" where
  "getP f = (\<lambda>s. Some (Inr (f s), s))"

definition modP :: "('s \<Rightarrow> 's) \<Rightarrow> ('s, unit) proc" where
  "modP f = (\<lambda>s. Some (Inr (), f s))"

definition assertP :: "bool \<Rightarrow> ('s, unit) proc" where
  "assertP b = (if b then retP () else panicP)"

text \<open>A pure step that may stop the kernel, such as reading an array.\<close>

definition optP :: "'a option \<Rightarrow> ('s, 'a) proc" where
  "optP x = (case x of None \<Rightarrow> panicP | Some x \<Rightarrow> retP x)"

text \<open>\<open>for (i = a; i < b; i++) body(i)\<close> with the error return inside the body.\<close>

fun forP :: "nat list \<Rightarrow> (nat \<Rightarrow> ('s, unit) proc) \<Rightarrow> ('s, unit) proc" where
  "forP [] body = retP ()"
| "forP (i # is) body = bindP (body i) (\<lambda>_. forP is body)"

text \<open>
  \<open>zoomP\<close> runs a procedure on a part of the state. \<open>localP u m\<close> runs a procedure that also
  uses a local object, starting from \<open>u\<close>, and returns the object with the value.
\<close>

definition zoomP :: "('s \<Rightarrow> 't) \<Rightarrow> ('t \<Rightarrow> 's \<Rightarrow> 's) \<Rightarrow> ('t, 'a) proc \<Rightarrow> ('s, 'a) proc" where
  "zoomP get put m = (\<lambda>s. case m (get s) of None \<Rightarrow> None | Some (r, t) \<Rightarrow> Some (r, put t s))"

definition sndP :: "('s, 'a) proc \<Rightarrow> ('u \<times> 's, 'a) proc" where
  "sndP m = zoomP snd (\<lambda>t us. (fst us, t)) m"

definition localP :: "'u \<Rightarrow> ('u \<times> 's, 'a) proc \<Rightarrow> ('s, 'a \<times> 'u) proc" where
  "localP u m = (\<lambda>s. case m (u, s) of
     None \<Rightarrow> None
   | Some (r, u', s') \<Rightarrow> Some (case r of Inl e \<Rightarrow> Inl e | Inr x \<Rightarrow> Inr (x, u'), s'))"

section \<open>Weakest preconditions\<close>

definition wp :: "('s, 'a) proc \<Rightarrow> (errno + 'a \<Rightarrow> 's \<Rightarrow> bool) \<Rightarrow> 's \<Rightarrow> bool" where
  "wp m Q s \<longleftrightarrow> (\<exists>r s'. m s = Some (r, s') \<and> Q r s')"

named_theorems wp_simps \<open>weakest preconditions of the procedure combinators\<close>

lemma wp_ret [wp_simps]: "wp (retP x) Q s \<longleftrightarrow> Q (Inr x) s"
  by (simp add: wp_def retP_def)

lemma wp_throw [wp_simps]: "wp (throwP e) Q s \<longleftrightarrow> Q (Inl e) s"
  by (simp add: wp_def throwP_def)

lemma wp_panic [wp_simps]: "\<not> wp panicP Q s"
  by (simp add: wp_def panicP_def)

lemma wp_get [wp_simps]: "wp (getP f) Q s \<longleftrightarrow> Q (Inr (f s)) s"
  by (simp add: wp_def getP_def)

lemma wp_mod [wp_simps]: "wp (modP f) Q s \<longleftrightarrow> Q (Inr ()) (f s)"
  by (simp add: wp_def modP_def)

lemma wp_assert [wp_simps]: "wp (assertP b) Q s \<longleftrightarrow> b \<and> Q (Inr ()) s"
  by (simp add: assertP_def wp_simps)

lemma wp_opt [wp_simps]: "wp (optP x) Q s \<longleftrightarrow> (\<exists>y. x = Some y \<and> Q (Inr y) s)"
  by (cases x) (simp_all add: optP_def wp_simps)

lemma wp_bind [wp_simps]:
  "wp (bindP m f) Q s \<longleftrightarrow> wp m (\<lambda>r s. case r of Inl e \<Rightarrow> Q (Inl e) s | Inr x \<Rightarrow> wp (f x) Q s) s"
  by (auto simp: wp_def bindP_def split: option.splits sum.splits prod.splits)

lemma wp_try [wp_simps]: "wp (tryP m f) Q s \<longleftrightarrow> wp m (\<lambda>r s. wp (f r) Q s) s"
  by (auto simp: wp_def tryP_def split: option.splits prod.splits)

lemma wp_if [wp_simps]: "wp (if b then m else m') Q s \<longleftrightarrow> (if b then wp m Q s else wp m' Q s)"
  by simp

lemma wp_case_option [wp_simps]:
  "wp (case x of None \<Rightarrow> m | Some y \<Rightarrow> f y) Q s \<longleftrightarrow>
     (case x of None \<Rightarrow> wp m Q s | Some y \<Rightarrow> wp (f y) Q s)"
  by (cases x) simp_all

lemma wp_case_sum [wp_simps]:
  "wp (case x of Inl e \<Rightarrow> f e | Inr y \<Rightarrow> g y) Q s \<longleftrightarrow>
     (case x of Inl e \<Rightarrow> wp (f e) Q s | Inr y \<Rightarrow> wp (g y) Q s)"
  by (cases x) simp_all

lemma wp_case_prod [wp_simps]:
  "wp (case x of (a, b) \<Rightarrow> f a b) Q s \<longleftrightarrow> (case x of (a, b) \<Rightarrow> wp (f a b) Q s)"
  by (cases x) simp_all

lemma wp_Let [wp_simps]: "wp (let x = e in f x) Q s \<longleftrightarrow> (let x = e in wp (f x) Q s)"
  by (simp add: Let_def)

lemma wp_zoom [wp_simps]: "wp (zoomP get put m) Q s \<longleftrightarrow> wp m (\<lambda>r t. Q r (put t s)) (get s)"
  by (auto simp: wp_def zoomP_def split: option.splits)

lemma wp_snd [wp_simps]: "wp (sndP m) Q us \<longleftrightarrow> wp m (\<lambda>r s. Q r (fst us, s)) (snd us)"
  by (simp add: sndP_def wp_simps)

lemma wp_local [wp_simps]:
  "wp (localP u m) Q s \<longleftrightarrow>
     wp m (\<lambda>r us. Q (case r of Inl e \<Rightarrow> Inl e | Inr x \<Rightarrow> Inr (x, fst us)) (snd us)) (u, s)"
  by (auto simp: wp_def localP_def split: option.splits prod.splits cong: sum.case_cong)

text \<open>Consequence, and reading off a call's result.\<close>

lemma wp_mono: "wp m P s \<Longrightarrow> (\<And>r s'. P r s' \<Longrightarrow> Q r s') \<Longrightarrow> wp m Q s"
  by (auto simp: wp_def)

lemma wp_conj: "wp m P s \<Longrightarrow> wp m Q s \<Longrightarrow> wp m (\<lambda>r s. P r s \<and> Q r s) s"
  by (auto simp: wp_def)

lemma wpD: "wp m Q s \<Longrightarrow> m s = Some (r, s') \<Longrightarrow> Q r s'"
  by (simp add: wp_def)

lemma wpE: "wp m Q s \<Longrightarrow> (\<And>r s'. m s = Some (r, s') \<Longrightarrow> Q r s' \<Longrightarrow> P) \<Longrightarrow> P"
  by (auto simp: wp_def)

lemma wp_returns: "wp m Q s \<Longrightarrow> \<exists>r s'. m s = Some (r, s')"
  by (auto simp: wp_def)

text \<open>Calling a procedure with a known specification.\<close>

lemma wp_call:
  assumes "wp m P s" "\<And>e s'. P (Inl e) s' \<Longrightarrow> Q (Inl e) s'" "\<And>x s'. P (Inr x) s' \<Longrightarrow> wp (f x) Q s'"
  shows "wp (bindP m f) Q s"
  unfolding wp_bind by (rule wp_mono [OF assms(1)]) (auto intro: assms(2,3) split: sum.split)

lemma wp_call_try:
  assumes "wp m P s" "\<And>r s'. P r s' \<Longrightarrow> wp (f r) Q s'"
  shows "wp (tryP m f) Q s"
  unfolding wp_try by (rule wp_mono [OF assms(1)]) (rule assms(2))

text \<open>A loop keeps an invariant indexed by the rounds already done.\<close>

lemma wp_for:
  assumes "I [] s"
    and "\<And>pre i rest s. is = pre @ i # rest \<Longrightarrow> I pre s \<Longrightarrow>
      wp (body i) (\<lambda>r s. case r of Inl e \<Rightarrow> E e s | Inr _ \<Rightarrow> I (pre @ [i]) s) s"
  shows "wp (forP is body) (\<lambda>r s. case r of Inl e \<Rightarrow> E e s | Inr _ \<Rightarrow> I is s) s"
proof -
  have "wp (forP rest body) (\<lambda>r s. case r of Inl e \<Rightarrow> E e s | Inr _ \<Rightarrow> I (pre @ rest) s) s"
    if "is = pre @ rest" "I pre s" for pre rest s
    using that
  proof (induction rest arbitrary: pre s)
    case Nil
    then show ?case by (simp add: wp_simps)
  next
    case (Cons i rest)
    have "wp (body i) (\<lambda>r s. case r of Inl e \<Rightarrow> E e s | Inr _ \<Rightarrow> I (pre @ [i]) s) s"
      by (rule assms(2) [OF Cons.prems])
    moreover have "wp (forP rest body) (\<lambda>r s. case r of Inl e \<Rightarrow> E e s | Inr _ \<Rightarrow> I (pre @ i # rest) s) s'"
      if "I (pre @ [i]) s'" for s'
      using Cons.IH [of "pre @ [i]" s'] Cons.prems(1) that by (simp cong: sum.case_cong)
    ultimately show ?case
      unfolding forP.simps wp_bind
    proof (elim wp_mono)
      fix r s' assume "case r of Inl e \<Rightarrow> E e s' | Inr _ \<Rightarrow> I (pre @ [i]) s'"
      then show "case r of Inl e \<Rightarrow> (case Inl e of Inl e \<Rightarrow> E e s' | Inr _ \<Rightarrow> I (pre @ i # rest) s')
          | Inr _ \<Rightarrow> wp (forP rest body) (\<lambda>r s. case r of Inl e \<Rightarrow> E e s | Inr _ \<Rightarrow> I (pre @ i # rest) s) s'"
        using \<open>\<And>s'. I (pre @ [i]) s' \<Longrightarrow> wp (forP rest body) (\<lambda>r s. case r of Inl e \<Rightarrow> E e s | Inr _ \<Rightarrow> I (pre @ i # rest) s) s'\<close>
        by (cases r) auto
    qed
  qed
  from this [of "[]" "is" s] assms(1) show ?thesis by (simp cong: sum.case_cong)
qed

end
