(* ===== verification/Uio.thy ===== *)
theory Uio
  imports Copyinout Kern_Proc
begin

text \<open>
  The I/O descriptors of \<open>kern/lib/uio.c\<close>: \<open>uiomove\<close> moves bytes between a kernel buffer and
  the scattered buffers of a \<open>uio\<close>, in kernel or in user memory. \<open>iov_addrs\<close> lists the
  addresses a \<open>uio\<close> still refers to, in order; the transfers are specified against that list.
\<close>

record iovec =
  iov_base :: addr
  iov_len :: nat

datatype uio_rw = UIO_READ | UIO_WRITE
datatype uio_seg = UIO_USERISPACE | UIO_USERSPACE | UIO_SYSSPACE

record uio =
  uio_iov :: "iovec list"
  uio_iovcnt :: nat
  uio_offset :: int
  uio_resid :: nat
  uio_segflg :: uio_seg
  uio_rw :: uio_rw
  uio_space :: "nat option"

section \<open>Operations\<close>

text \<open>The \<open>switch\<close> on \<open>uio_segflg\<close>: one transfer of \<open>sz\<close> bytes; \<open>copied\<close> is \<open>memmove\<close>.\<close>

definition uio_switch ::
  "(addr \<Rightarrow> bool) \<Rightarrow> (addr \<Rightarrow> bool) \<Rightarrow> uio \<Rightarrow> addr \<Rightarrow> addr \<Rightarrow> nat \<Rightarrow> machine \<Rightarrow>
     ((errno + unit) \<times> machine) option" where
  "uio_switch rd wr u ptr base sz s =
     (case uio_segflg u of
        UIO_SYSSPACE \<Rightarrow>
          (case uio_rw u of
             UIO_READ \<Rightarrow> Some (Inr (), s\<lparr>mem := copied (mem s) base ptr sz\<rparr>)
           | UIO_WRITE \<Rightarrow> Some (Inr (), s\<lparr>mem := copied (mem s) ptr base sz\<rparr>))
      | _ \<Rightarrow>
          (case uio_rw u of
             UIO_READ \<Rightarrow> copyout wr ptr base sz s
           | UIO_WRITE \<Rightarrow> copyin rd base ptr sz s))"

function uiomove_loop ::
  "(addr \<Rightarrow> bool) \<Rightarrow> (addr \<Rightarrow> bool) \<Rightarrow> addr \<Rightarrow> nat \<Rightarrow> uio \<Rightarrow> machine \<Rightarrow>
     ((errno + unit) \<times> uio \<times> machine) option" where
  "uiomove_loop rd wr ptr n u s =
     (if n > 0 \<and> uio_resid u > 0 then
        (case uio_iov u of
           [] \<Rightarrow> None
         | iov # rest \<Rightarrow>
             let sz = (if iov_len iov > n then n else iov_len iov) in
             if sz = 0 then
               let u = u\<lparr>uio_iov := rest, uio_iovcnt := wrap32 (uio_iovcnt u + 2 ^ 32 - 1)\<rparr> in
               if uio_iovcnt u = 0 then None else uiomove_loop rd wr ptr n u s
             else
               (case uio_switch rd wr u ptr (iov_base iov) sz s of
                  None \<Rightarrow> None
                | Some (Inl e, s) \<Rightarrow> Some (Inl e, u, s)
                | Some (Inr _, s) \<Rightarrow>
                    let iov = iov\<lparr>iov_base := iov_base iov + sz, iov_len := iov_len iov - sz\<rparr>;
                        u = u\<lparr>uio_iov := iov # rest,
                              uio_resid := wrap32 (uio_resid u + 2 ^ 32 - sz),
                              uio_offset := uio_offset u + int sz\<rparr>
                    in uiomove_loop rd wr (ptr + sz) (n - sz) u s))
      else Some (Inr (), u, s))"
  by pat_completeness auto
termination
  by (relation "measure (\<lambda>(rd, wr, ptr, n, u, s). n + length (uio_iov u))") auto

declare uiomove_loop.simps [simp del]

definition uiomove ::
  "(addr \<Rightarrow> bool) \<Rightarrow> (addr \<Rightarrow> bool) \<Rightarrow> nat option \<Rightarrow> addr \<Rightarrow> nat \<Rightarrow> uio \<Rightarrow> machine \<Rightarrow>
     ((errno + unit) \<times> uio \<times> machine) option" where
  "uiomove rd wr t_addrspace ptr n u s = do {
     kassert (if uio_segflg u = UIO_SYSSPACE then uio_space u = None else uio_space u = t_addrspace);
     uiomove_loop rd wr ptr n u s
   }"

text \<open>\<open>zeros\<close> is the address of the static array of sixteen zero bytes.\<close>

function uiomovezeros_loop ::
  "(addr \<Rightarrow> bool) \<Rightarrow> (addr \<Rightarrow> bool) \<Rightarrow> nat option \<Rightarrow> addr \<Rightarrow> nat \<Rightarrow> uio \<Rightarrow> machine \<Rightarrow>
     ((errno + unit) \<times> uio \<times> machine) option" where
  "uiomovezeros_loop rd wr t_addrspace zeros n u s =
     (if n > 0 then
        let amt = (if 16 > n then n else 16) in
        (case uiomove rd wr t_addrspace zeros amt u s of
           None \<Rightarrow> None
         | Some (Inl e, u, s) \<Rightarrow> Some (Inl e, u, s)
         | Some (Inr _, u, s) \<Rightarrow> uiomovezeros_loop rd wr t_addrspace zeros (n - amt) u s)
      else Some (Inr (), u, s))"
  by pat_completeness auto
termination
  by (relation "measure (\<lambda>(rd, wr, cur, zeros, n, u, s). n)") auto

declare uiomovezeros_loop.simps [simp del]

definition uiomovezeros ::
  "(addr \<Rightarrow> bool) \<Rightarrow> (addr \<Rightarrow> bool) \<Rightarrow> nat option \<Rightarrow> addr \<Rightarrow> nat \<Rightarrow> uio \<Rightarrow> machine \<Rightarrow>
     ((errno + unit) \<times> uio \<times> machine) option" where
  "uiomovezeros rd wr t_addrspace zeros n u s = do {
     kassert (uio_rw u = UIO_READ);
     uiomovezeros_loop rd wr t_addrspace zeros n u s
   }"

definition uio_kinit :: "addr \<Rightarrow> nat \<Rightarrow> int \<Rightarrow> uio_rw \<Rightarrow> uio" where
  "uio_kinit kbuf len pos rw =
     \<lparr>uio_iov = [\<lparr>iov_base = kbuf, iov_len = len\<rparr>], uio_iovcnt = 1, uio_offset = pos,
      uio_resid = len, uio_segflg = UIO_SYSSPACE, uio_rw = rw, uio_space = None\<rparr>"

section \<open>Specification\<close>

definition iov_addrs :: "iovec list \<Rightarrow> addr list" where
  "iov_addrs iovs = concat (map (\<lambda>iov. [iov_base iov..<iov_base iov + iov_len iov]) iovs)"

lemma iov_addrs_simps [simp]:
  "iov_addrs [] = []"
  "iov_addrs (iov # iovs) = [iov_base iov..<iov_base iov + iov_len iov] @ iov_addrs iovs"
  by (simp_all add: iov_addrs_def)

lemma length_iov_addrs: "length (iov_addrs iovs) = sum_list (map iov_len iovs)"
  by (induction iovs) simp_all

text \<open>
  A descriptor set up as \<open>uio.h\<close> asks: the residual count is within the total length of the
  buffers, the buffers do not overlap, they start at an address of the machine, and kernel buffers end
  at one.
\<close>

definition uio_ok :: "uio \<Rightarrow> bool" where
  "uio_ok u \<longleftrightarrow> uio_iovcnt u = length (uio_iov u) \<and> uio_iov u \<noteq> [] \<and> uio_iovcnt u < 2 ^ 32 \<and>
     uio_resid u \<le> length (iov_addrs (uio_iov u)) \<and> length (iov_addrs (uio_iov u)) < 2 ^ 32 \<and>
     distinct (iov_addrs (uio_iov u)) \<and>
     (\<forall>iov\<in>set (uio_iov u). iov_len iov = 0 \<or> iov_base iov < 2 ^ 32 \<and>
        (uio_segflg u = UIO_SYSSPACE \<longrightarrow> iov_base iov + iov_len iov \<le> 2 ^ 32))"

text \<open>
  A request stays within the residual count, or the count is the whole length. (A request
  beyond a count that is smaller than the buffers would make the count wrap around.)
\<close>

definition uio_covers :: "nat \<Rightarrow> uio \<Rightarrow> bool" where
  "uio_covers n u \<longleftrightarrow> n \<le> uio_resid u \<or> uio_resid u = length (iov_addrs (uio_iov u))"

definition accessible :: "(addr \<Rightarrow> bool) \<Rightarrow> (addr \<Rightarrow> bool) \<Rightarrow> uio \<Rightarrow> addr \<Rightarrow> bool" where
  "accessible rd wr u a \<longleftrightarrow> uio_segflg u = UIO_SYSSPACE \<or>
     a < USERSPACETOP \<and> (case uio_rw u of UIO_READ \<Rightarrow> wr a | UIO_WRITE \<Rightarrow> rd a)"

text \<open>The bytes have arrived: in the buffers of the descriptor, or in the kernel buffer.\<close>

definition moved :: "uio_rw \<Rightarrow> addr \<Rightarrow> addr list \<Rightarrow> memory \<Rightarrow> memory \<Rightarrow> bool" where
  "moved rw ptr as m m' \<longleftrightarrow>
     (case rw of
        UIO_READ \<Rightarrow> (\<forall>i<length as. m' (as ! i) = m (ptr + i)) \<and> (\<forall>a. a \<notin> set as \<longrightarrow> m' a = m a)
      | UIO_WRITE \<Rightarrow> (\<forall>i<length as. m' (ptr + i) = m (as ! i)) \<and>
          (\<forall>a. a < ptr \<or> ptr + length as \<le> a \<longrightarrow> m' a = m a))"

lemma moved_append:
  assumes "moved rw ptr as m m1" "moved rw (ptr + length as) bs m1 m2"
    and "set as \<inter> set bs = {}" "set (as @ bs) \<inter> {ptr..<ptr + length (as @ bs)} = {}"
  shows "moved rw ptr (as @ bs) m m2"
proof (cases rw)
  case UIO_READ
  have kernel: "m1 (ptr + i) = m (ptr + i)" if "i < length (as @ bs)" for i
  proof -
    have "ptr + i \<notin> set as" using assms(4) that by auto
    then show ?thesis using assms(1) UIO_READ by (simp add: moved_def)
  qed
  have "m2 ((as @ bs) ! i) = m (ptr + i)" if i: "i < length (as @ bs)" for i
  proof (cases "i < length as")
    case True
    then have "as ! i \<notin> set bs" using assms(3) nth_mem by blast
    then show ?thesis using True assms(1,2) UIO_READ by (simp add: moved_def nth_append)
  next
    case False
    then have "m2 (bs ! (i - length as)) = m1 (ptr + length as + (i - length as))"
      using i assms(2) UIO_READ by (simp add: moved_def)
    then show ?thesis using False kernel [OF i] by (simp add: nth_append)
  qed
  then show ?thesis using assms(1,2) UIO_READ by (simp add: moved_def)
next
  case UIO_WRITE
  have "m1 a = m a" if "a \<in> set bs" for a
  proof -
    have "a < ptr \<or> ptr + length as \<le> a" using assms(4) that by fastforce
    then show ?thesis using assms(1) UIO_WRITE by (auto simp: moved_def)
  qed
  moreover have "m2 (ptr + i) = m1 (ptr + i)" if "i < length as" for i
    using assms(2) UIO_WRITE that by (simp add: moved_def)
  moreover have "m2 (ptr + length as + j) = m1 (bs ! j)" if "j < length bs" for j
    using assms(2) UIO_WRITE that by (simp add: moved_def)
  ultimately have "m2 (ptr + i) = m ((as @ bs) ! i)" if "i < length (as @ bs)" for i
  proof (cases "i < length as")
    case False
    then obtain j where "i = length as + j" "j < length bs" using \<open>i < length (as @ bs)\<close> le_Suc_ex by force
    then show ?thesis
      using \<open>\<And>j. j < length bs \<Longrightarrow> m2 (ptr + length as + j) = m1 (bs ! j)\<close> [of j]
        \<open>\<And>a. a \<in> set bs \<Longrightarrow> m1 a = m a\<close> [of "bs ! j"] by (simp add: nth_append add.assoc)
  qed (use assms(1) UIO_WRITE in \<open>simp add: moved_def nth_append\<close>)
  moreover have "m2 a = m a" if "a < ptr \<or> ptr + length (as @ bs) \<le> a" for a
    using assms(1,2) UIO_WRITE that by (auto simp: moved_def)
  ultimately show ?thesis using UIO_WRITE by (simp add: moved_def)
qed

lemma copied_moved:
  "moved UIO_READ ptr [base..<base + n] m (copied m base ptr n)"
  "moved UIO_WRITE ptr [base..<base + n] m (copied m ptr base n)"
  by (auto simp: moved_def copied_def)

text \<open>One transfer, in kernel or in user memory.\<close>

lemma uio_switch_spec:
  assumes "0 < n" "n < 2 ^ 32" "base < 2 ^ 32" "USERSPACETOP \<le> ptr"
  shows "\<exists>r s'. uio_switch rd wr u ptr base n s = Some (r, s') \<and>
    (if \<forall>a\<in>set [base..<base + n]. accessible rd wr u a
     then r = Inr () \<and> moved (uio_rw u) ptr [base..<base + n] (mem s) (mem s') else r = Inl EFAULT)"
proof (cases "uio_segflg u = UIO_SYSSPACE")
  case True
  then show ?thesis
    by (cases "uio_rw u") (auto simp: uio_switch_def accessible_def copied_moved)
next
  case user: False
  have ur: "user_range base n \<longleftrightarrow> (\<forall>a\<in>set [base..<base + n]. a < USERSPACETOP)"
    using assms(1) by (auto simp: user_range_def dest: bspec [of _ _ "base + n - 1"])
  show ?thesis
  proof (cases "uio_rw u")
    case UIO_READ
    have "user_range base n \<and> (\<forall>i<n. wr (base + i)) \<longleftrightarrow>
        (\<forall>a\<in>set [base..<base + n]. accessible rd wr u a)"
      unfolding ur using user UIO_READ by (auto simp: accessible_def le_iff_add)
    moreover have "uio_switch rd wr u ptr base n s = copyout wr ptr base n s"
      using user UIO_READ by (cases "uio_segflg u") (auto simp: uio_switch_def)
    ultimately show ?thesis
      using copyout_cases [OF assms(3,2,4), of wr s] UIO_READ copied_moved(1) by (auto split: if_splits)
  next
    case UIO_WRITE
    have "user_range base n \<and> (\<forall>i<n. rd (base + i)) \<longleftrightarrow>
        (\<forall>a\<in>set [base..<base + n]. accessible rd wr u a)"
      unfolding ur using user UIO_WRITE by (auto simp: accessible_def le_iff_add)
    moreover have "uio_switch rd wr u ptr base n s = copyin rd base ptr n s"
      using user UIO_WRITE by (cases "uio_segflg u") (auto simp: uio_switch_def)
    ultimately show ?thesis
      using copyin_cases [OF assms(3,2,4), of rd s] UIO_WRITE copied_moved(2) by (auto split: if_splits)
  qed
qed

text \<open>The state of the descriptor after \<open>n\<close> bytes, or what is left, have been moved.\<close>

definition uio_after :: "nat \<Rightarrow> uio \<Rightarrow> uio \<Rightarrow> bool" where
  "uio_after n u u' \<longleftrightarrow> uio_ok u' \<and> iov_addrs (uio_iov u') = drop n (iov_addrs (uio_iov u)) \<and>
     uio_resid u' = uio_resid u - n \<and> uio_offset u' = uio_offset u + int (min n (uio_resid u)) \<and>
     uio_segflg u' = uio_segflg u \<and> uio_rw u' = uio_rw u \<and> uio_space u' = uio_space u"

lemma accessible_after: "uio_after n u u' \<Longrightarrow> accessible rd wr u' = accessible rd wr u"
  by (intro ext) (simp add: uio_after_def accessible_def)

lemma uio_after_add:
  assumes "uio_after k u u1" "uio_after n u1 u2"
  shows "uio_after (k + n) u u2"
  using assms by (auto simp: uio_after_def add.commute)

lemma uio_skip:
  assumes "uio_ok u" "uio_resid u > 0" "uio_iov u = iov # rest" "iov_len iov = 0"
  defines "u1 \<equiv> u\<lparr>uio_iov := rest, uio_iovcnt := wrap32 (uio_iovcnt u + 2 ^ 32 - 1)\<rparr>"
  shows "uio_iovcnt u1 \<noteq> 0" "uio_after 0 u u1"
proof -
  have "rest \<noteq> []" using assms by (auto simp: uio_ok_def)
  moreover have "(length rest + 4294967296) mod 4294967296 = length rest"
    using assms by (simp add: uio_ok_def)
  ultimately show "uio_iovcnt u1 \<noteq> 0" "uio_after 0 u u1"
    using assms by (auto simp: uio_after_def uio_ok_def u1_def add.commute)
qed

lemma uio_advance:
  assumes "uio_ok u" "uio_iov u = iov # rest" "0 < k" "k \<le> iov_len iov"
    "k \<le> uio_resid u" and "\<forall>a\<in>set [iov_base iov..<iov_base iov + k]. accessible rd wr u a"
  defines "u1 \<equiv> u\<lparr>uio_iov := iov\<lparr>iov_base := iov_base iov + k, iov_len := iov_len iov - k\<rparr> # rest,
      uio_resid := wrap32 (uio_resid u + 2 ^ 32 - k), uio_offset := uio_offset u + int k\<rparr>"
  shows "uio_after k u u1"
proof -
  have len: "k \<le> uio_resid u" "uio_resid u < 2 ^ 32" using assms(1,5) by (auto simp: uio_ok_def)
  then have "wrap32 (uio_resid u + 2 ^ 32 - k) = wrap32 (2 ^ 32 + (uio_resid u - k))"
    by (intro arg_cong [of _ _ wrap32]) arith
  also have "\<dots> = uio_resid u - k" using len by (simp only: mod_add_self1) simp
  finally have resid: "wrap32 (uio_resid u + 2 ^ 32 - k) = uio_resid u - k" .
  have "[iov_base iov..<iov_base iov + iov_len iov] =
      [iov_base iov..<iov_base iov + k] @ [iov_base iov + k..<iov_base iov + iov_len iov]"
    using assms(4) upt_add_eq_append [of "iov_base iov" "iov_base iov + k" "iov_len iov - k"] by simp
  then have addrs: "iov_addrs (uio_iov u) = [iov_base iov..<iov_base iov + k] @ iov_addrs (uio_iov u1)"
    using assms(2,4) by (simp add: u1_def)
  have dist: "distinct (iov_addrs (uio_iov u1))" using assms(1) addrs by (simp add: uio_ok_def)
  have "accessible rd wr u (iov_base iov + k - 1)" using assms(3,6) by (auto dest: bspec)
  then have "uio_segflg u = UIO_SYSSPACE \<or> iov_base iov + k < 2 ^ 32"
    using assms(3) by (auto simp: accessible_def)
  then show ?thesis
    using assms(1,2,4) resid addrs len(1) dist unfolding uio_after_def uio_ok_def
    by (auto simp: u1_def)
qed

text \<open>The outcome of moving \<open>n\<close> bytes, and how the outcomes of two moves combine.\<close>

definition move_result ::
  "(addr \<Rightarrow> bool) \<Rightarrow> (addr \<Rightarrow> bool) \<Rightarrow> addr \<Rightarrow> nat \<Rightarrow> uio \<Rightarrow> memory \<Rightarrow> errno + unit \<Rightarrow> uio \<Rightarrow> memory \<Rightarrow> bool" where
  "move_result rd wr ptr n u m r u' m' \<longleftrightarrow>
     (if \<forall>a\<in>set (take n (iov_addrs (uio_iov u))). accessible rd wr u a
      then r = Inr () \<and> uio_after n u u' \<and> moved (uio_rw u) ptr (take n (iov_addrs (uio_iov u))) m m'
      else r = Inl EFAULT)"

lemma move_result_trans:
  assumes ok: "uio_ok u" "set (iov_addrs (uio_iov u)) \<inter> {ptr..<ptr + n} = {}" "k \<le> n"
    and k: "uio_after k u u1" "\<forall>a\<in>set (take k (iov_addrs (uio_iov u))). accessible rd wr u a"
      "length (take k (iov_addrs (uio_iov u))) = k" "moved (uio_rw u) ptr (take k (iov_addrs (uio_iov u))) m m1"
    and r: "move_result rd wr (ptr + k) (n - k) u1 m1 r u' m'"
  shows "move_result rd wr ptr n u m r u' m'"
proof -
  let ?as = "iov_addrs (uio_iov u)"
  have drop: "iov_addrs (uio_iov u1) = drop k ?as" "uio_rw u1 = uio_rw u" using k(1) by (simp_all add: uio_after_def)
  have tk: "take n ?as = take k ?as @ take (n - k) (drop k ?as)" using take_add [of k "n - k" ?as] ok(3) by simp
  note r' = r [unfolded move_result_def drop accessible_after [OF k(1)]]
  show ?thesis
  proof (cases "\<forall>a\<in>set (take (n - k) (drop k ?as)). accessible rd wr u a")
    case True
    have "distinct (take n ?as)" using ok(1) by (simp add: uio_ok_def)
    then have "set (take k ?as) \<inter> set (take (n - k) (drop k ?as)) = {}" unfolding tk by (simp only: distinct_append)
    moreover have "{ptr..<ptr + length (take n ?as)} \<subseteq> {ptr..<ptr + n}" by auto
    then have "set (take n ?as) \<inter> {ptr..<ptr + length (take n ?as)} = {}" using ok(2) set_take_subset [of n ?as] by blast
    ultimately have "moved (uio_rw u) ptr (take n ?as) m m'"
      using moved_append [of "uio_rw u" ptr "take k ?as" m m1 "take (n - k) (drop k ?as)" m'] k(3,4) r' True unfolding tk by simp
    moreover have "uio_after n u u'" using uio_after_add [OF k(1), of "n - k" u'] r' True ok(3) by simp
    ultimately show ?thesis using k(2) r' True unfolding move_result_def tk by auto
  next
    case False
    then show ?thesis using r' unfolding move_result_def tk by auto
  qed
qed

text \<open>One round on a buffer that is not empty: a fault, or a move of the bytes of this buffer.\<close>

lemma uiomove_round:
  assumes ok: "uio_ok u" "n < 2 ^ 32" "USERSPACETOP \<le> ptr" "uio_covers n u"
    and iov: "n > 0" "uio_resid u > 0" "uio_iov u = iov # rest" "iov_len iov > 0"
  obtains (fault) s' where "uiomove_loop rd wr ptr n u s = Some (Inl EFAULT, u, s')"
      "\<not> (\<forall>a\<in>set (take n (iov_addrs (uio_iov u))). accessible rd wr u a)"
  | (move) k u1 s1 where "0 < k" "k \<le> n" "uiomove_loop rd wr ptr n u s = uiomove_loop rd wr (ptr + k) (n - k) u1 s1"
      "uio_after k u u1" "length (uio_iov u1) = length (uio_iov u)" "length (take k (iov_addrs (uio_iov u))) = k"
      "\<forall>a\<in>set (take k (iov_addrs (uio_iov u))). accessible rd wr u a"
      "moved (uio_rw u) ptr (take k (iov_addrs (uio_iov u))) (mem s) (mem s1)"
proof -
  let ?as = "iov_addrs (uio_iov u)"
  define k where "k = (if iov_len iov > n then n else iov_len iov)"
  have k: "0 < k" "k \<le> n" "k \<le> iov_len iov" using iov by (auto simp: k_def)
  let ?c = "[iov_base iov..<iov_base iov + k]"
  have kr: "k \<le> uio_resid u" using k ok(4) iov(3) by (auto simp: uio_covers_def)
  have tk: "take k ?as = ?c" using k(3) iov(3) by (simp add: take_upt)
  have "k < 2 ^ 32" "iov_base iov < 2 ^ 32" using k ok(1,2) iov by (auto simp: uio_ok_def)
  from uio_switch_spec [OF k(1) this ok(3)]
  obtain r s1 where sw: "uio_switch rd wr u ptr (iov_base iov) k s = Some (r, s1)"
    "if \<forall>a\<in>set ?c. accessible rd wr u a
     then r = Inr () \<and> moved (uio_rw u) ptr ?c (mem s) (mem s1) else r = Inl EFAULT" by blast
  show ?thesis
  proof (cases "\<forall>a\<in>set ?c. accessible rd wr u a")
    case False
    have "set ?c \<subseteq> set (take n ?as)" unfolding tk [symmetric] using k(2) by (rule set_take_subset_set_take)
    then have "\<not> (\<forall>a\<in>set (take n ?as). accessible rd wr u a)" using False by blast
    moreover have "uiomove_loop rd wr ptr n u s = Some (Inl EFAULT, u, s1)"
      using False sw iov k_def by (subst uiomove_loop.simps) (auto simp: Let_def)
    ultimately show ?thesis by (rule fault [rotated])
  next
    case True
    define u1 where "u1 = u\<lparr>uio_iov := iov\<lparr>iov_base := iov_base iov + k, iov_len := iov_len iov - k\<rparr> # rest,
      uio_resid := wrap32 (uio_resid u + 2 ^ 32 - k), uio_offset := uio_offset u + int k\<rparr>"
    have "uiomove_loop rd wr ptr n u s = uiomove_loop rd wr (ptr + k) (n - k) u1 s1"
      using iov True sw k(1) by (subst uiomove_loop.simps) (simp add: Let_def k_def [symmetric] u1_def)
    moreover have "uio_after k u u1" unfolding u1_def by (rule uio_advance [OF ok(1) iov(3) k(1,3) kr True])
    moreover have "length (uio_iov u1) = length (uio_iov u)" using iov(3) by (simp add: u1_def)
    ultimately show ?thesis using move [of k u1 s1, unfolded tk] k(1,2) sw(2) True by simp
  qed
qed

lemma uiomove_loop_spec:
  assumes "uio_ok u" "n < 2 ^ 32" "USERSPACETOP \<le> ptr"
    and "set (iov_addrs (uio_iov u)) \<inter> {ptr..<ptr + n} = {}" "uio_covers n u"
  shows "\<exists>r u' s'. uiomove_loop rd wr ptr n u s = Some (r, u', s') \<and> move_result rd wr ptr n u (mem s) r u' (mem s')"
  using assms
proof (induction "n + length (uio_iov u)" arbitrary: ptr n u s rule: less_induct)
  case less
  let ?as = "iov_addrs (uio_iov u)"
  consider (stop) "\<not> (n > 0 \<and> uio_resid u > 0)"
    | (skip) iov rest where "n > 0" "uio_resid u > 0" "uio_iov u = iov # rest" "iov_len iov = 0"
    | (move) iov rest where "n > 0" "uio_resid u > 0" "uio_iov u = iov # rest" "iov_len iov > 0"
    using less.prems(1) by (cases "uio_iov u") (auto simp: uio_ok_def)
  then show ?case
  proof cases
    case stop
    then have "take n ?as = []" "uio_after n u u"
      using less.prems(1,5) by (auto simp: uio_ok_def uio_after_def uio_covers_def)
    then show ?thesis using stop
      by (subst uiomove_loop.simps) (auto simp: move_result_def moved_def split: uio_rw.split)
  next
    case skip
    let ?u = "u\<lparr>uio_iov := rest, uio_iovcnt := wrap32 (uio_iovcnt u + 2 ^ 32 - 1)\<rparr>"
    note sk = uio_skip [OF less.prems(1) skip(2-4)]
    have "uiomove_loop rd wr ptr n u s = uiomove_loop rd wr ptr n ?u s"
      using skip sk(1) by (subst uiomove_loop.simps) (simp add: Let_def)
    moreover have "iov_addrs (uio_iov ?u) = ?as" using skip by simp
    ultimately show ?thesis
      using less.hyps [of n ?u ptr s] less.prems skip sk(2) accessible_after [OF sk(2), of rd wr]
        uio_after_add [OF sk(2), of n] by (auto simp: move_result_def uio_after_def uio_covers_def split: if_splits)
  next
    case (move iov rest)
    show ?thesis
    proof (cases rule: uiomove_round [OF less.prems(1,2,3,5) move, of rd wr s, case_names fault move])
      case fault
      then show ?thesis by (auto simp: move_result_def)
    next
      case (move k u1 s1)
      have u1: "iov_addrs (uio_iov u1) = drop k ?as" "uio_ok u1" using move(4) by (simp_all add: uio_after_def)
      have "set (drop k ?as) \<inter> {ptr + k..<ptr + k + (n - k)} = {}"
        using less.prems(4) move(1,2) set_drop_subset [of k ?as] by auto
      moreover have "uio_covers (n - k) u1" using less.prems(5) move(4) by (auto simp: uio_covers_def uio_after_def)
      ultimately obtain r u' s' where "uiomove_loop rd wr (ptr + k) (n - k) u1 s1 = Some (r, u', s')"
        "move_result rd wr (ptr + k) (n - k) u1 (mem s1) r u' (mem s')"
        using less.hyps [of "n - k" u1 "ptr + k" s1] u1 le_less_trans [OF diff_le_self less.prems(2), of k] less.prems(3) move(1,2,5)
        by auto
      then show ?thesis using move_result_trans [OF less.prems(1,4) move(2,4,7,6,8)] move(3) by auto
    qed
  qed
qed

text \<open>\<open>uiomovezeros\<close>: whole chunks of sixteen bytes and a remainder.\<close>

lemma uiomove_spec:
  assumes "uio_ok u" "n < 2 ^ 32" "USERSPACETOP \<le> ptr"
    and "set (iov_addrs (uio_iov u)) \<inter> {ptr..<ptr + n} = {}"
    and "if uio_segflg u = UIO_SYSSPACE then uio_space u = None else uio_space u = cur" "uio_covers n u"
  shows "\<exists>r u' s'. uiomove rd wr cur ptr n u s = Some (r, u', s') \<and>
    (if \<forall>a\<in>set (take n (iov_addrs (uio_iov u))). accessible rd wr u a
     then r = Inr () \<and> uio_after n u u' \<and>
       moved (uio_rw u) ptr (take n (iov_addrs (uio_iov u))) (mem s) (mem s')
     else r = Inl EFAULT)"
  using uiomove_loop_spec [OF assms(1-4,6), of rd wr s] assms(5) by (simp add: uiomove_def move_result_def)

lemma uiomovezeros_loop_spec:
  assumes "uio_ok u" "uio_rw u = UIO_READ" "USERSPACETOP \<le> zeros"
    and "set (iov_addrs (uio_iov u)) \<inter> {zeros..<zeros + 16} = {}"
    and "if uio_segflg u = UIO_SYSSPACE then uio_space u = None else uio_space u = cur"
    and "\<forall>i<16. mem s (zeros + i) = 0"
    and "\<forall>a\<in>set (take n (iov_addrs (uio_iov u))). accessible rd wr u a" "uio_covers n u"
  shows "\<exists>u' s'. uiomovezeros_loop rd wr cur zeros n u s = Some (Inr (), u', s') \<and> uio_after n u u' \<and>
    (\<forall>a. mem s' a = (if a \<in> set (take n (iov_addrs (uio_iov u))) then 0 else mem s a))"
  using assms
proof (induction n arbitrary: u s rule: less_induct)
  case (less n)
  let ?as = "iov_addrs (uio_iov u)"
  show ?case
  proof (cases "n = 0")
    case True
    then show ?thesis using less.prems
      by (subst uiomovezeros_loop.simps) (simp add: uio_after_def)
  next
    case False
    define k where "k = (if 16 > n then n else 16)"
    have k: "0 < k" "k \<le> n" "k \<le> 16" "k < 2 ^ 32" using False by (auto simp: k_def)
    have tk: "take n ?as = take k ?as @ take (n - k) (drop k ?as)"
      using take_add [of k "n - k" ?as] k(2) by simp
    have "\<forall>a\<in>set (take k ?as). accessible rd wr u a" using less.prems(7) unfolding tk by simp
    moreover have "set ?as \<inter> {zeros..<zeros + k} = {}" using less.prems(4) k(3) by fastforce
    ultimately obtain u1 s1 where m: "uiomove rd wr cur zeros k u s = Some (Inr (), u1, s1)"
      "uio_after k u u1" "moved UIO_READ zeros (take k ?as) (mem s) (mem s1)"
      using uiomove_spec [OF less.prems(1) k(4) less.prems(3) _ less.prems(5), of rd wr s] less.prems(2,8) k(2)
      by (auto simp: uio_covers_def)
    have s1: "mem s1 a = (if a \<in> set (take k ?as) then 0 else mem s a)" for a
      using m(3) less.prems(6) k(3) by (auto simp: moved_def in_set_conv_nth)
    have "\<forall>i<16. mem s1 (zeros + i) = 0"
    proof (intro allI impI)
      fix i :: nat assume "i < 16"
      moreover have "zeros + i \<notin> set (take k ?as)"
        using less.prems(4) \<open>i < 16\<close> set_take_subset [of k ?as] by fastforce
      ultimately show "mem s1 (zeros + i) = 0" using less.prems(6) s1 by simp
    qed
    moreover have u1: "uio_ok u1" "iov_addrs (uio_iov u1) = drop k ?as" "uio_rw u1 = UIO_READ"
      "uio_segflg u1 = uio_segflg u" "uio_space u1 = uio_space u"
      using m(2) less.prems(2) by (simp_all add: uio_after_def)
    moreover have "set (drop k ?as) \<inter> {zeros..<zeros + 16} = {}"
      using less.prems(4) set_drop_subset [of k ?as] by blast
    moreover have "\<forall>a\<in>set (take (n - k) (drop k ?as)). accessible rd wr u1 a"
      using less.prems(7) unfolding tk accessible_after [OF m(2)] by simp
    moreover have "uio_covers (n - k) u1"
      using less.prems(8) m(2) by (auto simp: uio_covers_def uio_after_def)
    ultimately obtain u' s' where r: "uiomovezeros_loop rd wr cur zeros (n - k) u1 s1 = Some (Inr (), u', s')"
      "uio_after (n - k) u1 u'"
      "\<forall>a. mem s' a = (if a \<in> set (take (n - k) (drop k ?as)) then 0 else mem s1 a)"
      using less.IH [of "n - k" u1 s1] less.prems(3) less.prems(5) [folded u1(4,5)] k by auto
    have "uiomovezeros_loop rd wr cur zeros n u s = Some (Inr (), u', s')"
      using False m(1) r(1) by (subst uiomovezeros_loop.simps) (simp add: k_def Let_def)
    moreover have "uio_after n u u'" using uio_after_add [OF m(2) r(2)] k(2) by simp
    ultimately show ?thesis using r(3) s1 unfolding tk by auto
  qed
qed

section \<open>The stream view\<close>

text \<open>
  The file systems use a descriptor as a stream: of bytes to come when writing, of bytes
  delivered when reading. \<open>us_good\<close> is the number of bytes before the first inaccessible
  address. \<open>uiomove_s\<close> is \<open>uiomove\<close> on streams; it takes the contents of the kernel buffer and
  returns the new ones.
\<close>

record ustream =
  us_offset :: int
  us_resid :: nat
  us_rw :: uio_rw
  us_bytes :: "8 word list"
  us_good :: nat

definition uiomove_s :: "8 word list \<Rightarrow> nat \<Rightarrow> ustream \<Rightarrow> (errno + 8 word list) \<times> ustream" where
  "uiomove_s buf n u =
     (let k = min n (us_resid u) in
      if us_good u < k then (Inl EFAULT, u)
      else
        let u' = u\<lparr>us_offset := us_offset u + int k, us_resid := us_resid u - k, us_good := us_good u - k\<rparr> in
        case us_rw u of
          UIO_READ \<Rightarrow> (Inr buf, u'\<lparr>us_bytes := us_bytes u @ take k buf\<rparr>)
        | UIO_WRITE \<Rightarrow> (Inr (take k (us_bytes u) @ drop k buf), u'\<lparr>us_bytes := drop k (us_bytes u)\<rparr>))"

text \<open>A descriptor and the contents of memory as a stream; nothing is delivered yet.\<close>

definition stream_of :: "(addr \<Rightarrow> bool) \<Rightarrow> (addr \<Rightarrow> bool) \<Rightarrow> uio \<Rightarrow> memory \<Rightarrow> ustream" where
  "stream_of rd wr u m =
     \<lparr>us_offset = uio_offset u, us_resid = uio_resid u, us_rw = uio_rw u,
      us_bytes = (case uio_rw u of UIO_READ \<Rightarrow> [] | UIO_WRITE \<Rightarrow> map m (iov_addrs (uio_iov u))),
      us_good = length (takeWhile (accessible rd wr u) (iov_addrs (uio_iov u)))\<rparr>"

definition uiomoveP :: "8 word list \<Rightarrow> nat \<Rightarrow> (ustream \<times> 's, 8 word list) proc" where
  "uiomoveP buf n = (\<lambda>(u, s). let (r, u') = uiomove_s buf n u in Some (r, u', s))"

lemma wp_uiomove [wp_simps]:
  "wp (uiomoveP buf n) Q us \<longleftrightarrow> Q (fst (uiomove_s buf n (fst us))) (snd (uiomove_s buf n (fst us)), snd us)"
  by (auto simp: wp_def uiomoveP_def Let_def split: prod.splits)

lemma uiomove_s_ok:
  assumes "n \<le> us_resid u" "n \<le> us_good u"
  shows "uiomove_s buf n u =
    (let u' = u\<lparr>us_offset := us_offset u + int n, us_resid := us_resid u - n, us_good := us_good u - n\<rparr>
     in case us_rw u of
          UIO_READ \<Rightarrow> (Inr buf, u'\<lparr>us_bytes := us_bytes u @ take n buf\<rparr>)
        | UIO_WRITE \<Rightarrow> (Inr (take n (us_bytes u) @ drop n buf), u'\<lparr>us_bytes := drop n (us_bytes u)\<rparr>))"
  using assms by (simp add: uiomove_s_def min_def Let_def)

text \<open>\<open>uio_kinit\<close> as a stream: a kernel buffer of \<open>len\<close> bytes, with contents when writing.\<close>

definition uio_kinit_s :: "8 word list \<Rightarrow> nat \<Rightarrow> int \<Rightarrow> uio_rw \<Rightarrow> ustream" where
  "uio_kinit_s data len pos rw =
     \<lparr>us_offset = pos, us_resid = len, us_rw = rw,
      us_bytes = (case rw of UIO_READ \<Rightarrow> [] | UIO_WRITE \<Rightarrow> take len data), us_good = len\<rparr>"

lemma takeWhile_take_all: "n \<le> length xs \<Longrightarrow> n \<le> length (takeWhile P xs) \<longleftrightarrow> (\<forall>x\<in>set (take n xs). P x)"
proof (induction xs arbitrary: n)
  case (Cons x xs)
  then show ?case by (cases n) auto
qed simp

lemma takeWhile_drop: "n \<le> length (takeWhile P xs) \<Longrightarrow> length (takeWhile P (drop n xs)) = length (takeWhile P xs) - n"
proof (induction xs arbitrary: n)
  case (Cons x xs)
  then show ?case by (cases n) (auto split: if_splits)
qed simp

lemma moved_map:
  assumes "moved rw ptr as m m'" "distinct as" "set as \<inter> {ptr..<ptr + n} = {}" "length as \<le> n"
  shows "case rw of
      UIO_READ \<Rightarrow> map m' as = map m [ptr..<ptr + length as] \<and> map m' [ptr..<ptr + n] = map m [ptr..<ptr + n]
    | UIO_WRITE \<Rightarrow> map m' [ptr..<ptr + n] = map m as @ map m [ptr + length as..<ptr + n]"
proof (cases rw)
  case UIO_READ
  have "map m' as = map m [ptr..<ptr + length as]"
    using assms(1) UIO_READ by (intro nth_equalityI) (simp_all add: moved_def)
  moreover have "map m' [ptr..<ptr + n] = map m [ptr..<ptr + n]"
  proof (rule map_cong [OF refl])
    fix a assume "a \<in> set [ptr..<ptr + n]"
    then have "a \<notin> set as" using assms(3) by auto
    then show "m' a = m a" using assms(1) UIO_READ by (simp add: moved_def)
  qed
  ultimately show ?thesis using UIO_READ by simp
next
  case UIO_WRITE
  have "map m' [ptr..<ptr + n] = map m as @ map m [ptr + length as..<ptr + n]"
  proof (intro nth_equalityI)
    fix i assume i: "i < length (map m' [ptr..<ptr + n])"
    show "map m' [ptr..<ptr + n] ! i = (map m as @ map m [ptr + length as..<ptr + n]) ! i"
    proof (cases "i < length as")
      case True
      then show ?thesis using assms(1) UIO_WRITE i by (simp add: moved_def nth_append)
    next
      case False
      then have "m' (ptr + i) = m (ptr + i)" using assms(1) UIO_WRITE by (simp add: moved_def)
      then show ?thesis using False i by (simp add: nth_append)
    qed
  qed (use assms(4) in simp)
  then show ?thesis using UIO_WRITE by simp
qed

section \<open>Properties\<close>

text \<open>
  C20: \<open>uiomove\<close> between a kernel buffer and a well set up descriptor, in kernel or user memory,
  over any number of buffers. It never stops the kernel. If the next \<open>n\<close> addresses of the
  descriptor (or all that are left) are accessible, exactly those bytes are moved, in order,
  and nothing else in memory changes; the descriptor then stands behind them, with offset
  and residual count advanced by the number of bytes moved. Otherwise it returns \<open>EFAULT\<close>.
\<close>

theorem uiomove_correct:
  assumes "uio_ok u" "n < 2 ^ 32" "USERSPACETOP \<le> ptr"
    and "set (iov_addrs (uio_iov u)) \<inter> {ptr..<ptr + n} = {}"
    and "if uio_segflg u = UIO_SYSSPACE then uio_space u = None else uio_space u = cur" "uio_covers n u"
  shows "\<exists>r u' s'. uiomove rd wr cur ptr n u s = Some (r, u', s') \<and>
    (if \<forall>a\<in>set (take n (iov_addrs (uio_iov u))). accessible rd wr u a
     then r = Inr () \<and> uio_after n u u' \<and>
       moved (uio_rw u) ptr (take n (iov_addrs (uio_iov u))) (mem s) (mem s')
     else r = Inl EFAULT)"
  using assms by (rule uiomove_spec)

theorem uiomove_correct_witness:
  "let u = \<lparr>uio_iov = [\<lparr>iov_base = 100, iov_len = 2\<rparr>, \<lparr>iov_base = 200, iov_len = 3\<rparr>], uio_iovcnt = 2,
        uio_offset = 7, uio_resid = 5, uio_segflg = UIO_USERSPACE, uio_rw = UIO_READ, uio_space = Some 1\<rparr>;
      s = \<lparr>mem = (\<lambda>a. of_nat a), badfaultfunc = False\<rparr>
   in \<exists>u' s'. uiomove (\<lambda>_. True) (\<lambda>_. True) (Some 1) 0x80000000 4 u s = Some (Inr (), u', s') \<and>
     uio_offset u' = 11 \<and> uio_resid u' = 1 \<and> mem s' 201 = 3"
proof -
  define u :: uio where "u = \<lparr>uio_iov = [\<lparr>iov_base = 100, iov_len = 2\<rparr>, \<lparr>iov_base = 200, iov_len = 3\<rparr>],
    uio_iovcnt = 2, uio_offset = 7, uio_resid = 5, uio_segflg = UIO_USERSPACE, uio_rw = UIO_READ, uio_space = Some 1\<rparr>"
  define s :: machine where "s = \<lparr>mem = (\<lambda>a. of_nat a), badfaultfunc = False\<rparr>"
  have as: "iov_addrs (uio_iov u) = [100, 101, 200, 201, 202]" by (simp add: u_def upt_rec)
  have ok: "uio_ok u" unfolding uio_ok_def as by (simp add: u_def)
  obtain u' s' where "uiomove (\<lambda>_. True) (\<lambda>_. True) (Some 1) 0x80000000 4 u s = Some (Inr (), u', s')"
    "uio_after 4 u u'" "moved (uio_rw u) 0x80000000 [100, 101, 200, 201] (mem s) (mem s')"
    using uiomove_correct [OF ok, of 4 "0x80000000" "Some 1" "\<lambda>_. True" "\<lambda>_. True" s]
    unfolding as by (auto simp: accessible_def u_def uio_covers_def)
  moreover from this(3) have "mem s' 201 = 3"
    by (auto simp: moved_def u_def s_def dest: spec [of _ 3])
  ultimately show ?thesis
    unfolding Let_def u_def [symmetric] s_def [symmetric] by (auto simp: uio_after_def u_def)
qed

text \<open>
  \<open>uiomovezeros\<close> fills the next \<open>n\<close> accessible bytes of a reading descriptor with zeros,
  whatever \<open>n\<close> is, changes nothing else, and advances the descriptor by as much.
\<close>

theorem uiomovezeros_correct:
  assumes "uio_ok u" "uio_rw u = UIO_READ" "USERSPACETOP \<le> zeros"
    and "set (iov_addrs (uio_iov u)) \<inter> {zeros..<zeros + 16} = {}"
    and "if uio_segflg u = UIO_SYSSPACE then uio_space u = None else uio_space u = cur"
    and "\<forall>i<16. mem s (zeros + i) = 0"
    and "\<forall>a\<in>set (take n (iov_addrs (uio_iov u))). accessible rd wr u a" "uio_covers n u"
  shows "\<exists>u' s'. uiomovezeros rd wr cur zeros n u s = Some (Inr (), u', s') \<and> uio_after n u u' \<and>
    (\<forall>a. mem s' a = (if a \<in> set (take n (iov_addrs (uio_iov u))) then 0 else mem s a))"
  using uiomovezeros_loop_spec [OF assms] assms(2) by (simp add: uiomovezeros_def)

theorem uiomovezeros_correct_witness:
  "let u = uio_kinit 0x90000000 40 0 UIO_READ;
      s = \<lparr>mem = (\<lambda>a. if a < 0x90000000 then 0 else 9), badfaultfunc = False\<rparr>
   in \<exists>u' s'. uiomovezeros (\<lambda>_. True) (\<lambda>_. True) None 0x80000000 20 u s = Some (Inr (), u', s') \<and>
     uio_resid u' = 20 \<and> mem s' 0x90000013 = 0 \<and> mem s' 0x90000014 = 9"
proof -
  define u where "u = uio_kinit 0x90000000 40 0 UIO_READ"
  define s :: machine where "s = \<lparr>mem = (\<lambda>a. if a < 0x90000000 then 0 else 9), badfaultfunc = False\<rparr>"
  have as: "iov_addrs (uio_iov u) = [0x90000000..<0x90000028]" by (simp add: u_def uio_kinit_def)
  have ok: "uio_ok u" unfolding uio_ok_def as by (simp add: u_def uio_kinit_def)
  obtain u' s' where "uiomovezeros (\<lambda>_. True) (\<lambda>_. True) None 0x80000000 20 u s = Some (Inr (), u', s')"
    "uio_after 20 u u'"
    "\<forall>a. mem s' a = (if a \<in> set (take 20 [0x90000000..<0x90000028]) then 0 else mem s a)"
    using uiomovezeros_correct [OF ok, of "0x80000000" None s 20 "\<lambda>_. True" "\<lambda>_. True"]
    unfolding as by (auto simp: accessible_def u_def s_def uio_kinit_def uio_covers_def)
  then show ?thesis unfolding Let_def u_def [symmetric] s_def [symmetric]
    by (auto simp: uio_after_def u_def s_def uio_kinit_def take_upt)
qed

text \<open>The successful case of the stream view.\<close>

lemma uiomove_s_moved:
  assumes "uio_ok u" "set (iov_addrs (uio_iov u)) \<inter> {ptr..<ptr + n} = {}" "uio_covers n u" "uio_after n u u'"
    and ok: "\<forall>a\<in>set (take n (iov_addrs (uio_iov u))). accessible rd wr u a"
    and mv: "moved (uio_rw u) ptr (take n (iov_addrs (uio_iov u))) m m'"
  shows "uiomove_s (map m [ptr..<ptr + n]) n (stream_of rd wr u m) =
    (Inr (map m' [ptr..<ptr + n]), (stream_of rd wr u' m')\<lparr>us_bytes :=
       (case uio_rw u of UIO_READ \<Rightarrow> map m' (take n (iov_addrs (uio_iov u))) | UIO_WRITE \<Rightarrow> map m' (iov_addrs (uio_iov u')))\<rparr>)"
proof -
  let ?as = "iov_addrs (uio_iov u)"
  define k where "k = min n (uio_resid u)"
  have k: "take n ?as = take k ?as" "k \<le> length ?as" "drop n ?as = drop k ?as" "length (take k ?as) = k"
    using assms(1,3) by (auto simp: k_def uio_covers_def uio_ok_def min_def)
  have nf: "\<not> us_good (stream_of rd wr u m) < k"
    using takeWhile_take_all [OF k(2), of "accessible rd wr u"] ok unfolding k(1)
    by (simp add: stream_of_def linorder_not_le [symmetric])
  have d: "distinct (take k ?as)" "set (take k ?as) \<inter> {ptr..<ptr + n} = {}" "length (take k ?as) \<le> n"
    using assms(1,2) set_take_subset [of k ?as] by (auto simp: uio_ok_def k_def)
  note mm = moved_map [OF mv [unfolded k(1)] d, unfolded k(4)]
  have g: "length (takeWhile (accessible rd wr u') (drop k ?as)) = length (takeWhile (accessible rd wr u) ?as) - k"
    using nf takeWhile_drop [of k "accessible rd wr u" ?as]
    unfolding accessible_after [OF assms(4)] by (simp add: stream_of_def)
  have kk: "k \<le> n" "k \<le> uio_resid u" by (simp_all add: k_def)
  have rest: "map m' (drop k ?as) = map m (drop k ?as)" if "uio_rw u = UIO_WRITE"
  proof -
    have "x < ptr \<or> ptr + k \<le> x" if "x \<in> set (drop k ?as)" for x
      using assms(2) set_drop_subset [of k ?as] that kk(1) by fastforce
    then show ?thesis using mv [unfolded k(1)] that k(4) by (auto simp: moved_def)
  qed
  have f: "iov_addrs (uio_iov u') = drop k ?as" "uio_resid u' = uio_resid u - k"
    "uio_offset u' = uio_offset u + int k" "uio_rw u' = uio_rw u"
    using assms(4) k(3) by (auto simp: uio_after_def k_def min_def)
  have nf': "\<not> us_good (stream_of rd wr u m) < min n (us_resid (stream_of rd wr u m))"
    using nf by (simp add: k_def stream_of_def)
  have u: "take k [ptr..<ptr + n] = [ptr..<ptr + k]" "drop k [ptr..<ptr + n] = [ptr + k..<ptr + n]"
    using kk(1) by (simp_all add: take_upt)
  show ?thesis
    unfolding uiomove_s_def Let_def if_not_P [OF nf'] using mm rest k(1) u
    by (cases "uio_rw u") (simp_all add: stream_of_def k_def [symmetric] take_map drop_map f g)
qed

text \<open>
  C21: The file systems may use a descriptor as a stream. \<open>uiomove\<close> on memory returns the same
  result as \<open>uiomove_s\<close> on the stream the descriptor stands for, leaves the kernel buffer with
  the same contents, delivers the same bytes when reading, and leaves the descriptor and
  memory standing for the same remaining stream.
\<close>

theorem uiomove_refines_stream:
  assumes "uio_ok u" "n < 2 ^ 32" "USERSPACETOP \<le> ptr"
    and "set (iov_addrs (uio_iov u)) \<inter> {ptr..<ptr + n} = {}"
    and "if uio_segflg u = UIO_SYSSPACE then uio_space u = None else uio_space u = cur" "uio_covers n u"
  shows "\<exists>r u' s'. uiomove rd wr cur ptr n u s = Some (r, u', s') \<and>
    (case uiomove_s (map (mem s) [ptr..<ptr + n]) n (stream_of rd wr u (mem s)) of
       (Inl e, _) \<Rightarrow> r = Inl e
     | (Inr buf, us) \<Rightarrow> r = Inr () \<and> map (mem s') [ptr..<ptr + n] = buf \<and>
         us = (stream_of rd wr u' (mem s'))\<lparr>us_bytes := us_bytes us\<rparr> \<and>
         us_bytes us = (case uio_rw u of UIO_READ \<Rightarrow> map (mem s') (take n (iov_addrs (uio_iov u)))
                        | UIO_WRITE \<Rightarrow> map (mem s') (iov_addrs (uio_iov u'))))"
proof -
  let ?as = "iov_addrs (uio_iov u)"
  obtain r u' s' where m: "uiomove rd wr cur ptr n u s = Some (r, u', s')"
    "if \<forall>a\<in>set (take n ?as). accessible rd wr u a
     then r = Inr () \<and> uio_after n u u' \<and> moved (uio_rw u) ptr (take n ?as) (mem s) (mem s')
     else r = Inl EFAULT"
    using uiomove_spec [OF assms, of rd wr s] by blast
  show ?thesis
  proof (cases "\<forall>a\<in>set (take n ?as). accessible rd wr u a")
    case False
    define k where "k = min n (uio_resid u)"
    have k: "take n ?as = take k ?as" "k \<le> length ?as"
      using assms(1,6) by (auto simp: k_def uio_covers_def uio_ok_def min_def)
    have "us_good (stream_of rd wr u (mem s)) < min n (us_resid (stream_of rd wr u (mem s)))"
      using False takeWhile_take_all [OF k(2), of "accessible rd wr u"] unfolding k(1)
      by (simp add: stream_of_def linorder_not_le [symmetric] k_def)
    then have "uiomove_s (map (mem s) [ptr..<ptr + n]) n (stream_of rd wr u (mem s)) =
        (Inl EFAULT, stream_of rd wr u (mem s))"
      by (simp add: uiomove_s_def)
    then show ?thesis using m False by simp
  next
    case True
    then have "r = Inr ()" "uio_after n u u'" "moved (uio_rw u) ptr (take n ?as) (mem s) (mem s')"
      using m(2) by simp_all
    then show ?thesis using m(1) uiomove_s_moved [OF assms(1,4,6) _ True] by simp
  qed
qed

theorem uiomove_refines_stream_witness:
  "let u = uio_kinit 0x90000000 3 0 UIO_WRITE; s = \<lparr>mem = (\<lambda>a. of_nat a), badfaultfunc = False\<rparr>
   in \<exists>u' s'. uiomove (\<lambda>_. True) (\<lambda>_. True) None 0x80000000 2 u s = Some (Inr (), u', s') \<and>
     map (mem s') [0x80000000..<0x80000002] = [0, 1]"
proof -
  define u where "u = uio_kinit 0x90000000 3 0 UIO_WRITE"
  define s :: machine where "s = \<lparr>mem = (\<lambda>a. of_nat a), badfaultfunc = False\<rparr>"
  have as: "iov_addrs (uio_iov u) = [0x90000000, 0x90000001, 0x90000002]"
    by (simp add: u_def uio_kinit_def upt_rec)
  have ok: "uio_ok u" unfolding uio_ok_def as by (simp add: u_def uio_kinit_def)
  have st: "stream_of (\<lambda>_. True) (\<lambda>_. True) u (mem s) = \<lparr>us_offset = 0, us_resid = 3, us_rw = UIO_WRITE,
      us_bytes = [0, 1, 2], us_good = 3\<rparr>"
    unfolding stream_of_def as by (simp add: u_def s_def uio_kinit_def accessible_def)
  have h: "set (iov_addrs (uio_iov u)) \<inter> {0x80000000..<0x80000000 + 2} = {}" "uio_covers 2 u"
    "if uio_segflg u = UIO_SYSSPACE then uio_space u = None else uio_space u = None" "uio_rw u = UIO_WRITE"
    unfolding uio_covers_def as by (simp_all add: u_def uio_kinit_def)
  have buf: "uiomove_s (map (mem s) [0x80000000..<0x80000000 + 2]) 2 \<lparr>us_offset = 0, us_resid = 3,
      us_rw = UIO_WRITE, us_bytes = [0, 1, 2], us_good = 3\<rparr> =
      (Inr [0, 1], \<lparr>us_offset = 2, us_resid = 1, us_rw = UIO_WRITE, us_bytes = [2], us_good = 1\<rparr>)"
    by (simp add: uiomove_s_def)
  have "\<exists>u' s'. uiomove (\<lambda>_. True) (\<lambda>_. True) None 0x80000000 2 u s = Some (Inr (), u', s') \<and>
     map (mem s') [0x80000000..<0x80000000 + 2] = [0, 1]"
    using uiomove_refines_stream [OF ok, of 2 "0x80000000" None "\<lambda>_. True" "\<lambda>_. True" s,
        OF _ _ h(1) h(3,2), unfolded st buf prod.case sum.case] by auto
  then show ?thesis unfolding Let_def u_def [symmetric] s_def [symmetric] by simp
qed

end
