(* ===== verification/Lhd.thy ===== *)
theory Lhd
  imports Uio
begin

text \<open>
  The LAMEbus hard disk driver, \<open>kern/dev/lamebus/lhd.c\<close>. The state holds what the driver
  owns (the two semaphores and the result the interrupt handler leaves), the registers and the
  buffer of the card, and the medium. How the card ends each operation is an input: \<open>lh_codes\<close>
  lists the status codes of the operations to come; when it is used up they succeed.

  One thread at a time runs here: \<open>P\<close> on a semaphore whose count is zero would wait for a
  signal nobody gives, and is \<open>None\<close>.
\<close>

type_synonym bytes = "8 word list"

record lhd =
  lh_d_blocks :: nat
  lh_sectors :: "nat \<Rightarrow> bytes"
  lh_buf :: bytes
  lh_reg_stat :: nat
  lh_reg_sect :: nat
  lh_result :: "errno option"
  lh_clear :: nat
  lh_done :: nat
  lh_codes :: "nat list"

abbreviation (input) LHD_SECTSIZE :: nat where "LHD_SECTSIZE \<equiv> 512"
abbreviation (input) LHD_WORKING :: nat where "LHD_WORKING \<equiv> 1"
abbreviation (input) LHD_ISWRITE :: nat where "LHD_ISWRITE \<equiv> 2"
abbreviation (input) LHD_IDLE :: nat where "LHD_IDLE \<equiv> 0"
abbreviation (input) LHD_OK :: nat where "LHD_OK \<equiv> 4"
abbreviation (input) LHD_INVSECT :: nat where "LHD_INVSECT \<equiv> 12"
abbreviation (input) LHD_MEDIA :: nat where "LHD_MEDIA \<equiv> 20"
abbreviation (input) LHD_STATEMASK :: nat where "LHD_STATEMASK \<equiv> 0x1d"

section \<open>The driver\<close>

definition lhd_code_to_errno :: "nat \<Rightarrow> errno option" where
  "lhd_code_to_errno code =
     (let c = code AND LHD_STATEMASK in
      if c = LHD_OK then None
      else if c = LHD_INVSECT then Some EINVAL
      else if c = LHD_MEDIA then Some EIO
      else Some EAGAIN)"

definition lhd_iodone :: "errno option \<Rightarrow> lhd \<Rightarrow> lhd" where
  "lhd_iodone err lh = lh\<lparr>lh_result := err, lh_done := lh_done lh + 1\<rparr>"

definition lhd_irq :: "lhd \<Rightarrow> lhd" where
  "lhd_irq lh =
     (let val = lh_reg_stat lh; c = val AND LHD_STATEMASK in
      if c = LHD_IDLE \<or> c = LHD_WORKING then lh
      else if c = LHD_OK \<or> c = LHD_INVSECT \<or> c = LHD_MEDIA
      then lhd_iodone (lhd_code_to_errno val) (lh\<lparr>lh_reg_stat := 0\<rparr>)
      else lh)"

text \<open>
  The card takes up the operation in its registers and ends it with the next status code; on
  success a sector has moved between the medium and the buffer.
\<close>

definition lhd_card :: "lhd \<Rightarrow> lhd" where
  "lhd_card lh =
     (let code = (case lh_codes lh of [] \<Rightarrow> LHD_OK | c # _ \<Rightarrow> c);
          iswrite = lh_reg_stat lh AND LHD_ISWRITE;
          lh = lh\<lparr>lh_codes := tl (lh_codes lh), lh_reg_stat := code OR iswrite\<rparr>
      in if code \<noteq> LHD_OK then lh
         else if iswrite \<noteq> 0
         then lh\<lparr>lh_sectors := (lh_sectors lh)(lh_reg_sect lh := lh_buf lh)\<rparr>
         else lh\<lparr>lh_buf := lh_sectors lh (lh_reg_sect lh)\<rparr>)"

definition lh_P :: "(lhd \<Rightarrow> nat) \<Rightarrow> (nat \<Rightarrow> lhd \<Rightarrow> lhd) \<Rightarrow> (ustream \<times> lhd, unit) proc" where
  "lh_P get put = bindP (getP (\<lambda>(_, lh). get lh)) (\<lambda>c.
     bindP (assertP (0 < c)) (\<lambda>_. modP (\<lambda>(u, lh). (u, put (c - 1) lh))))"

text \<open>One round of the loop of \<open>lhd_io\<close>, for sector \<open>sector + i\<close>.\<close>

definition lhd_sector :: "nat \<Rightarrow> nat \<Rightarrow> (ustream \<times> lhd, unit) proc" where
  "lhd_sector statval sect =
     bindP (lh_P lh_clear (\<lambda>c lh. lh\<lparr>lh_clear := c\<rparr>)) (\<lambda>_.
     bindP (getP (\<lambda>(u, lh). (us_rw u, lh_buf lh))) (\<lambda>(rw, buf).
     tryP (if rw = UIO_WRITE then uiomoveP buf LHD_SECTSIZE else retP buf) (\<lambda>moved.
     case moved of
       Inl e \<Rightarrow> bindP (modP (\<lambda>(u, lh). (u, lh\<lparr>lh_clear := lh_clear lh + 1\<rparr>))) (\<lambda>_. throwP e)
     | Inr buf \<Rightarrow>
         bindP (modP (\<lambda>(u, lh). (u, lh\<lparr>lh_buf := buf, lh_reg_sect := sect, lh_reg_stat := statval\<rparr>))) (\<lambda>_.
         bindP (modP (\<lambda>(u, lh). (u, lhd_irq (lhd_card lh)))) (\<lambda>_.
         bindP (lh_P lh_done (\<lambda>c lh. lh\<lparr>lh_done := c\<rparr>)) (\<lambda>_.
         bindP (getP (\<lambda>(u, lh). (lh_result lh, lh_buf lh))) (\<lambda>(result, buf).
         tryP (case result of
                 Some e \<Rightarrow> throwP e
               | None \<Rightarrow> if rw = UIO_READ then uiomoveP buf LHD_SECTSIZE else retP buf) (\<lambda>result.
         bindP (modP (\<lambda>(u, lh). (u, lh\<lparr>lh_clear := lh_clear lh + 1\<rparr>))) (\<lambda>_.
         case result of Inl e \<Rightarrow> throwP e | Inr _ \<Rightarrow> retP ()))))))))) "

definition lhd_io :: "(ustream \<times> lhd, unit) proc" where
  "lhd_io =
     bindP (getP id) (\<lambda>(u, lh).
     let sector = nat ((us_offset u div 512) mod 2 ^ 32);
         sectoff = us_offset u mod 512;
         len = us_resid u div LHD_SECTSIZE;
         lenoff = us_resid u mod LHD_SECTSIZE;
         statval = (if us_rw u = UIO_WRITE then LHD_WORKING OR LHD_ISWRITE else LHD_WORKING)
     in
       if sectoff \<noteq> 0 \<or> lenoff \<noteq> 0 then throwP EINVAL
       else if wrap32 (sector + len) > lh_d_blocks lh then throwP EINVAL
       else forP [0..<len] (\<lambda>i. lhd_sector statval (wrap32 (sector + i))))"

section \<open>What a transfer does\<close>

text \<open>
  Between calls the device is free, no completion is pending, and the buffer and the sectors
  have their size. The codes to come are ones the card can report.
\<close>

definition lhd_inv :: "lhd \<Rightarrow> bool" where
  "lhd_inv lh \<longleftrightarrow> lh_clear lh = 1 \<and> lh_done lh = 0 \<and> lh_reg_stat lh = 0 \<and>
     length (lh_buf lh) = LHD_SECTSIZE \<and> (\<forall>b. length (lh_sectors lh b) = LHD_SECTSIZE) \<and>
     set (lh_codes lh) \<subseteq> {LHD_OK, LHD_INVSECT, LHD_MEDIA}"

definition next_code :: "lhd \<Rightarrow> nat" where
  "next_code lh = (case lh_codes lh of [] \<Rightarrow> LHD_OK | c # _ \<Rightarrow> c)"

lemma next_code_cases: "lhd_inv lh \<Longrightarrow> next_code lh \<in> {LHD_OK, LHD_INVSECT, LHD_MEDIA}"
  by (auto simp: lhd_inv_def next_code_def split: list.splits)

lemma lhd_masks:
  "(4::nat) AND 29 = 4" "(12::nat) AND 29 = 12" "(20::nat) AND 29 = 20"
  "(6::nat) AND 29 = 4" "(14::nat) AND 29 = 12" "(22::nat) AND 29 = 20"
  "(4::nat) OR 2 = 6" "(12::nat) OR 2 = 14" "(20::nat) OR 2 = 22"
  "(3::nat) AND 2 = 2" "(1::nat) AND 2 = 0" "(1::nat) OR 2 = 3"
  by simp_all

definition code_err :: "nat \<Rightarrow> errno" where
  "code_err c = (if c = LHD_INVSECT then EINVAL else EIO)"

text \<open>The state of the driver after an operation that ended with the next code.\<close>

definition lhd_after :: "nat \<Rightarrow> bytes \<Rightarrow> lhd \<Rightarrow> lhd" where
  "lhd_after sect buf lh = lh\<lparr>lh_buf := buf, lh_reg_sect := sect, lh_codes := tl (lh_codes lh),
     lh_result := (if next_code lh = LHD_OK then None else Some (code_err (next_code lh)))\<rparr>"

lemma lhd_after_sel [simp]:
  "lh_sectors (lhd_after sect buf lh) = lh_sectors lh" "lh_d_blocks (lhd_after sect buf lh) = lh_d_blocks lh"
  "lh_codes (lhd_after sect buf lh) = tl (lh_codes lh)" "lh_buf (lhd_after sect buf lh) = buf"
  by (simp_all add: lhd_after_def)

lemma lhd_card_eq:
  "lhd_card lh =
     (let lh' = lh\<lparr>lh_codes := tl (lh_codes lh), lh_reg_stat := next_code lh OR (lh_reg_stat lh AND LHD_ISWRITE)\<rparr>
      in if next_code lh \<noteq> LHD_OK then lh'
         else if lh_reg_stat lh AND LHD_ISWRITE \<noteq> 0
         then lh'\<lparr>lh_sectors := (lh_sectors lh)(lh_reg_sect lh := lh_buf lh)\<rparr>
         else lh'\<lparr>lh_buf := lh_sectors lh (lh_reg_sect lh)\<rparr>)"
  by (simp add: lhd_card_def next_code_def Let_def)

lemma next_code_upd [simp]:
  "next_code (lh\<lparr>lh_clear := c\<rparr>) = next_code lh" "next_code (lh\<lparr>lh_buf := b\<rparr>) = next_code lh"
  "next_code (lh\<lparr>lh_reg_sect := c\<rparr>) = next_code lh" "next_code (lh\<lparr>lh_reg_stat := c\<rparr>) = next_code lh"
  by (simp_all add: next_code_def)

lemma lhd_op:
  assumes "lhd_inv lh"
  shows "lhd_irq (lhd_card (lh\<lparr>lh_clear := 0, lh_buf := buf, lh_reg_sect := sect, lh_reg_stat := 3\<rparr>)) =
      (lhd_after sect buf lh)\<lparr>lh_clear := 0, lh_done := 1, lh_sectors :=
        (if next_code lh = LHD_OK then (lh_sectors lh)(sect := buf) else lh_sectors lh)\<rparr>" (is ?w)
    and "lhd_irq (lhd_card (lh\<lparr>lh_clear := 0, lh_buf := buf, lh_reg_sect := sect, lh_reg_stat := 1\<rparr>)) =
      (lhd_after sect (if next_code lh = LHD_OK then lh_sectors lh sect else buf) lh)
        \<lparr>lh_clear := 0, lh_done := 1\<rparr>" (is ?r)
proof -
  have st: "lh_done lh = 0" "lh_reg_stat lh = 0" using assms by (simp_all add: lhd_inv_def)
  consider "next_code lh = LHD_OK" | "next_code lh = LHD_INVSECT" | "next_code lh = LHD_MEDIA"
    using next_code_cases [OF assms] by auto
  then have "?w \<and> ?r"
  proof cases
    case 1
    then show ?thesis using st
      by (simp add: lhd_card_eq lhd_irq_def lhd_iodone_def lhd_code_to_errno_def lhd_after_def Let_def)
  next
    case 2
    then show ?thesis using st
      by (simp add: lhd_card_eq lhd_irq_def lhd_iodone_def lhd_code_to_errno_def lhd_after_def code_err_def Let_def)
  next
    case 3
    then show ?thesis using st
      by (simp add: lhd_card_eq lhd_irq_def lhd_iodone_def lhd_code_to_errno_def lhd_after_def code_err_def Let_def)
  qed
  then show ?w ?r by blast+
qed

lemma lhd_after_inv:
  assumes "lhd_inv lh" "length buf = LHD_SECTSIZE"
  shows "lhd_inv (lhd_after sect buf lh)"
    and "lhd_inv ((lhd_after sect buf lh)\<lparr>lh_sectors := (lh_sectors lh)(sect := buf)\<rparr>)"
  using assms by (cases "lh_codes lh"; simp add: lhd_inv_def lhd_after_def)+

text \<open>One sector, read and written.\<close>

lemma lhd_sector_read:
  assumes "lhd_inv lh" "us_rw u = UIO_READ" "LHD_SECTSIZE \<le> us_resid u" "LHD_SECTSIZE \<le> us_good u"
  shows "lhd_sector 1 sect (u, lh) = Some
    (if next_code lh = LHD_OK
     then (Inr (), u\<lparr>us_offset := us_offset u + 512, us_resid := us_resid u - LHD_SECTSIZE,
             us_bytes := us_bytes u @ lh_sectors lh sect, us_good := us_good u - LHD_SECTSIZE\<rparr>,
           lhd_after sect (lh_sectors lh sect) lh)
     else (Inl (code_err (next_code lh)), u, lhd_after sect (lh_buf lh) lh))"
  using assms lhd_op(2) [OF assms(1), where buf = "lh_buf lh" and sect = sect]
  by (auto simp: lhd_sector_def lh_P_def bindP_def getP_def modP_def tryP_def retP_def throwP_def
      assertP_def uiomoveP_def uiomove_s_ok Let_def lhd_inv_def lhd_after_def)

lemma lhd_sector_write:
  assumes "lhd_inv lh" "us_rw u = UIO_WRITE" "LHD_SECTSIZE \<le> us_resid u" "LHD_SECTSIZE \<le> us_good u"
    and "LHD_SECTSIZE \<le> length (us_bytes u)"
  defines "u' \<equiv> u\<lparr>us_offset := us_offset u + 512, us_resid := us_resid u - LHD_SECTSIZE,
             us_bytes := drop LHD_SECTSIZE (us_bytes u), us_good := us_good u - LHD_SECTSIZE\<rparr>"
    and "buf \<equiv> take LHD_SECTSIZE (us_bytes u)"
  shows "lhd_sector 3 sect (u, lh) = Some
    (if next_code lh = LHD_OK
     then (Inr (), u', (lhd_after sect buf lh)\<lparr>lh_sectors := (lh_sectors lh)(sect := buf)\<rparr>)
     else (Inl (code_err (next_code lh)), u', lhd_after sect buf lh))"
proof -
  have "uiomove_s (lh_buf lh) LHD_SECTSIZE u = (Inr buf, u')"
    using assms by (simp add: uiomove_s_ok Let_def lhd_inv_def)
  then show ?thesis
    using assms(1,2) lhd_op(1) [OF assms(1), where buf = buf and sect = sect]
    by (auto simp: lhd_sector_def lh_P_def bindP_def getP_def modP_def tryP_def retP_def throwP_def
        assertP_def uiomoveP_def Let_def lhd_inv_def lhd_after_def)
qed

lemma lhd_io_eq:
  assumes "us_offset u = 512 * int b" "us_resid u = LHD_SECTSIZE * n" "b + n \<le> lh_d_blocks lh"
    and "lh_d_blocks lh < 2 ^ 32"
  shows "lhd_io (u, lh) =
    forP [0..<n] (\<lambda>i. lhd_sector (if us_rw u = UIO_WRITE then 3 else 1) (wrap32 (b + i))) (u, lh)"
proof -
  have "nat (us_offset u div 512 mod 2 ^ 32) = b"
    using assms by (simp add: nat_mod_distrib)
  moreover have "us_offset u mod 512 = 0" "us_resid u div 512 = n" "us_resid u mod 512 = 0"
    using assms by simp_all
  ultimately show ?thesis
    using assms(3,4) by (simp add: lhd_io_def bindP_def getP_def Let_def)
qed

lemma lhd_io_one:
  assumes "us_offset u = 512 * int b" "us_resid u = LHD_SECTSIZE" "b < lh_d_blocks lh" "lh_d_blocks lh < 2 ^ 32"
  shows "lhd_io (u, lh) = lhd_sector (if us_rw u = UIO_WRITE then 3 else 1) b (u, lh)"
proof -
  have b: "b + 1 \<le> lh_d_blocks lh" "b mod 2 ^ 32 = b" using assms by simp_all
  have id: "bindP m retP = m" for m :: "(ustream \<times> lhd, unit) proc"
    by (auto simp: bindP_def retP_def fun_eq_iff split: option.split sum.split)
  show ?thesis
    using lhd_io_eq [of u b 1 lh] assms b by (simp add: id)
qed

text \<open>A request of length zero at the end of a previous one does nothing and succeeds.\<close>

lemma lhd_io_empty:
  assumes "us_offset u = 512 * int b" "us_resid u = 0" "b \<le> lh_d_blocks lh" "lh_d_blocks lh < 2 ^ 32"
  shows "lhd_io (u, lh) = Some (Inr (), u, lh)"
  using lhd_io_eq [of u b 0 lh] assms by (simp add: retP_def)

text \<open>A range of sectors on a card that reports no errors.\<close>

lemma lhd_loop_read:
  assumes "lhd_inv lh" "lh_codes lh = []" "us_rw u = UIO_READ" "LHD_SECTSIZE * n \<le> us_resid u"
    and "LHD_SECTSIZE * n \<le> us_good u" "b + i + n \<le> 2 ^ 32"
  shows "\<exists>lh'. forP [i..<i + n] (\<lambda>i. lhd_sector 1 (wrap32 (b + i))) (u, lh) =
      Some (Inr (), u\<lparr>us_offset := us_offset u + 512 * int n, us_resid := us_resid u - LHD_SECTSIZE * n,
        us_bytes := us_bytes u @ concat (map (lh_sectors lh) [b + i..<b + i + n]),
        us_good := us_good u - LHD_SECTSIZE * n\<rparr>, lh') \<and>
      lhd_inv lh' \<and> lh_sectors lh' = lh_sectors lh \<and> lh_d_blocks lh' = lh_d_blocks lh"
  using assms
proof (induction n arbitrary: i u lh)
  case 0
  then show ?case by (simp add: retP_def)
next
  case (Suc n)
  let ?s = "lh_sectors lh (b + i)"
  let ?u = "u\<lparr>us_offset := us_offset u + 512, us_resid := us_resid u - LHD_SECTSIZE,
             us_bytes := us_bytes u @ ?s, us_good := us_good u - LHD_SECTSIZE\<rparr>"
  let ?lh = "lhd_after (b + i) ?s lh"
  have w: "wrap32 (b + i) = b + i" using Suc.prems(6) by simp
  have nc: "next_code lh = LHD_OK" using Suc.prems(2) by (simp add: next_code_def)
  have one: "lhd_sector 1 (wrap32 (b + i)) (u, lh) = Some (Inr (), ?u, ?lh)"
    using lhd_sector_read [OF Suc.prems(1,3), of "b + i"] Suc.prems(4,5) nc w by simp
  have lh: "lhd_inv ?lh" "lh_codes ?lh = []" "lh_sectors ?lh = lh_sectors lh" "lh_d_blocks ?lh = lh_d_blocks lh"
    using lhd_after_inv(1) [OF Suc.prems(1)] Suc.prems(1,2) by (simp_all add: lhd_inv_def lhd_after_def)
  have up: "[i..<i + Suc n] = i # [Suc i..<Suc i + n]"
    "[b + i..<b + i + Suc n] = (b + i) # [b + Suc i..<b + Suc i + n]" by (simp_all add: upt_rec)
  have "\<exists>lh'. forP [Suc i..<Suc i + n] (\<lambda>i. lhd_sector 1 (wrap32 (b + i))) (?u, ?lh) =
      Some (Inr (), ?u\<lparr>us_offset := us_offset ?u + 512 * int n, us_resid := us_resid ?u - LHD_SECTSIZE * n,
        us_bytes := us_bytes ?u @ concat (map (lh_sectors ?lh) [b + Suc i..<b + Suc i + n]),
        us_good := us_good ?u - LHD_SECTSIZE * n\<rparr>, lh') \<and>
      lhd_inv lh' \<and> lh_sectors lh' = lh_sectors ?lh \<and> lh_d_blocks lh' = lh_d_blocks ?lh"
    using Suc.prems lh(1,2) by (intro Suc.IH) simp_all
  then show ?case unfolding up forP.simps bindP_def one using lh by (auto simp: algebra_simps)
qed

lemma lhd_loop_write:
  assumes "lhd_inv lh" "lh_codes lh = []" "us_rw u = UIO_WRITE" "LHD_SECTSIZE * n \<le> us_resid u"
    and "LHD_SECTSIZE * n \<le> us_good u" "LHD_SECTSIZE * n \<le> length (us_bytes u)" "b + i + n \<le> 2 ^ 32"
  shows "\<exists>lh'. forP [i..<i + n] (\<lambda>i. lhd_sector 3 (wrap32 (b + i))) (u, lh) =
      Some (Inr (), u\<lparr>us_offset := us_offset u + 512 * int n, us_resid := us_resid u - LHD_SECTSIZE * n,
        us_bytes := drop (LHD_SECTSIZE * n) (us_bytes u),
        us_good := us_good u - LHD_SECTSIZE * n\<rparr>, lh') \<and>
      lhd_inv lh' \<and> lh_d_blocks lh' = lh_d_blocks lh \<and>
      (\<forall>k. lh_sectors lh' k = (if b + i \<le> k \<and> k < b + i + n
         then take LHD_SECTSIZE (drop (LHD_SECTSIZE * (k - (b + i))) (us_bytes u)) else lh_sectors lh k))"
  using assms
proof (induction n arbitrary: i u lh)
  case 0
  then show ?case by (auto simp: retP_def)
next
  case (Suc n)
  let ?s = "take LHD_SECTSIZE (us_bytes u)"
  let ?u = "u\<lparr>us_offset := us_offset u + 512, us_resid := us_resid u - LHD_SECTSIZE,
             us_bytes := drop LHD_SECTSIZE (us_bytes u), us_good := us_good u - LHD_SECTSIZE\<rparr>"
  let ?lh = "(lhd_after (b + i) ?s lh)\<lparr>lh_sectors := (lh_sectors lh)(b + i := ?s)\<rparr>"
  have w: "wrap32 (b + i) = b + i" using Suc.prems(7) by simp
  have nc: "next_code lh = LHD_OK" using Suc.prems(2) by (simp add: next_code_def)
  have one: "lhd_sector 3 (wrap32 (b + i)) (u, lh) = Some (Inr (), ?u, ?lh)"
    using lhd_sector_write [OF Suc.prems(1,3), of "b + i"] Suc.prems(4,5,6) nc w by simp
  have lh: "lhd_inv ?lh" "lh_codes ?lh = []"
    using lhd_after_inv(2) [OF Suc.prems(1)] Suc.prems(2,6) by (simp_all add: lhd_after_def)
  have up: "[i..<i + Suc n] = i # [Suc i..<Suc i + n]" by (simp add: upt_rec)
  have prem: "us_rw ?u = UIO_WRITE" "LHD_SECTSIZE * n \<le> us_resid ?u" "LHD_SECTSIZE * n \<le> us_good ?u"
    "LHD_SECTSIZE * n \<le> length (us_bytes ?u)" "b + Suc i + n \<le> 2 ^ 32"
    using Suc.prems by simp_all
  obtain lh' where lh': "forP [Suc i..<Suc i + n] (\<lambda>i. lhd_sector 3 (wrap32 (b + i))) (?u, ?lh) =
      Some (Inr (), ?u\<lparr>us_offset := us_offset ?u + 512 * int n, us_resid := us_resid ?u - LHD_SECTSIZE * n,
        us_bytes := drop (LHD_SECTSIZE * n) (us_bytes ?u), us_good := us_good ?u - LHD_SECTSIZE * n\<rparr>, lh')"
      "lhd_inv lh'" "lh_d_blocks lh' = lh_d_blocks ?lh"
      "\<forall>k. lh_sectors lh' k = (if b + Suc i \<le> k \<and> k < b + Suc i + n
         then take LHD_SECTSIZE (drop (LHD_SECTSIZE * (k - (b + Suc i))) (us_bytes ?u)) else lh_sectors ?lh k)"
    using Suc.IH [OF lh prem] by blast
  have "lh_sectors lh' k = (if b + i \<le> k \<and> k < b + i + Suc n
         then take LHD_SECTSIZE (drop (LHD_SECTSIZE * (k - (b + i))) (us_bytes u)) else lh_sectors lh k)" for k
  proof (cases "b + Suc i \<le> k \<and> k < b + Suc i + n")
    case True
    then have "LHD_SECTSIZE * (k - (b + i)) = LHD_SECTSIZE * (k - (b + Suc i)) + LHD_SECTSIZE" by arith
    then show ?thesis using True lh'(4) by (simp add: add.commute)
  next
    case False
    then show ?thesis using lh'(4) by (auto simp: not_le not_less)
  qed
  moreover have "lh_d_blocks lh' = lh_d_blocks lh" using lh'(3) by (simp add: lhd_after_def)
  ultimately show ?case unfolding up forP.simps bindP_def one using lh'(1,2)
    by (auto simp: algebra_simps)
qed

section \<open>Properties\<close>

text \<open>
  C22: A transfer of \<open>n\<close> whole sectors inside the disk, on a card that reports no errors. The
  driver never blocks and leaves the device free again. Reading delivers the contents of the
  sectors in order and leaves the medium alone; writing stores the bytes, sector by sector, and
  touches no other sector. The descriptor is advanced by \<open>512 * n\<close>.
\<close>

theorem lhd_io_transfers:
  assumes "lhd_inv lh" "lh_codes lh = []" "us_offset u = 512 * int b" "us_resid u = 512 * n"
    and "us_resid u \<le> us_good u" "us_rw u = UIO_WRITE \<longrightarrow> us_resid u \<le> length (us_bytes u)"
    and "b + n \<le> lh_d_blocks lh" "lh_d_blocks lh < 2 ^ 32"
  shows "\<exists>u' lh'. lhd_io (u, lh) = Some (Inr (), u', lh') \<and> lhd_inv lh' \<and>
    us_offset u' = us_offset u + 512 * int n \<and> us_resid u' = 0 \<and>
    (us_rw u = UIO_READ \<longrightarrow> us_bytes u' = us_bytes u @ concat (map (lh_sectors lh) [b..<b + n]) \<and>
       lh_sectors lh' = lh_sectors lh) \<and>
    (us_rw u = UIO_WRITE \<longrightarrow> (\<forall>k. lh_sectors lh' k =
       (if b \<le> k \<and> k < b + n then take 512 (drop (512 * (k - b)) (us_bytes u)) else lh_sectors lh k)))"
proof (cases "us_rw u")
  case UIO_READ
  have "b + 0 + n \<le> 2 ^ 32" using assms(7,8) by simp
  then show ?thesis
    using lhd_loop_read [of lh u n b 0] lhd_io_eq [of u b n lh] assms UIO_READ by auto
next
  case UIO_WRITE
  have "b + 0 + n \<le> 2 ^ 32" using assms(7,8) by simp
  then show ?thesis
    using lhd_loop_write [of lh u n b 0] lhd_io_eq [of u b n lh] assms UIO_WRITE by auto
qed

definition lhd0 :: "nat list \<Rightarrow> lhd" where
  "lhd0 codes = \<lparr>lh_d_blocks = 100, lh_sectors = (\<lambda>b. replicate 512 (of_nat b)), lh_buf = replicate 512 0,
     lh_reg_stat = 0, lh_reg_sect = 0, lh_result = None, lh_clear = 1, lh_done = 0, lh_codes = codes\<rparr>"

theorem lhd_io_transfers_witness:
  "\<exists>u' lh'. lhd_io (uio_kinit_s [] 1024 2048 UIO_READ, lhd0 []) = Some (Inr (), u', lh') \<and>
     us_bytes u' = replicate 512 4 @ replicate 512 5"
  using lhd_io_transfers [of "lhd0 []" "uio_kinit_s [] 1024 2048 UIO_READ" 4 2]
  by (auto simp: lhd_inv_def lhd0_def uio_kinit_s_def upt_rec)

end
