(* ===== verification/Bitmap.thy ===== *)
theory Bitmap
  imports Os_Prelude
begin

text \<open>
  The fixed-size array of bits of \<open>kern/lib/bitmap.c\<close>: the map of free disk blocks of a
  file system and of free physical pages. A bitmap holds \<open>nbits\<close> bits in an array of bytes;
  the bits left over in the last byte are marked in use when the map is created, so the
  allocator never hands them out.

  The data refinement is to a set of numbers below \<open>nbits\<close> (\<open>used\<close>). The interface that the
  clients of a bitmap rely on is the locale \<open>free_map\<close>, interpreted on the code's model.
\<close>

section \<open>Data and operations\<close>

abbreviation (input) BITS_PER_WORD :: nat where "BITS_PER_WORD \<equiv> 8"
abbreviation (input) WORD_ALLBITS :: "8 word" where "WORD_ALLBITS \<equiv> 0xff"

record bitmap =
  nbits :: nat
  v :: "8 word list"

text \<open>
  \<open>bitmap_create\<close> calls \<open>kmalloc\<close> twice; the two flags say whether each call succeeded.
  The result is \<open>NULL\<close> (\<open>Some None\<close>) when one of them fails.
\<close>

definition mark_leftover :: "nat \<Rightarrow> 8 word \<Rightarrow> 8 word" where
  "mark_leftover overbits w = fold (\<lambda>j w. w OR push_bit j 1) [overbits..<BITS_PER_WORD] w"

definition bitmap_create :: "bool \<Rightarrow> bool \<Rightarrow> nat \<Rightarrow> bitmap option option" where
  "bitmap_create ok1 ok2 n =
     (let words = DIVROUNDUP n BITS_PER_WORD in
      if \<not> ok1 then Some None
      else if \<not> ok2 then Some None
      else
        let b = \<lparr>nbits = n, v = replicate words 0\<rparr> in
        if words > n div BITS_PER_WORD then
          let ix = words - 1; overbits = n - ix * BITS_PER_WORD in
          do {
            kassert (n div BITS_PER_WORD = words - 1);
            kassert (overbits > 0 \<and> overbits < BITS_PER_WORD);
            w \<leftarrow> aget (v b) ix;
            Some (Some (b\<lparr>v := (v b)[ix := mark_leftover overbits w]\<rparr>))
          }
        else Some (Some b))"

definition bitmap_getdata :: "bitmap \<Rightarrow> 8 word list" where
  "bitmap_getdata b = v b"

text \<open>
  The two search loops of \<open>bitmap_alloc\<close>: the first byte that is not all ones, then the
  first clear bit in it. The inner loop always finds one; where it does not, the code
  reaches \<open>KASSERT(0)\<close>.
\<close>

definition bitmap_alloc :: "bitmap \<Rightarrow> (errno + nat \<times> bitmap) option" where
  "bitmap_alloc b =
     (let maxix = DIVROUNDUP (nbits b) BITS_PER_WORD in
      case find (\<lambda>ix. v b ! ix \<noteq> WORD_ALLBITS) [0..<maxix] of
        None \<Rightarrow> Some (Inl ENOSPC)
      | Some ix \<Rightarrow>
          (case find (\<lambda>offset. v b ! ix AND push_bit offset 1 = 0) [0..<BITS_PER_WORD] of
             None \<Rightarrow> None
           | Some offset \<Rightarrow>
               let b' = b\<lparr>v := (v b)[ix := v b ! ix OR push_bit offset 1]\<rparr>;
                   index = ix * BITS_PER_WORD + offset
               in do { kassert (index < nbits b); Some (Inr (index, b')) }))"

definition bitmap_translate :: "nat \<Rightarrow> nat \<times> 8 word" where
  "bitmap_translate bitno = (bitno div BITS_PER_WORD, push_bit (bitno mod BITS_PER_WORD) 1)"

definition bitmap_mark :: "bitmap \<Rightarrow> nat \<Rightarrow> bitmap option" where
  "bitmap_mark b index = do {
     kassert (index < nbits b);
     let (ix, mask) = bitmap_translate index;
     w \<leftarrow> aget (v b) ix;
     kassert (w AND mask = 0);
     Some (b\<lparr>v := (v b)[ix := w OR mask]\<rparr>)
   }"

definition bitmap_unmark :: "bitmap \<Rightarrow> nat \<Rightarrow> bitmap option" where
  "bitmap_unmark b index = do {
     kassert (index < nbits b);
     let (ix, mask) = bitmap_translate index;
     w \<leftarrow> aget (v b) ix;
     kassert (w AND mask \<noteq> 0);
     Some (b\<lparr>v := (v b)[ix := w AND NOT mask]\<rparr>)
   }"

text \<open>\<open>bitmap_isset\<close> returns the masked byte; its callers test it against 0.\<close>

definition bitmap_isset :: "bitmap \<Rightarrow> nat \<Rightarrow> 8 word option" where
  "bitmap_isset b index = do {
     let (ix, mask) = bitmap_translate index;
     w \<leftarrow> aget (v b) ix;
     Some (w AND mask)
   }"

section \<open>Invariant and abstraction\<close>

definition nth_bit :: "bitmap \<Rightarrow> nat \<Rightarrow> bool" where
  "nth_bit b i = bit (v b ! (i div 8)) (i mod 8)"

definition bitmap_inv :: "bitmap \<Rightarrow> bool" where
  "bitmap_inv b \<longleftrightarrow>
     nbits b + 8 \<le> 2 ^ 32 \<and>
     length (v b) = DIVROUNDUP (nbits b) BITS_PER_WORD \<and>
     (\<forall>i\<in>set [nbits b..<8 * length (v b)]. nth_bit b i)"

definition used :: "bitmap \<Rightarrow> nat set" where
  "used b = {i. i < nbits b \<and> nth_bit b i}"

lemma bitmap_inv_length:
  assumes "bitmap_inv b"
  shows "nbits b \<le> 8 * length (v b)" and "8 * length (v b) < nbits b + 8"
  using assms DIVROUNDUP_bounds [of 8 "nbits b"] by (auto simp: bitmap_inv_def)

lemma bitmap_inv_index:
  assumes "bitmap_inv b" and "i < nbits b"
  shows "i div 8 < length (v b)"
  using bitmap_inv_length(1) [OF assms(1)] assms(2) by linarith

lemma nth_bit_set:
  assumes "i div 8 < length (v b)"
  shows "nth_bit (b\<lparr>v := (v b)[i div 8 := v b ! (i div 8) OR 2 ^ (i mod 8)]\<rparr>) j \<longleftrightarrow>
           nth_bit b j \<or> j = i"
proof -
  have same: "j = i" if "j div 8 = i div 8" and "j mod 8 = i mod 8"
    using that by (metis div_mult_mod_eq)
  show ?thesis
    using assms same by (cases "j div 8 = i div 8") (auto simp: nth_bit_def bit_or_mask1)
qed

lemma nth_bit_clear:
  assumes "i div 8 < length (v b)"
  shows "nth_bit (b\<lparr>v := (v b)[i div 8 := v b ! (i div 8) AND NOT (2 ^ (i mod 8))]\<rparr>) j \<longleftrightarrow>
           nth_bit b j \<and> j \<noteq> i"
proof -
  have same: "j = i" if "j div 8 = i div 8" and "j mod 8 = i mod 8"
    using that by (metis div_mult_mod_eq)
  show ?thesis
    using assms same by (cases "j div 8 = i div 8") (auto simp: nth_bit_def bit_andnot_mask1)
qed

lemma byte_full_iff: "v b ! ix = WORD_ALLBITS \<longleftrightarrow> (\<forall>n<8. nth_bit b (8 * ix + n))"
  by (simp add: all_bits_set nth_bit_def)

lemma byte_mask_iff: "n < 8 \<Longrightarrow> v b ! ix AND 2 ^ n = 0 \<longleftrightarrow> \<not> nth_bit b (8 * ix + n)"
  by (simp add: and_mask1_eq_0_iff nth_bit_def)

section \<open>What each operation does\<close>

lemma bit_mark_leftover: "bit (mark_leftover k w) m \<longleftrightarrow> bit w m \<or> (k \<le> m \<and> m < 8)"
proof -
  have fold_or: "bit (fold (\<lambda>j w. w OR push_bit j 1) js w) m \<longleftrightarrow>
      bit w m \<or> (m \<in> set js \<and> m < 8)" for js
    by (induction js arbitrary: w) (auto simp: bit_or_mask1)
  show ?thesis
    unfolding mark_leftover_def fold_or by auto
qed

lemma bitmap_create_spec:
  assumes "n + 8 \<le> 2 ^ 32"
  shows "\<exists>b. bitmap_create True True n = Some (Some b) \<and> bitmap_inv b \<and> nbits b = n \<and> used b = {}"
proof -
  define words where "words = DIVROUNDUP n 8"
  have wb: "n \<le> 8 * words" "8 * words < n + 8"
    using DIVROUNDUP_bounds [of 8 n] assms by (simp_all add: words_def)
  show ?thesis
  proof (cases "words > n div 8")
    case True
    define ov where "ov = n - (words - 1) * 8"
    define b where "b = \<lparr>nbits = n, v = (replicate words 0)[words - 1 := mark_leftover ov 0]\<rparr>"
    from True wb have k: "n div 8 = words - 1" "0 < ov" "ov < 8" "words > 0"
      by (auto simp: ov_def)
    from k have split: "n = 8 * (words - 1) + ov"
      by (auto simp: ov_def)
    have bit_b: "nth_bit b i \<longleftrightarrow> n \<le> i" if "i < 8 * words" for i
    proof (cases "i div 8 = words - 1")
      case True
      then have "i = 8 * (words - 1) + i mod 8"
        using div_mult_mod_eq [of i 8] by simp
      then have "ov \<le> i mod 8 \<longleftrightarrow> n \<le> i"
        using split by linarith
      with True k show ?thesis
        by (simp add: nth_bit_def b_def bit_mark_leftover)
    next
      case False
      with that have "i div 8 < words - 1" by linarith
      then have "i < n" using split by linarith
      with False \<open>i div 8 < words - 1\<close> show ?thesis
        by (simp add: nth_bit_def b_def)
    qed
    have "bitmap_create True True n = Some (Some b)"
      using k True
      by (simp add: bitmap_create_def b_def ov_def words_def [symmetric] Let_def mult.commute)
    moreover have "bitmap_inv b"
      using assms bit_b by (simp add: bitmap_inv_def b_def words_def)
    moreover have "used b = {}"
      using bit_b wb by (auto simp: used_def b_def)
    ultimately show ?thesis by (auto simp: b_def)
  next
    case False
    define b where "b = \<lparr>nbits = n, v = replicate words (0 :: 8 word)\<rparr>"
    from False wb have eq: "n = 8 * words" by linarith
    have "bitmap_create True True n = Some (Some b)"
      using False by (simp add: bitmap_create_def b_def words_def Let_def)
    moreover have "bitmap_inv b"
    proof -
      have "length (v b) = DIVROUNDUP (nbits b) 8"
        by (simp add: b_def words_def)
      moreover have "nbits b = 8 * length (v b)"
        by (simp add: b_def eq)
      ultimately show ?thesis
        using assms unfolding bitmap_inv_def by (auto simp: b_def)
    qed
    moreover have "used b = {}"
      using eq by (auto simp: used_def b_def nth_bit_def)
    ultimately show ?thesis by (auto simp: b_def)
  qed
qed

text \<open>Setting and clearing one bit, on the abstraction.\<close>

definition set_bit_at :: "bitmap \<Rightarrow> nat \<Rightarrow> bitmap" where
  "set_bit_at b i = b\<lparr>v := (v b)[i div 8 := v b ! (i div 8) OR 2 ^ (i mod 8)]\<rparr>"

definition clear_bit_at :: "bitmap \<Rightarrow> nat \<Rightarrow> bitmap" where
  "clear_bit_at b i = b\<lparr>v := (v b)[i div 8 := v b ! (i div 8) AND NOT (2 ^ (i mod 8))]\<rparr>"

lemma set_bit_at_spec:
  assumes "bitmap_inv b" and "i < nbits b"
  shows "bitmap_inv (set_bit_at b i)" and "used (set_bit_at b i) = insert i (used b)"
    and "nbits (set_bit_at b i) = nbits b"
  using assms nth_bit_set [OF bitmap_inv_index [OF assms]]
  by (auto simp: set_bit_at_def bitmap_inv_def used_def)

lemma clear_bit_at_spec:
  assumes "bitmap_inv b" and "i < nbits b"
  shows "bitmap_inv (clear_bit_at b i)" and "used (clear_bit_at b i) = used b - {i}"
    and "nbits (clear_bit_at b i) = nbits b"
  using assms nth_bit_clear [OF bitmap_inv_index [OF assms]]
  by (auto simp: clear_bit_at_def bitmap_inv_def used_def)

lemma bitmap_mark_spec:
  assumes "bitmap_inv b"
  shows "bitmap_mark b i =
    (if i < nbits b \<and> i \<notin> used b then Some (set_bit_at b i) else None)"
  using assms bitmap_inv_index [OF assms, of i]
  by (auto simp: bitmap_mark_def bitmap_translate_def set_bit_at_def used_def nth_bit_def
      and_mask1_eq_0_iff)

lemma bitmap_unmark_spec:
  assumes "bitmap_inv b"
  shows "bitmap_unmark b i = (if i \<in> used b then Some (clear_bit_at b i) else None)"
  using assms bitmap_inv_index [OF assms, of i]
  by (auto simp: bitmap_unmark_def bitmap_translate_def clear_bit_at_def used_def nth_bit_def
      and_mask1_eq_0_iff)

lemma bitmap_isset_spec:
  assumes "bitmap_inv b" and "i < nbits b"
  shows "map_option (\<lambda>w. w \<noteq> 0) (bitmap_isset b i) = Some (i \<in> used b)"
  using assms bitmap_inv_index [OF assms]
  by (simp add: bitmap_isset_def bitmap_translate_def used_def nth_bit_def and_mask1_eq_0_iff)

lemma bitmap_alloc_full:
  assumes "bitmap_inv b" and "{..<nbits b} \<subseteq> used b"
  shows "bitmap_alloc b = Some (Inl ENOSPC)"
proof -
  have "nth_bit b i" if "i < 8 * length (v b)" for i
    using assms that by (cases "i < nbits b") (auto simp: bitmap_inv_def used_def)
  then have "v b ! ix = 0xff" if "ix < length (v b)" for ix
    using that by (auto simp: byte_full_iff)
  then have "find (\<lambda>ix. v b ! ix \<noteq> 0xff) [0..<DIVROUNDUP (nbits b) 8] = None"
    using assms(1) by (simp add: find_upt_None bitmap_inv_def)
  then show ?thesis by (simp add: bitmap_alloc_def)
qed

lemma bitmap_alloc_free:
  assumes inv: "bitmap_inv b" and free: "\<not> {..<nbits b} \<subseteq> used b"
  obtains i where "bitmap_alloc b = Some (Inr (i, set_bit_at b i))"
    and "i < nbits b" and "i \<notin> used b" and "\<forall>j<i. j \<in> used b"
proof -
  have len: "length (v b) = DIVROUNDUP (nbits b) 8"
    using inv by (simp add: bitmap_inv_def)
  from free obtain k where k: "k < nbits b" "\<not> nth_bit b k"
    by (auto simp: used_def)
  have kk: "8 * (k div 8) + k mod 8 = k" by simp
  have "v b ! (k div 8) \<noteq> 0xff"
    using k(2) kk by (metis byte_full_iff mod_less_divisor zero_less_numeral)
  with bitmap_inv_index [OF inv k(1)]
  have "find (\<lambda>ix. v b ! ix \<noteq> 0xff) [0..<length (v b)] \<noteq> None"
    unfolding find_upt_None by blast
  then obtain ix where ix: "find (\<lambda>ix. v b ! ix \<noteq> 0xff) [0..<length (v b)] = Some ix"
    by blast
  then have ix': "ix < length (v b)" "v b ! ix \<noteq> 0xff" "\<forall>j<ix. v b ! j = 0xff"
    by (auto simp: find_upt_Some)
  then obtain n where n: "n < 8" "\<not> nth_bit b (8 * ix + n)"
    by (auto simp: byte_full_iff)
  then have "find (\<lambda>off. v b ! ix AND 2 ^ off = 0) [0..<8] \<noteq> None"
    unfolding find_upt_None using byte_mask_iff by blast
  then obtain off where off: "find (\<lambda>off. v b ! ix AND 2 ^ off = 0) [0..<8] = Some off"
    by blast
  then have off': "off < 8" "\<not> nth_bit b (8 * ix + off)" "\<forall>j<off. nth_bit b (8 * ix + j)"
    by (auto simp: find_upt_Some byte_mask_iff)
  define i where "i = 8 * ix + off"
  have i: "i div 8 = ix" "i mod 8 = off" using off'(1) by (auto simp: i_def)
  have small: "nth_bit b j" if "j < i" for j
  proof (cases "j div 8 = ix")
    case True
    then have "j = 8 * ix + j mod 8"
      using mult_div_mod_eq [of 8 j] by simp
    moreover from this that have "j mod 8 < off"
      unfolding i_def by linarith
    ultimately show ?thesis using off'(3) by metis
  next
    case False
    have "j div 8 \<le> i div 8"
      by (rule div_le_mono) (use that in simp)
    with False i(1) have "j div 8 < ix" by simp
    with ix' have "v b ! (j div 8) = 0xff" by simp
    then have "nth_bit b (8 * (j div 8) + j mod 8)"
      unfolding byte_full_iff by (rule allE [of _ "j mod 8"]) simp
    then show ?thesis by simp
  qed
  have "i < 8 * length (v b)"
    using ix'(1) off'(1) by (auto simp: i_def)
  then have lt: "i < nbits b"
    using inv off'(2) unfolding bitmap_inv_def i_def [symmetric] by (force simp: not_le)
  have "bitmap_alloc b = Some (Inr (i, set_bit_at b i))"
    using ix off lt len off'(1) by (simp add: bitmap_alloc_def set_bit_at_def i_def mult.commute)
  moreover have "i \<notin> used b" using off'(2) by (simp add: used_def i_def)
  moreover have "\<forall>j<i. j \<in> used b" using small lt by (auto simp: used_def)
  ultimately show ?thesis using that lt by blast
qed

section \<open>The interface of a free map\<close>

text \<open>
  What the file system and the memory manager rely on: a finite map of numbers, an
  allocator that hands out a free one or reports that there is none, and marking,
  unmarking and testing that stop the kernel exactly on misuse.
\<close>

locale free_map =
  fixes invar :: "'m \<Rightarrow> bool"
    and size_of :: "'m \<Rightarrow> nat"
    and taken :: "'m \<Rightarrow> nat set"
    and alloc :: "'m \<Rightarrow> (errno + nat \<times> 'm) option"
    and mark :: "'m \<Rightarrow> nat \<Rightarrow> 'm option"
    and unmark :: "'m \<Rightarrow> nat \<Rightarrow> 'm option"
    and isset :: "'m \<Rightarrow> nat \<Rightarrow> bool option"
  assumes taken_bound: "invar m \<Longrightarrow> taken m \<subseteq> {..<size_of m}"
    and alloc_full: "invar m \<Longrightarrow> {..<size_of m} \<subseteq> taken m \<Longrightarrow> alloc m = Some (Inl ENOSPC)"
    and alloc_free: "invar m \<Longrightarrow> \<not> {..<size_of m} \<subseteq> taken m \<Longrightarrow>
      \<exists>i m'. alloc m = Some (Inr (i, m')) \<and> i < size_of m \<and> i \<notin> taken m \<and>
        taken m' = insert i (taken m) \<and> size_of m' = size_of m \<and> invar m'"
    and mark_ok: "invar m \<Longrightarrow> i < size_of m \<Longrightarrow> i \<notin> taken m \<Longrightarrow>
      \<exists>m'. mark m i = Some m' \<and> taken m' = insert i (taken m) \<and> size_of m' = size_of m \<and> invar m'"
    and unmark_ok: "invar m \<Longrightarrow> i \<in> taken m \<Longrightarrow>
      \<exists>m'. unmark m i = Some m' \<and> taken m' = taken m - {i} \<and> size_of m' = size_of m \<and> invar m'"
    and unmark_free: "invar m \<Longrightarrow> i \<notin> taken m \<Longrightarrow> unmark m i = None"
    and isset_ok: "invar m \<Longrightarrow> i < size_of m \<Longrightarrow> isset m i = Some (i \<in> taken m)"
begin

lemma taken_finite: "invar m \<Longrightarrow> finite (taken m)"
  using taken_bound finite_subset by blast

lemma alloc_cases:
  assumes "invar m"
  obtains (full) "alloc m = Some (Inl ENOSPC)" "taken m = {..<size_of m}"
  | (got) i m' where "alloc m = Some (Inr (i, m'))" "i < size_of m" "i \<notin> taken m"
      "taken m' = insert i (taken m)" "size_of m' = size_of m" "invar m'"
  using assms alloc_full alloc_free taken_bound by (metis subset_antisym)

lemma alloc_isset:
  assumes "invar m" and "alloc m = Some (Inr (i, m'))"
  shows "invar m' \<and> i < size_of m \<and> i \<notin> taken m \<and> taken m' = insert i (taken m) \<and>
    size_of m' = size_of m \<and> isset m' i = Some True"
  using assms(1)
proof (cases rule: alloc_cases)
  case full
  with assms(2) show ?thesis by simp
next
  case (got i' m'')
  with assms(2) show ?thesis by (simp add: isset_ok)
qed

text \<open>A number that is allocated and freed leaves the set of taken numbers as it was.\<close>

lemma alloc_unmark:
  assumes "invar m" and "alloc m = Some (Inr (i, m'))"
  obtains m'' where "unmark m' i = Some m''" "taken m'' = taken m" "size_of m'' = size_of m" "invar m''"
proof -
  note a = alloc_isset [OF assms]
  with unmark_ok [of m' i] obtain m'' where
    "unmark m' i = Some m''" "taken m'' = taken m' - {i}" "size_of m'' = size_of m'" "invar m''"
    by auto
  with a that show thesis by simp
qed

text \<open>The allocator serves exactly as many requests as there are free numbers.\<close>

lemma alloc_succeeds_iff:
  assumes "invar m"
  shows "(\<exists>i m'. alloc m = Some (Inr (i, m'))) \<longleftrightarrow> card (taken m) < size_of m"
  using assms
proof (cases rule: alloc_cases)
  case full
  then show ?thesis by simp
next
  case (got i m')
  then have "taken m \<subset> {..<size_of m}"
    using taken_bound [OF assms] by blast
  then have "card (taken m) < card {..<size_of m}"
    by (intro psubset_card_mono) simp_all
  with got show ?thesis by auto
qed

end

interpretation bm: free_map bitmap_inv nbits used bitmap_alloc bitmap_mark bitmap_unmark
  "\<lambda>b i. map_option (\<lambda>w. w \<noteq> 0) (bitmap_isset b i)"
proof
  fix m assume inv: "bitmap_inv m"
  show "used m \<subseteq> {..<nbits m}" by (auto simp: used_def)
  show "bitmap_alloc m = Some (Inl ENOSPC)" if "{..<nbits m} \<subseteq> used m"
    using bitmap_alloc_full [OF inv that] .
  show "\<exists>i m'. bitmap_alloc m = Some (Inr (i, m')) \<and> i < nbits m \<and> i \<notin> used m \<and>
      used m' = insert i (used m) \<and> nbits m' = nbits m \<and> bitmap_inv m'"
    if "\<not> {..<nbits m} \<subseteq> used m"
    by (rule bitmap_alloc_free [OF inv that]) (use inv set_bit_at_spec in blast)
  fix i
  show "\<exists>m'. bitmap_mark m i = Some m' \<and> used m' = insert i (used m) \<and> nbits m' = nbits m \<and> bitmap_inv m'"
    if "i < nbits m" "i \<notin> used m"
    using that inv by (auto simp: bitmap_mark_spec set_bit_at_spec)
  show "\<exists>m'. bitmap_unmark m i = Some m' \<and> used m' = used m - {i} \<and> nbits m' = nbits m \<and> bitmap_inv m'"
    if "i \<in> used m"
  proof -
    from that have "i < nbits m" by (simp add: used_def)
    with that inv show ?thesis by (auto simp: bitmap_unmark_spec clear_bit_at_spec)
  qed
  show "bitmap_unmark m i = None" if "i \<notin> used m"
    using that inv by (simp add: bitmap_unmark_spec)
  show "map_option (\<lambda>w. w \<noteq> 0) (bitmap_isset m i) = Some (i \<in> used m)" if "i < nbits m"
    using bitmap_isset_spec [OF inv that] .
qed

section \<open>Properties\<close>

text \<open>
  C10: on a well-formed map \<open>bitmap_alloc\<close> never fails an assertion. It reports \<open>ENOSPC\<close>
  exactly when every bit below \<open>nbits\<close> is in use; otherwise it returns the lowest free
  number, marks it and nothing else, and keeps the map well formed.
\<close>

theorem bitmap_alloc_correct:
  assumes "bitmap_inv b"
  shows "({..<nbits b} \<subseteq> used b \<and> bitmap_alloc b = Some (Inl ENOSPC)) \<or>
    (\<exists>i b'. bitmap_alloc b = Some (Inr (i, b')) \<and> i < nbits b \<and> i \<notin> used b \<and> {..<i} \<subseteq> used b \<and>
       used b' = insert i (used b) \<and> nbits b' = nbits b \<and> bitmap_inv b')"
proof (cases "{..<nbits b} \<subseteq> used b")
  case True
  with assms show ?thesis by (simp add: bitmap_alloc_full)
next
  case False
  obtain i where "bitmap_alloc b = Some (Inr (i, set_bit_at b i))" "i < nbits b" "i \<notin> used b"
    "\<forall>j<i. j \<in> used b"
    using bitmap_alloc_free [OF assms False] by blast
  with assms show ?thesis
    by (auto intro!: exI [of _ i] exI [of _ "set_bit_at b i"] simp: set_bit_at_spec)
qed

theorem bitmap_alloc_correct_witness:
  "let b = \<lparr>nbits = 10, v = [0x05, 0xfc]\<rparr> in
   bitmap_inv b \<and>
   (({..<nbits b} \<subseteq> used b \<and> bitmap_alloc b = Some (Inl ENOSPC)) \<or>
    (\<exists>i b'. bitmap_alloc b = Some (Inr (i, b')) \<and> i < nbits b \<and> i \<notin> used b \<and> {..<i} \<subseteq> used b \<and>
       used b' = insert i (used b) \<and> nbits b' = nbits b \<and> bitmap_inv b'))"
proof -
  have "bitmap_inv \<lparr>nbits = 10, v = [0x05, 0xfc]\<rparr>" 
    by (simp add: bitmap_inv_def nth_bit_def DIVROUNDUP_def bit_numeral_rec)
  with bitmap_alloc_correct [OF this] show ?thesis unfolding Let_def by blast
qed

text \<open>A run of \<open>k\<close> allocations.\<close>

fun alloc_many :: "nat \<Rightarrow> bitmap \<Rightarrow> (nat list \<times> bitmap) option" where
  "alloc_many 0 b = Some ([], b)"
| "alloc_many (Suc k) b =
     (case bitmap_alloc b of
        Some (Inr (i, b')) \<Rightarrow> map_option (\<lambda>(is, b''). (i # is, b'')) (alloc_many k b')
      | _ \<Rightarrow> None)"

lemma alloc_many_prefix:
  assumes "bitmap_inv b" and "used b = {..<m}" and "m + k \<le> nbits b"
  shows "\<exists>b'. alloc_many k b = Some ([m..<m + k], b') \<and> bitmap_inv b' \<and>
    used b' = {..<m + k} \<and> nbits b' = nbits b"
  using assms
proof (induction k arbitrary: b m)
  case 0
  then show ?case by auto
next
  case (Suc k)
  then have "\<not> {..<nbits b} \<subseteq> used b" by auto
  then obtain i where i: "bitmap_alloc b = Some (Inr (i, set_bit_at b i))" "i < nbits b"
    "i \<notin> used b" "\<forall>j<i. j \<in> used b"
    using bitmap_alloc_free [OF Suc.prems(1)] by blast
  then have "m \<le> i" using Suc.prems(2) by simp
  moreover have "i \<le> m" using i(4) Suc.prems(2) by (metis lessThan_iff less_irrefl not_le)
  ultimately have im: "i = m" by simp
  have m: "m < nbits b" using Suc.prems(3) by simp
  note spec = set_bit_at_spec [OF Suc.prems(1) m]
  have "used (set_bit_at b m) = {..<Suc m}"
    using spec(2) Suc.prems(2) by (simp add: lessThan_Suc)
  then obtain b' where b': "alloc_many k (set_bit_at b m) = Some ([Suc m..<Suc m + k], b')"
    "bitmap_inv b'" "used b' = {..<Suc m + k}" "nbits b' = nbits b"
    using Suc.IH [OF spec(1)] spec(3) Suc.prems(3) by fastforce
  have "alloc_many (Suc k) b = Some (m # [Suc m..<Suc m + k], b')"
    using i(1) b'(1) unfolding im by simp
  moreover have "m # [Suc m..<Suc m + k] = [m..<m + Suc k]"
    by (simp add: upt_conv_Cons)
  ultimately show ?case using b' by auto
qed

text \<open>
  C31: a map created for \<open>n\<close> bits serves exactly \<open>n\<close> allocations, handing out 0 to
  \<open>n - 1\<close> in order, and then reports \<open>ENOSPC\<close>: the leftover bits of the last byte are
  never handed out and no number is handed out twice.
\<close>

theorem bitmap_create_alloc_all:
  assumes "n + 8 \<le> 2 ^ 32"
  shows "\<exists>b b'. bitmap_create True True n = Some (Some b) \<and>
    alloc_many n b = Some ([0..<n], b') \<and> bitmap_alloc b' = Some (Inl ENOSPC)"
proof -
  from bitmap_create_spec [OF assms] obtain b where
    b: "bitmap_create True True n = Some (Some b)" "bitmap_inv b" "nbits b = n" "used b = {}"
    by blast
  with alloc_many_prefix [of b 0 n] obtain b' where
    "alloc_many n b = Some ([0..<n], b')" "bitmap_inv b'" "used b' = {..<n}" "nbits b' = n"
    by auto
  with b bitmap_alloc_full [of b'] show ?thesis by auto
qed

theorem bitmap_create_alloc_all_witness:
  "\<exists>b b'. bitmap_create True True 13 = Some (Some b) \<and>
    alloc_many 13 b = Some ([0..<13], b') \<and> bitmap_alloc b' = Some (Inl ENOSPC)"
  by (rule bitmap_create_alloc_all) simp

text \<open>
  C32: \<open>bitmap_mark\<close> stops the kernel exactly on a number that is out of range or already
  marked; otherwise the number is then reported set, and \<open>bitmap_unmark\<close> gives back the
  map as it was, byte for byte.
\<close>

theorem bitmap_mark_unmark:
  assumes "bitmap_inv b"
  shows "(bitmap_mark b i = None \<longleftrightarrow> nbits b \<le> i \<or> i \<in> used b) \<and>
    (\<forall>b'. bitmap_mark b i = Some b' \<longrightarrow>
       map_option (\<lambda>w. w \<noteq> 0) (bitmap_isset b' i) = Some True \<and> bitmap_unmark b' i = Some b)"
proof (intro conjI allI impI)
  show "bitmap_mark b i = None \<longleftrightarrow> nbits b \<le> i \<or> i \<in> used b"
    using assms by (auto simp: bitmap_mark_spec)
next
  fix b' assume "bitmap_mark b i = Some b'"
  then have b': "b' = set_bit_at b i" "i < nbits b" "i \<notin> used b"
    using assms by (auto simp: bitmap_mark_spec split: if_splits)
  note s = set_bit_at_spec [OF assms b'(2)]
  show "map_option (\<lambda>w. w \<noteq> 0) (bitmap_isset b' i) = Some True"
    using bitmap_isset_spec [of b' i] b' s by simp
  have "\<not> bit (v b ! (i div 8)) (i mod 8)"
    using b' by (simp add: used_def nth_bit_def)
  then have "(v b ! (i div 8) OR 2 ^ (i mod 8)) AND NOT (2 ^ (i mod 8)) = v b ! (i div 8)"
    by (intro bit_word_eqI) (auto simp: bit_simps)
  then have "clear_bit_at b' i = b"
    using bitmap_inv_index [OF assms b'(2)] b'(1)
    by (simp add: clear_bit_at_def set_bit_at_def)
  then show "bitmap_unmark b' i = Some b"
    using b' s by (simp add: bitmap_unmark_spec)
qed

theorem bitmap_mark_unmark_witness:
  "let b = \<lparr>nbits = 10, v = [0x05, 0xfc]\<rparr> in
   bitmap_inv b \<and> (bitmap_mark b 3 = None \<longleftrightarrow> nbits b \<le> 3 \<or> 3 \<in> used b) \<and>
   (\<forall>b'. bitmap_mark b 3 = Some b' \<longrightarrow>
      map_option (\<lambda>w. w \<noteq> 0) (bitmap_isset b' 3) = Some True \<and> bitmap_unmark b' 3 = Some b)"
proof -
  have "bitmap_inv \<lparr>nbits = 10, v = [0x05, 0xfc]\<rparr>" 
    by (simp add: bitmap_inv_def nth_bit_def DIVROUNDUP_def bit_numeral_rec)
  with bitmap_mark_unmark [OF this, of 3] show ?thesis unfolding Let_def by blast
qed

end
