(* ===== verification/Sfs_Disk.thy ===== *)
theory Sfs_Disk
  imports Lhd Bitmap
begin

text \<open>
  The bottom of the Simple File System: its on-disk structures (\<open>kern/include/kern/sfs.h\<close>) with
  their big-endian layout, its in-memory state (\<open>kern/include/sfs.h\<close>) and the block I/O of
  \<open>kern/fs/sfs/sfs_io.c\<close>.

  The vnodes live in a heap indexed by numbers that stand for pointers. \<open>env_malloc\<close> and
  \<open>env_random\<close> are inputs: whether the allocations to come succeed, and what \<open>random()\<close> will
  return. The file system runs under the big lock of the VFS layer, so its operations are
  sequential; the locks it takes itself have no effect on one thread.
\<close>

section \<open>On-disk structures\<close>

abbreviation (input) SFS_MAGIC :: nat where "SFS_MAGIC \<equiv> 0xabadf001"
abbreviation (input) SFS_BLOCKSIZE :: nat where "SFS_BLOCKSIZE \<equiv> 512"
abbreviation (input) SFS_VOLNAME_SIZE :: nat where "SFS_VOLNAME_SIZE \<equiv> 32"
abbreviation (input) SFS_NDIRECT :: nat where "SFS_NDIRECT \<equiv> 15"
abbreviation (input) SFS_DBPERIDB :: nat where "SFS_DBPERIDB \<equiv> 128"
abbreviation (input) SFS_NAMELEN :: nat where "SFS_NAMELEN \<equiv> 60"
abbreviation (input) SFS_SB_LOCATION :: nat where "SFS_SB_LOCATION \<equiv> 0"
abbreviation (input) SFS_ROOT_LOCATION :: nat where "SFS_ROOT_LOCATION \<equiv> 1"
abbreviation (input) SFS_MAP_LOCATION :: nat where "SFS_MAP_LOCATION \<equiv> 2"
abbreviation (input) SFS_NOINO :: nat where "SFS_NOINO \<equiv> 0"
abbreviation (input) SFS_BLOCKBITS :: nat where "SFS_BLOCKBITS \<equiv> 4096"
abbreviation (input) SFS_TYPE_INVAL :: nat where "SFS_TYPE_INVAL \<equiv> 0"
abbreviation (input) SFS_TYPE_FILE :: nat where "SFS_TYPE_FILE \<equiv> 1"
abbreviation (input) SFS_TYPE_DIR :: nat where "SFS_TYPE_DIR \<equiv> 2"

definition SFS_BITMAPSIZE :: "nat \<Rightarrow> nat" where
  "SFS_BITMAPSIZE nblocks = wrap32 (wrap32 (nblocks + SFS_BLOCKBITS - 1) div SFS_BLOCKBITS * SFS_BLOCKBITS)"

definition SFS_BITBLOCKS :: "nat \<Rightarrow> nat" where
  "SFS_BITBLOCKS nblocks = SFS_BITMAPSIZE nblocks div SFS_BLOCKBITS"

record sfs_super =
  sp_magic :: nat
  sp_nblocks :: nat
  sp_volname :: bytes
  sp_reserved :: bytes

record sfs_inode =
  sfi_size :: nat
  sfi_type :: nat
  sfi_linkcount :: nat
  sfi_direct :: "nat list"
  sfi_indirect :: nat
  sfi_waste :: bytes

record sfs_dir =
  sfd_ino :: nat
  sfd_name :: bytes

subsection \<open>Layout\<close>

definition enc32 :: "nat \<Rightarrow> bytes" where
  "enc32 n = [of_nat (n div 2 ^ 24), of_nat (n div 2 ^ 16), of_nat (n div 2 ^ 8), of_nat n]"

definition enc16 :: "nat \<Rightarrow> bytes" where
  "enc16 n = [of_nat (n div 2 ^ 8), of_nat n]"

definition dec :: "bytes \<Rightarrow> nat" where
  "dec bs = foldl (\<lambda>n b. n * 256 + unat b) 0 bs"

text \<open>The word of \<open>k\<close> bytes at offset \<open>off\<close> of a block.\<close>

definition field :: "nat \<Rightarrow> nat \<Rightarrow> bytes \<Rightarrow> bytes" where
  "field off k bs = take k (drop off bs)"

definition enc_words :: "nat list \<Rightarrow> bytes" where
  "enc_words ws = concat (map enc32 ws)"

definition dec_words :: "nat \<Rightarrow> bytes \<Rightarrow> nat list" where
  "dec_words n bs = map (\<lambda>i. dec (field (4 * i) 4 bs)) [0..<n]"

definition enc_inode :: "sfs_inode \<Rightarrow> bytes" where
  "enc_inode i = enc32 (sfi_size i) @ enc16 (sfi_type i) @ enc16 (sfi_linkcount i) @
     enc_words (sfi_direct i) @ enc32 (sfi_indirect i) @ sfi_waste i"

definition dec_inode :: "bytes \<Rightarrow> sfs_inode" where
  "dec_inode bs =
     \<lparr>sfi_size = dec (field 0 4 bs), sfi_type = dec (field 4 2 bs), sfi_linkcount = dec (field 6 2 bs),
      sfi_direct = dec_words SFS_NDIRECT (drop 8 bs), sfi_indirect = dec (field 68 4 bs),
      sfi_waste = field 72 440 bs\<rparr>"

definition enc_super :: "sfs_super \<Rightarrow> bytes" where
  "enc_super sp = enc32 (sp_magic sp) @ enc32 (sp_nblocks sp) @ sp_volname sp @ sp_reserved sp"

definition dec_super :: "bytes \<Rightarrow> sfs_super" where
  "dec_super bs =
     \<lparr>sp_magic = dec (field 0 4 bs), sp_nblocks = dec (field 4 4 bs),
      sp_volname = field 8 32 bs, sp_reserved = field 40 472 bs\<rparr>"

definition enc_dir :: "sfs_dir \<Rightarrow> bytes" where
  "enc_dir sd = enc32 (sfd_ino sd) @ sfd_name sd"

definition dec_dir :: "bytes \<Rightarrow> sfs_dir" where
  "dec_dir bs = \<lparr>sfd_ino = dec (field 0 4 bs), sfd_name = field 4 60 bs\<rparr>"

section \<open>In-memory state\<close>

datatype sfs_ops = sfs_fileops | sfs_dirops

record sfs_vnode =
  vn_refcount :: nat
  vn_opencount :: nat
  vn_ops :: sfs_ops
  sv_i :: sfs_inode
  sv_ino :: nat
  sv_dirty :: bool

record sfs_buffer_cache =
  cache :: bytes
  inode_no :: int
  block_no :: int

record sfs_fs =
  sfs_super :: sfs_super
  sfs_superdirty :: bool
  sfs_device :: lhd
  sfs_vnodes :: "nat list"
  sfs_freemap :: bitmap
  sfs_freemapdirty :: bool
  sfs_rcache :: "sfs_buffer_cache list"
  vnode_heap :: "nat \<Rightarrow> sfs_vnode"
  env_malloc :: "bool list"
  env_random :: "nat list"

abbreviation disk :: "sfs_fs \<Rightarrow> nat \<Rightarrow> bytes" where
  "disk s \<equiv> lh_sectors (sfs_device s)"

section \<open>Block I/O\<close>

text \<open>\<open>sfs->sfs_device->d_io(sfs->sfs_device, uio)\<close>; the device is a disk.\<close>

definition d_io :: "(ustream \<times> sfs_fs, unit) proc" where
  "d_io = zoomP (\<lambda>(u, s). (u, sfs_device s)) (\<lambda>(u, d) (_, s). (u, s\<lparr>sfs_device := d\<rparr>)) lhd_io"

text \<open>The retry loop of \<open>sfs_rwblock\<close>, with \<open>10 - tries\<close> retries left.\<close>

fun sfs_retry :: "nat \<Rightarrow> (ustream \<times> sfs_fs, unit) proc" where
  "sfs_retry left = tryP d_io (\<lambda>result.
     case result of
       Inr _ \<Rightarrow> retP ()
     | Inl e \<Rightarrow>
         if e = EINVAL then panicP
         else if e = EIO then (case left of 0 \<Rightarrow> throwP EIO | Suc left' \<Rightarrow> sfs_retry left')
         else throwP e)"

declare sfs_retry.simps [simp del]

definition sfs_rwblock :: "(ustream \<times> sfs_fs, unit) proc" where
  "sfs_rwblock = sfs_retry 10"

definition sfs_rblock :: "nat \<Rightarrow> (sfs_fs, bytes) proc" where
  "sfs_rblock block =
     bindP (localP (uio_kinit_s [] SFS_BLOCKSIZE (int block * 512) UIO_READ) sfs_rwblock)
       (\<lambda>(_, ku). retP (us_bytes ku))"

definition sfs_wblock :: "bytes \<Rightarrow> nat \<Rightarrow> (sfs_fs, unit) proc" where
  "sfs_wblock data block =
     bindP (localP (uio_kinit_s data SFS_BLOCKSIZE (int block * 512) UIO_WRITE) sfs_rwblock)
       (\<lambda>(_, ku). retP ())"

section \<open>Layout round trips\<close>

lemma enc_length [simp]:
  "length (enc32 n) = 4" "length (enc16 n) = 2" "length (enc_words ws) = 4 * length ws"
  by (simp_all add: enc32_def enc16_def enc_words_def length_concat comp_def sum_list_triv)

lemma dec_enc16 [simp]: "dec (enc16 n) = n mod 2 ^ 16"
proof -
  have "n mod (2 ^ 8 * 2 ^ 8) = 2 ^ 8 * (n div 2 ^ 8 mod 2 ^ 8) + n mod 2 ^ 8"
    by (rule mod_mult2_eq)
  then show ?thesis by (simp add: dec_def enc16_def unat_of_nat)
qed

lemma dec_enc32 [simp]: "dec (enc32 n) = n mod 2 ^ 32"
proof -
  have "n mod (2 ^ 24 * 2 ^ 8) = 2 ^ 24 * (n div 2 ^ 24 mod 2 ^ 8) + n mod 2 ^ 24"
    "n mod (2 ^ 16 * 2 ^ 8) = 2 ^ 16 * (n div 2 ^ 16 mod 2 ^ 8) + n mod 2 ^ 16"
    "n mod (2 ^ 8 * 2 ^ 8) = 2 ^ 8 * (n div 2 ^ 8 mod 2 ^ 8) + n mod 2 ^ 8"
    by (rule mod_mult2_eq)+
  then show ?thesis by (simp add: dec_def enc32_def unat_of_nat)
qed

lemma unat_byte: "unat (b :: 8 word) < 256"
proof -
  have "unat b < 2 ^ LENGTH(8)" by (rule unsigned_less)
  then show ?thesis by simp
qed

lemma low_byte: "of_nat (x * 256 + unat b) = (b :: 8 word)"
  using unat_byte [of b] by (simp add: word_unat_eq_iff unat_of_nat del: of_nat_add of_nat_mult)

lemma enc_dec16: "length bs = 2 \<Longrightarrow> enc16 (dec bs) = bs"
proof -
  assume "length bs = 2"
  then obtain a b where bs: "bs = [a, b]" by (auto simp: length_Suc_conv numeral_2_eq_2)
  have "(unat a * 256 + unat b) div 256 = unat a" using unat_byte [of b] by simp
  then show ?thesis using low_byte [of "unat a" b] by (simp add: bs dec_def enc16_def del: of_nat_add of_nat_mult)
qed

lemma enc_dec32: "length bs = 4 \<Longrightarrow> enc32 (dec bs) = bs"
proof -
  assume "length bs = 4"
  then obtain a b c d where bs: "bs = [a, b, c, d]" by (auto simp: length_Suc_conv eval_nat_numeral)
  let ?n = "((unat a * 256 + unat b) * 256 + unat c) * 256 + unat d"
  have "?n div 256 = (unat a * 256 + unat b) * 256 + unat c" using unat_byte [of d] by simp
  moreover have "?n div 65536 = ?n div 256 div 256" "?n div 16777216 = ?n div 256 div 256 div 256"
    by (simp_all add: div_mult2_eq [symmetric])
  ultimately have "?n div 65536 = unat a * 256 + unat b" "?n div 16777216 = unat a"
    using unat_byte [of c] unat_byte [of b] by simp_all
  with \<open>?n div 256 = _\<close> show ?thesis
    using low_byte [of "unat a" b] low_byte [of "unat a * 256 + unat b" c]
      low_byte [of "(unat a * 256 + unat b) * 256 + unat c" d]
    by (simp add: bs dec_def enc32_def del: of_nat_add of_nat_mult)
qed

lemma dec_bound: "dec bs < 256 ^ length bs"
proof (induction bs rule: rev_induct)
  case (snoc b bs)
  have "dec (bs @ [b]) = dec bs * 256 + unat b" by (simp add: dec_def)
  then show ?case using snoc unat_byte [of b] by simp
qed (simp add: dec_def)

lemma field_simps [simp]:
  "length xs \<le> off \<Longrightarrow> field off k (xs @ ys) = field (off - length xs) k ys"
  "k \<le> length xs \<Longrightarrow> field 0 k (xs @ ys) = take k xs"
  "length (field off k bs) = min k (length bs - off)"
  "length bs \<le> k \<Longrightarrow> field 0 k bs = bs"
  by (simp_all add: field_def min.commute)

lemma dec_enc_words:
  assumes "\<forall>w\<in>set ws. w < 2 ^ 32" "length ws = n"
  shows "dec_words n (enc_words ws @ rest) = ws"
proof -
  have "dec (field (4 * i) 4 (enc_words ws @ rest)) = ws ! i" if "i < length ws" for i
    using that assms(1)
  proof (induction ws arbitrary: i)
    case (Cons w ws)
    show ?case
    proof (cases i)
      case 0
      then show ?thesis using Cons.prems by (simp add: enc_words_def)
    next
      case (Suc j)
      have "enc_words (w # ws) @ rest = enc32 w @ enc_words ws @ rest" by (simp add: enc_words_def)
      then show ?thesis using Suc Cons by simp
    qed
  qed simp
  then show ?thesis using assms(2) by (auto simp: dec_words_def intro!: nth_equalityI)
qed

lemma enc_dec_words: "length bs = 4 * n \<Longrightarrow> enc_words (dec_words n bs) = bs"
proof (induction n arbitrary: bs)
  case (Suc n)
  have "dec_words (Suc n) bs = dec (take 4 bs) # dec_words n (drop 4 bs)"
    unfolding dec_words_def by (simp add: upt_conv_Cons map_Suc_upt [symmetric] field_def add.commute del: upt_Suc)
  moreover have "enc_words (dec_words n (drop 4 bs)) = drop 4 bs" using Suc by simp
  ultimately show ?case using Suc.prems by (simp add: enc_words_def enc_dec32)
qed (simp add: dec_words_def enc_words_def)

lemma dec_words_take: "4 * n \<le> m \<Longrightarrow> dec_words n (take m bs) = dec_words n bs"
  by (auto simp: dec_words_def field_def drop_take min_def)

lemma length_dec_words [simp]: "length (dec_words n bs) = n"
  by (simp add: dec_words_def)

definition inode_wf :: "sfs_inode \<Rightarrow> bool" where
  "inode_wf i \<longleftrightarrow> sfi_size i < 2 ^ 32 \<and> sfi_type i < 2 ^ 16 \<and> sfi_linkcount i < 2 ^ 16 \<and>
     length (sfi_direct i) = SFS_NDIRECT \<and> (\<forall>b\<in>set (sfi_direct i). b < 2 ^ 32) \<and>
     sfi_indirect i < 2 ^ 32 \<and> length (sfi_waste i) = 440"

lemma length_enc_inode: "inode_wf i \<Longrightarrow> length (enc_inode i) = SFS_BLOCKSIZE"
  by (simp add: inode_wf_def enc_inode_def)

lemma dec_enc_inode:
  assumes "inode_wf i"
  shows "dec_inode (enc_inode i) = i"
proof -
  have "dec_words 15 (drop 8 (enc_inode i)) = sfi_direct i"
    using dec_enc_words [of "sfi_direct i" 15] assms by (simp add: enc_inode_def inode_wf_def)
  then show ?thesis
    using assms by (simp add: dec_inode_def inode_wf_def) (simp add: enc_inode_def inode_wf_def)
qed

lemma enc_dec_inode:
  assumes "length bs = SFS_BLOCKSIZE"
  shows "enc_inode (dec_inode bs) = bs"
proof -
  have eq: "enc_words (dec_words 15 (drop 8 bs)) = field 8 60 bs"
  proof -
    have "dec_words 15 (drop 8 bs) = dec_words 15 (field 8 60 bs)"
      using dec_words_take [of 15 60 "drop 8 bs"] by (simp add: field_def)
    then show ?thesis using enc_dec_words [of "field 8 60 bs" 15] assms by simp
  qed
  have parts: "bs = field 0 4 bs @ field 4 2 bs @ field 6 2 bs @ field 8 60 bs @ field 68 4 bs @ field 72 440 bs"
  proof -
    have split: "drop a bs = field a k bs @ drop (a + k) bs" for a k
      using append_take_drop_id [of k "drop a bs"] by (simp add: field_def add.commute)
    have "bs = drop 0 bs" by simp
    also have "\<dots> = field 0 4 bs @ field 4 2 bs @ field 6 2 bs @ field 8 60 bs @ field 68 4 bs @ drop 72 bs"
      using split [of 0 4] split [of 4 2] split [of 6 2] split [of 8 60] split [of 68 4] by simp
    also have "drop 72 bs = field 72 440 bs" using assms by (simp add: field_def)
    finally show ?thesis .
  qed
  have "enc_inode (dec_inode bs) =
      field 0 4 bs @ field 4 2 bs @ field 6 2 bs @ field 8 60 bs @ field 68 4 bs @ field 72 440 bs"
    using assms by (simp add: enc_inode_def dec_inode_def enc_dec32 enc_dec16 eq)
  then show ?thesis using parts by simp
qed

lemma length_enc_dir: "length (enc_dir sd) = 4 + length (sfd_name sd)"
  by (simp add: enc_dir_def)

lemma dec_enc_dir:
  assumes "sfd_ino sd < 2 ^ 32" "length (sfd_name sd) = SFS_NAMELEN"
  shows "dec_dir (enc_dir sd) = sd"
  using assms by (simp add: dec_dir_def enc_dir_def)

lemma enc_dec_dir: "length bs = 64 \<Longrightarrow> enc_dir (dec_dir bs) = bs"
  by (simp add: dec_dir_def enc_dir_def enc_dec32) (simp add: field_def)

section \<open>Block I/O on a healthy device\<close>

definition dev_ok :: "lhd \<Rightarrow> bool" where
  "dev_ok d \<longleftrightarrow> lhd_inv d \<and> lh_codes d = [] \<and> lh_d_blocks d < 2 ^ 32"

lemma d_io_run:
  "d_io (u, s) = (case lhd_io (u, sfs_device s) of None \<Rightarrow> None
     | Some (r, u', d) \<Rightarrow> Some (r, u', s\<lparr>sfs_device := d\<rparr>))"
  by (auto simp: d_io_def zoomP_def split: option.splits)

lemma rblock_run:
  assumes "dev_ok (sfs_device s)" "b < lh_d_blocks (sfs_device s)"
  shows "\<exists>d'. sfs_rblock b s = Some (Inr (disk s b), s\<lparr>sfs_device := d'\<rparr>) \<and> dev_ok d' \<and>
    lh_sectors d' = disk s \<and> lh_d_blocks d' = lh_d_blocks (sfs_device s)"
proof -
  let ?d = "sfs_device s" and ?u = "uio_kinit_s [] SFS_BLOCKSIZE (int b * 512) UIO_READ"
  have d: "lhd_inv ?d" "next_code ?d = LHD_OK" "lh_d_blocks ?d < 2 ^ 32" "lh_codes ?d = []"
    using assms(1) by (simp_all add: dev_ok_def next_code_def)
  have "lhd_io (?u, ?d) = Some (Inr (), ?u\<lparr>us_offset := us_offset ?u + 512, us_resid := us_resid ?u - LHD_SECTSIZE,
      us_bytes := us_bytes ?u @ lh_sectors ?d b, us_good := us_good ?u - LHD_SECTSIZE\<rparr>,
      lhd_after b (lh_sectors ?d b) ?d)"
    using lhd_io_one [of ?u b ?d] lhd_sector_read [OF d(1), of ?u b] d assms(2)
    by (simp add: uio_kinit_s_def)
  then have "sfs_rblock b s = Some (Inr (disk s b), s\<lparr>sfs_device := lhd_after b (lh_sectors ?d b) ?d\<rparr>)"
    by (simp add: sfs_rblock_def sfs_rwblock_def sfs_retry.simps tryP_def d_io_run localP_def bindP_def retP_def
        uio_kinit_s_def)
  moreover have "dev_ok (lhd_after b (lh_sectors ?d b) ?d)"
    using lhd_after_inv(1) [OF d(1), of "lh_sectors ?d b" b] d by (simp add: dev_ok_def lhd_inv_def)
  ultimately show ?thesis by auto
qed

lemma wblock_run:
  assumes "dev_ok (sfs_device s)" "b < lh_d_blocks (sfs_device s)" "length data = SFS_BLOCKSIZE"
  shows "\<exists>d'. sfs_wblock data b s = Some (Inr (), s\<lparr>sfs_device := d'\<rparr>) \<and> dev_ok d' \<and>
    lh_sectors d' = (disk s)(b := data) \<and> lh_d_blocks d' = lh_d_blocks (sfs_device s)"
proof -
  let ?d = "sfs_device s" and ?u = "uio_kinit_s data SFS_BLOCKSIZE (int b * 512) UIO_WRITE"
  let ?d' = "(lhd_after b data ?d)\<lparr>lh_sectors := (lh_sectors ?d)(b := data)\<rparr>"
  have d: "lhd_inv ?d" "next_code ?d = LHD_OK" "lh_d_blocks ?d < 2 ^ 32" "lh_codes ?d = []"
    using assms(1) by (simp_all add: dev_ok_def next_code_def)
  have "\<exists>u'. lhd_io (?u, ?d) = Some (Inr (), u', ?d')"
    using lhd_io_one [of ?u b ?d] lhd_sector_write [OF d(1), of ?u b] d assms(2,3)
    by (simp add: uio_kinit_s_def)
  then have "sfs_wblock data b s = Some (Inr (), s\<lparr>sfs_device := ?d'\<rparr>)"
    by (auto simp: sfs_wblock_def sfs_rwblock_def sfs_retry.simps tryP_def d_io_run localP_def bindP_def retP_def)
  moreover have "dev_ok ?d'"
    using lhd_after_inv(2) [OF d(1) assms(3), of b] d by (simp add: dev_ok_def)
  ultimately show ?thesis by auto
qed

lemma wp_rblock:
  assumes "dev_ok (sfs_device s)" "b < lh_d_blocks (sfs_device s)"
    and "\<And>d'. dev_ok d' \<Longrightarrow> lh_sectors d' = disk s \<Longrightarrow> lh_d_blocks d' = lh_d_blocks (sfs_device s) \<Longrightarrow>
      Q (Inr (disk s b)) (s\<lparr>sfs_device := d'\<rparr>)"
  shows "wp (sfs_rblock b) Q s"
  using rblock_run [OF assms(1,2)] assms(3) by (auto simp: wp_def)

lemma wp_wblock:
  assumes "dev_ok (sfs_device s)" "b < lh_d_blocks (sfs_device s)" "length data = SFS_BLOCKSIZE"
    and "\<And>d'. dev_ok d' \<Longrightarrow> lh_sectors d' = (disk s)(b := data) \<Longrightarrow>
      lh_d_blocks d' = lh_d_blocks (sfs_device s) \<Longrightarrow> Q (Inr ()) (s\<lparr>sfs_device := d'\<rparr>)"
  shows "wp (sfs_wblock data b) Q s"
  using wblock_run [OF assms(1-3)] assms(4) by (auto simp: wp_def)

section \<open>Block I/O on a failing device\<close>

lemma retry_read:
  assumes "lhd_inv (sfs_device s)" "lh_codes (sfs_device s) = replicate k LHD_MEDIA"
    and "b < lh_d_blocks (sfs_device s)" "lh_d_blocks (sfs_device s) < 2 ^ 32"
    and "us_offset u = 512 * int b" "us_resid u = SFS_BLOCKSIZE" "us_good u = SFS_BLOCKSIZE" "us_rw u = UIO_READ"
  shows "\<exists>u' d'. sfs_retry left (u, s) =
      Some (if k \<le> left then Inr () else Inl EIO, u', s\<lparr>sfs_device := d'\<rparr>) \<and>
      us_bytes u' = us_bytes u @ (if k \<le> left then disk s b else []) \<and> lhd_inv d' \<and> lh_sectors d' = disk s"
  using assms
proof (induction left arbitrary: k s)
  case 0
  have io: "lhd_io (u, sfs_device s) = lhd_sector 1 b (u, sfs_device s)"
    using lhd_io_one [of u b "sfs_device s"] 0 by simp
  show ?case
    using lhd_sector_read [OF 0(1,8), of b] lhd_after_inv(1) [OF 0(1)] 0 io
    by (cases k) (auto simp: sfs_retry.simps tryP_def retP_def throwP_def d_io_run next_code_def code_err_def
        lhd_after_def lhd_inv_def)
next
  case (Suc left)
  have io: "lhd_io (u, sfs_device s) = lhd_sector 1 b (u, sfs_device s)"
    using lhd_io_one [of u b "sfs_device s"] Suc by simp
  show ?case
  proof (cases k)
    case 0
    then show ?thesis
      using lhd_sector_read [OF Suc.prems(1,8), of b] lhd_after_inv(1) [OF Suc.prems(1)] Suc.prems io
      by (auto simp: sfs_retry.simps tryP_def retP_def throwP_def d_io_run next_code_def
          lhd_after_def lhd_inv_def)
  next
    case (Suc k')
    let ?d = "lhd_after b (lh_buf (sfs_device s)) (sfs_device s)"
    have d: "lhd_inv ?d" "lh_codes ?d = replicate k' LHD_MEDIA" "lh_sectors ?d = disk s"
      "lh_d_blocks ?d = lh_d_blocks (sfs_device s)"
      using lhd_after_inv(1) [OF Suc.prems(1)] Suc.prems(1,2) Suc by (simp_all add: lhd_inv_def lhd_after_def)
    have "lhd_io (u, sfs_device s) = Some (Inl EIO, u, ?d)"
      using lhd_sector_read [OF Suc.prems(1,8), of b] Suc.prems io Suc by (simp add: next_code_def code_err_def)
    then have "sfs_retry (Suc left) (u, s) = sfs_retry left (u, s\<lparr>sfs_device := ?d\<rparr>)"
      by (subst sfs_retry.simps) (simp add: tryP_def d_io_run)
    then show ?thesis using Suc.IH [of "s\<lparr>sfs_device := ?d\<rparr>" k'] Suc.prems d Suc
      by (cases "k' \<le> left") auto
  qed
qed

text \<open>The file system of the examples: a disk of a hundred blocks, the first three in use.\<close>

definition sfs0 :: "lhd \<Rightarrow> sfs_fs" where
  "sfs0 d = \<lparr>sfs_super = \<lparr>sp_magic = SFS_MAGIC, sp_nblocks = 100, sp_volname = replicate 32 0,
       sp_reserved = replicate 472 0\<rparr>, sfs_superdirty = False, sfs_device = d, sfs_vnodes = [],
     sfs_freemap = \<lparr>nbits = 4096, v = [0x07] @ replicate 11 0 @ [0xf0] @ replicate 499 0xff\<rparr>,
     sfs_freemapdirty = False,
     sfs_rcache = replicate 64 \<lparr>cache = replicate 512 0, inode_no = -1, block_no = -1\<rparr>,
     vnode_heap = (\<lambda>_. \<lparr>vn_refcount = 0, vn_opencount = 0, vn_ops = sfs_fileops,
       sv_i = dec_inode (replicate 512 0), sv_ino = 0, sv_dirty = False\<rparr>),
     env_malloc = [], env_random = []\<rparr>"

lemma lhd0_inv: "set codes \<subseteq> {LHD_OK, LHD_INVSECT, LHD_MEDIA} \<Longrightarrow> lhd_inv (lhd0 codes)"
  by (simp add: lhd_inv_def lhd0_def)

lemma sfs0_sel [simp]:
  "sfs_device (sfs0 d) = d" "lh_codes (lhd0 codes) = codes" "lh_d_blocks (lhd0 codes) = 100"
  "lh_sectors (lhd0 codes) b = replicate 512 (of_nat b)"
  by (simp_all add: sfs0_def lhd0_def)

section \<open>Properties\<close>

text \<open>
  C34: Reading a block survives up to ten media errors in a row: the data of the block is
  returned. After eleven the call gives up with \<open>EIO\<close>. The medium is never changed.
\<close>

theorem sfs_rblock_retries:
  assumes "lhd_inv (sfs_device s)" "lh_codes (sfs_device s) = replicate k LHD_MEDIA"
    and "b < lh_d_blocks (sfs_device s)" "lh_d_blocks (sfs_device s) < 2 ^ 32"
  shows "\<exists>s'. sfs_rblock b s = Some (if k \<le> 10 then Inr (disk s b) else Inl EIO, s') \<and> disk s' = disk s"
proof -
  obtain u' d' where "sfs_retry 10 (uio_kinit_s [] SFS_BLOCKSIZE (int b * 512) UIO_READ, s) =
      Some (if k \<le> 10 then Inr () else Inl EIO, u', s\<lparr>sfs_device := d'\<rparr>)"
    "us_bytes u' = (if k \<le> 10 then disk s b else [])" "lh_sectors d' = disk s"
    using retry_read [OF assms, of "uio_kinit_s [] SFS_BLOCKSIZE (int b * 512) UIO_READ" 10]
    by (auto simp: uio_kinit_s_def)
  then show ?thesis
    by (auto simp: sfs_rblock_def sfs_rwblock_def localP_def bindP_def retP_def split: if_splits)
qed

theorem sfs_rblock_retries_witness:
  "(\<exists>s'. sfs_rblock 7 (sfs0 (lhd0 (replicate 2 20))) = Some (Inr (replicate 512 7), s')) \<and>
   (\<exists>s'. sfs_rblock 7 (sfs0 (lhd0 (replicate 11 20))) = Some (Inl EIO, s'))"
  using sfs_rblock_retries [of "sfs0 (lhd0 (replicate 2 20))" 2 7] lhd0_inv [of "replicate 2 20"]
    sfs_rblock_retries [of "sfs0 (lhd0 (replicate 11 20))" 11 7] lhd0_inv [of "replicate 11 20"]
  by auto

text \<open>
  C35: Writing a block does not survive a media error, and does not report it. The driver has
  taken the data out of the descriptor when the error arrives, so the retry asks for a
  transfer of length zero, which succeeds: \<open>sfs_wblock\<close> returns success although the block
  was not written.
\<close>

theorem sfs_wblock_loses_error:
  assumes "lhd_inv (sfs_device s)" "lh_codes (sfs_device s) = [LHD_MEDIA]"
    and "b < lh_d_blocks (sfs_device s)" "lh_d_blocks (sfs_device s) < 2 ^ 32" "length data = SFS_BLOCKSIZE"
  shows "\<exists>s'. sfs_wblock data b s = Some (Inr (), s') \<and> disk s' = disk s"
proof -
  let ?d = "sfs_device s" and ?u = "uio_kinit_s data SFS_BLOCKSIZE (int b * 512) UIO_WRITE"
  let ?u' = "?u\<lparr>us_offset := us_offset ?u + 512, us_resid := us_resid ?u - LHD_SECTSIZE,
      us_bytes := drop LHD_SECTSIZE (us_bytes ?u), us_good := us_good ?u - LHD_SECTSIZE\<rparr>"
  let ?d' = "lhd_after b (take LHD_SECTSIZE (us_bytes ?u)) ?d"
  have "lhd_io (?u, ?d) = Some (Inl EIO, ?u', ?d')"
    using lhd_io_one [of ?u b ?d] lhd_sector_write [OF assms(1), of ?u b] assms
    by (simp add: uio_kinit_s_def next_code_def code_err_def)
  moreover have "lhd_io (?u', ?d') = Some (Inr (), ?u', ?d')"
    using lhd_io_empty [of ?u' "b + 1" ?d'] assms by (simp add: uio_kinit_s_def lhd_after_def)
  ultimately have "sfs_retry 10 (?u, s) = Some (Inr (), ?u', s\<lparr>sfs_device := ?d'\<rparr>)"
    by (simp add: sfs_retry.simps [of 10] sfs_retry.simps [of 9] tryP_def d_io_run retP_def)
  then show ?thesis
    by (simp add: sfs_wblock_def sfs_rwblock_def localP_def bindP_def retP_def lhd_after_def)
qed

theorem sfs_wblock_loses_error_witness:
  "\<exists>s'. sfs_wblock (replicate 512 1) 7 (sfs0 (lhd0 [20])) = Some (Inr (), s') \<and> disk s' 7 = replicate 512 7"
  using sfs_wblock_loses_error [of "sfs0 (lhd0 [20])" 7 "replicate 512 1"] lhd0_inv [of "[20]"]
  by auto

end
