(* ===== verification/Sfs_Alloc.thy ===== *)
theory Sfs_Alloc
  imports Sfs_Disk
begin

text \<open>
  Space allocation and block mapping of the Simple File System, the first part of
  \<open>kern/fs/sfs/sfs_vnode.c\<close>: allocating, freeing and checking blocks, writing an inode back, and
  \<open>sfs_bmap\<close>, which finds the disk block of a block of a file and allocates it on demand.

  \<open>fblock s vn n\<close> is the specification of the mapping: the disk block of block \<open>n\<close> of the file
  of vnode \<open>vn\<close>, or 0. \<open>owned\<close> lists all blocks a file holds; the invariant says that they are
  distinct, marked in use and inside the file system.
\<close>

section \<open>Operations\<close>

definition sfs_clearblock :: "nat \<Rightarrow> (sfs_fs, unit) proc" where
  "sfs_clearblock block = sfs_wblock (replicate SFS_BLOCKSIZE 0) block"

text \<open>Access to the vnode behind a pointer.\<close>

definition upd_vnode :: "nat \<Rightarrow> (sfs_vnode \<Rightarrow> sfs_vnode) \<Rightarrow> sfs_fs \<Rightarrow> sfs_fs" where
  "upd_vnode vn f s = s\<lparr>vnode_heap := (vnode_heap s)(vn := f (vnode_heap s vn))\<rparr>"

definition upd_inode :: "nat \<Rightarrow> (sfs_inode \<Rightarrow> sfs_inode) \<Rightarrow> sfs_fs \<Rightarrow> sfs_fs" where
  "upd_inode vn f = upd_vnode vn (\<lambda>sv. sv\<lparr>sv_i := f (sv_i sv), sv_dirty := True\<rparr>)"

definition sfs_sync_inode :: "nat \<Rightarrow> (sfs_fs, unit) proc" where
  "sfs_sync_inode vn = bindP (getP (\<lambda>s. vnode_heap s vn)) (\<lambda>sv.
     if sv_dirty sv then
       bindP (sfs_wblock (enc_inode (sv_i sv)) (sv_ino sv)) (\<lambda>_.
       modP (upd_vnode vn (\<lambda>sv. sv\<lparr>sv_dirty := False\<rparr>)))
     else retP ())"

definition sfs_balloc :: "(sfs_fs, nat) proc" where
  "sfs_balloc =
     bindP (getP sfs_freemap) (\<lambda>fm.
     bindP (optP (bitmap_alloc fm)) (\<lambda>result.
     case result of
       Inl e \<Rightarrow> throwP e
     | Inr (diskblock, fm') \<Rightarrow>
         bindP (modP (\<lambda>s. s\<lparr>sfs_freemap := fm', sfs_freemapdirty := True\<rparr>)) (\<lambda>_.
         bindP (getP (\<lambda>s. sp_nblocks (sfs_super s))) (\<lambda>sp_nblocks.
         bindP (assertP (diskblock < sp_nblocks)) (\<lambda>_.
         bindP (sfs_clearblock diskblock) (\<lambda>_.
         retP diskblock))))))"

definition sfs_bfree :: "nat \<Rightarrow> (sfs_fs, unit) proc" where
  "sfs_bfree diskblock =
     bindP (getP sfs_freemap) (\<lambda>fm.
     bindP (optP (bitmap_unmark fm diskblock)) (\<lambda>fm'.
     modP (\<lambda>s. s\<lparr>sfs_freemap := fm', sfs_freemapdirty := True\<rparr>)))"

definition sfs_bused :: "nat \<Rightarrow> (sfs_fs, bool) proc" where
  "sfs_bused diskblock =
     bindP (getP id) (\<lambda>s.
     bindP (assertP (diskblock < sp_nblocks (sfs_super s))) (\<lambda>_.
     bindP (optP (bitmap_isset (sfs_freemap s) diskblock)) (\<lambda>b. retP (b \<noteq> 0))))"

text \<open>Both branches of \<open>sfs_bmap\<close> end by checking that the block they hand back is in use.\<close>

definition bmap_handback :: "nat \<Rightarrow> (sfs_fs, nat) proc" where
  "bmap_handback block =
     (if block \<noteq> 0 then bindP (sfs_bused block) (\<lambda>u. bindP (assertP u) (\<lambda>_. retP block))
      else retP block)"

definition sfs_bmap :: "nat \<Rightarrow> nat \<Rightarrow> bool \<Rightarrow> (sfs_fs, nat) proc" where
  "sfs_bmap vn fileblock doalloc =
     (if fileblock < SFS_NDIRECT then
        bindP (getP (\<lambda>s. sfi_direct (sv_i (vnode_heap s vn)))) (\<lambda>direct.
        bindP (optP (aget direct fileblock)) (\<lambda>block.
        if block = 0 \<and> doalloc then
          bindP sfs_balloc (\<lambda>block.
          bindP (modP (upd_inode vn (\<lambda>i. i\<lparr>sfi_direct := (sfi_direct i)[fileblock := block]\<rparr>))) (\<lambda>_.
          bmap_handback block))
        else bmap_handback block))
      else
        let fileblock = fileblock - SFS_NDIRECT;
            idnum = fileblock div SFS_DBPERIDB;
            idoff = fileblock mod SFS_DBPERIDB
        in
          if idnum > 0 then throwP EFBIG
          else
            bindP (getP (\<lambda>s. sfi_indirect (sv_i (vnode_heap s vn)))) (\<lambda>idblock.
            if idblock = 0 \<and> \<not> doalloc then retP 0
            else
              bindP (if idblock = 0 then
                       bindP sfs_balloc (\<lambda>idblock.
                       bindP (modP (upd_inode vn (\<lambda>i. i\<lparr>sfi_indirect := idblock\<rparr>))) (\<lambda>_.
                       retP (idblock, replicate SFS_DBPERIDB 0)))
                     else
                       bindP (sfs_rblock idblock) (\<lambda>blk. retP (idblock, dec_words SFS_DBPERIDB blk)))
              (\<lambda>(idblock, idbuf).
              bindP (optP (aget idbuf idoff)) (\<lambda>block.
              if block = 0 \<and> doalloc then
                bindP sfs_balloc (\<lambda>block.
                bindP (sfs_wblock (enc_words (idbuf[idoff := block])) idblock) (\<lambda>_.
                bmap_handback block))
              else bmap_handback block))))"

section \<open>Invariant\<close>

definition fs_ok :: "sfs_fs \<Rightarrow> bool" where
  "fs_ok s \<longleftrightarrow> dev_ok (sfs_device s) \<and> sp_nblocks (sfs_super s) \<le> lh_d_blocks (sfs_device s) \<and>
     bitmap_inv (sfs_freemap s) \<and> sp_nblocks (sfs_super s) \<le> nbits (sfs_freemap s) \<and>
     {sp_nblocks (sfs_super s)..<nbits (sfs_freemap s)} \<subseteq> used (sfs_freemap s) \<and>
     0 \<in> used (sfs_freemap s)"

text \<open>The entries of the indirect block, zeros when there is none.\<close>

definition id_entries :: "sfs_fs \<Rightarrow> nat \<Rightarrow> nat list" where
  "id_entries s vn =
     (let ib = sfi_indirect (sv_i (vnode_heap s vn)) in
      if ib = 0 then replicate SFS_DBPERIDB 0 else dec_words SFS_DBPERIDB (disk s ib))"

definition blocks :: "sfs_fs \<Rightarrow> nat \<Rightarrow> nat list" where
  "blocks s vn = sfi_direct (sv_i (vnode_heap s vn)) @ id_entries s vn"

definition fblock :: "sfs_fs \<Rightarrow> nat \<Rightarrow> nat \<Rightarrow> nat" where
  "fblock s vn n = blocks s vn ! n"

text \<open>All block pointers of a file, the indirect one first.\<close>

definition cells :: "sfs_fs \<Rightarrow> nat \<Rightarrow> nat list" where
  "cells s vn = sfi_indirect (sv_i (vnode_heap s vn)) # blocks s vn"

definition owned :: "sfs_fs \<Rightarrow> nat \<Rightarrow> nat list" where
  "owned s vn = filter (\<lambda>b. b \<noteq> 0) (cells s vn)"

definition file_ok :: "sfs_fs \<Rightarrow> nat \<Rightarrow> bool" where
  "file_ok s vn \<longleftrightarrow> inode_wf (sv_i (vnode_heap s vn)) \<and> distinct (owned s vn) \<and>
     set (owned s vn) \<subseteq> used (sfs_freemap s) \<inter> {..<sp_nblocks (sfs_super s)}"

text \<open>What allocation and mapping leave alone.\<close>

definition same_rest :: "sfs_fs \<Rightarrow> sfs_fs \<Rightarrow> bool" where
  "same_rest s s' \<longleftrightarrow> sfs_super s' = sfs_super s \<and> sfs_superdirty s' = sfs_superdirty s \<and>
     sfs_vnodes s' = sfs_vnodes s \<and> sfs_rcache s' = sfs_rcache s \<and>
     env_malloc s' = env_malloc s \<and> env_random s' = env_random s"

lemma same_rest_refl [simp]: "same_rest s s"
  by (simp add: same_rest_def)

lemma same_rest_trans: "same_rest s s' \<Longrightarrow> same_rest s' s'' \<Longrightarrow> same_rest s s''"
  by (simp add: same_rest_def)

section \<open>Allocation\<close>

abbreviation zero_block :: bytes where
  "zero_block \<equiv> replicate SFS_BLOCKSIZE 0"

definition alloc_step :: "nat \<Rightarrow> sfs_fs \<Rightarrow> sfs_fs \<Rightarrow> bool" where
  "alloc_step b s s' \<longleftrightarrow> fs_ok s' \<and> same_rest s s' \<and> vnode_heap s' = vnode_heap s \<and>
     b \<noteq> 0 \<and> b < sp_nblocks (sfs_super s) \<and> b \<notin> used (sfs_freemap s) \<and>
     used (sfs_freemap s') = insert b (used (sfs_freemap s)) \<and> disk s' = (disk s)(b := zero_block)"

lemma fs_okD:
  assumes "fs_ok s"
  shows "dev_ok (sfs_device s)" "bitmap_inv (sfs_freemap s)" "0 \<in> used (sfs_freemap s)"
    "b < sp_nblocks (sfs_super s) \<Longrightarrow> b < lh_d_blocks (sfs_device s)"
    "b < sp_nblocks (sfs_super s) \<Longrightarrow> b < nbits (sfs_freemap s)"
    "b < sp_nblocks (sfs_super s) \<Longrightarrow> b < 2 ^ 32"
  using assms by (auto simp: fs_ok_def dev_ok_def)

lemma balloc_spec:
  assumes "fs_ok s"
  shows "wp sfs_balloc (\<lambda>r s'. case r of
      Inl e \<Rightarrow> e = ENOSPC \<and> s' = s \<and> used (sfs_freemap s) = {..<nbits (sfs_freemap s)}
    | Inr b \<Rightarrow> alloc_step b s s') s"
  using fs_okD(2) [OF assms]
proof (cases rule: bm.alloc_cases)
  case full
  then show ?thesis by (simp add: sfs_balloc_def wp_simps)
next
  case (got i fm')
  have "i < sp_nblocks (sfs_super s)"
  proof (rule ccontr)
    assume "\<not> i < sp_nblocks (sfs_super s)"
    then have "i \<in> {sp_nblocks (sfs_super s)..<nbits (sfs_freemap s)}" using got(2) by simp
    then show False using got(3) assms unfolding fs_ok_def by blast
  qed
  moreover have "i \<noteq> 0" using got(3) fs_okD(3) [OF assms] by metis
  ultimately have i: "i < sp_nblocks (sfs_super s)" "i \<noteq> 0" by blast+
  let ?s = "s\<lparr>sfs_freemap := fm', sfs_freemapdirty := True\<rparr>"
  have "wp (sfs_clearblock i) (\<lambda>r s'. r = Inr () \<and> alloc_step i s s') ?s"
    unfolding sfs_clearblock_def
  proof (rule wp_wblock)
    fix d' assume "dev_ok d'" "lh_sectors d' = (disk ?s)(i := zero_block)"
      "lh_d_blocks d' = lh_d_blocks (sfs_device ?s)"
    then show "Inr () = Inr () \<and> alloc_step i s (?s\<lparr>sfs_device := d'\<rparr>)"
      using assms got i by (auto simp: alloc_step_def fs_ok_def same_rest_def)
  qed (use assms i in \<open>simp_all add: fs_ok_def\<close>)
  then show ?thesis
    using got(1) i by (auto simp: sfs_balloc_def wp_simps elim!: wp_mono)
qed

lemma bused_run:
  assumes "fs_ok s" "b < sp_nblocks (sfs_super s)"
  shows "sfs_bused b s = Some (Inr (b \<in> used (sfs_freemap s)), s)"
proof -
  obtain w where "bitmap_isset (sfs_freemap s) b = Some w" "w \<noteq> 0 \<longleftrightarrow> b \<in> used (sfs_freemap s)"
    using bitmap_isset_spec [OF fs_okD(2) [OF assms(1)] fs_okD(5) [OF assms]] by auto
  then show ?thesis
    using assms(2) by (simp add: sfs_bused_def bindP_def getP_def assertP_def retP_def optP_def)
qed

lemma handback_run:
  assumes "fs_ok s" "b \<noteq> 0 \<longrightarrow> b \<in> used (sfs_freemap s) \<and> b < sp_nblocks (sfs_super s)"
  shows "bmap_handback b s = Some (Inr b, s)"
  using assms bused_run [OF assms(1), of b]
  by (simp add: bmap_handback_def bindP_def assertP_def retP_def)

lemma bfree_spec:
  assumes "fs_ok s" "b \<in> used (sfs_freemap s)" "b \<noteq> 0" "b < sp_nblocks (sfs_super s)"
  shows "\<exists>fm'. sfs_bfree b s = Some (Inr (), s\<lparr>sfs_freemap := fm', sfs_freemapdirty := True\<rparr>) \<and>
    used fm' = used (sfs_freemap s) - {b} \<and> fs_ok (s\<lparr>sfs_freemap := fm', sfs_freemapdirty := True\<rparr>)"
proof -
  obtain fm' where "bitmap_unmark (sfs_freemap s) b = Some fm'" "used fm' = used (sfs_freemap s) - {b}"
    "nbits fm' = nbits (sfs_freemap s)" "bitmap_inv fm'"
    using bm.unmark_ok [OF fs_okD(2) [OF assms(1)] assms(2)] by blast
  then show ?thesis
    using assms by (intro exI [of _ fm'])
      (auto simp: sfs_bfree_def bindP_def getP_def optP_def retP_def modP_def fs_ok_def)
qed

section \<open>Block mapping\<close>

lemma owned_cells: "set (owned s vn) = set (cells s vn) - {0}"
  by (auto simp: owned_def)

lemma length_cells:
  assumes "file_ok s vn"
  shows "length (blocks s vn) = SFS_NDIRECT + SFS_DBPERIDB" "length (cells s vn) = 144"
    "length (sfi_direct (sv_i (vnode_heap s vn))) = SFS_NDIRECT" "length (id_entries s vn) = SFS_DBPERIDB"
  using assms by (simp_all add: blocks_def cells_def file_ok_def inode_wf_def id_entries_def Let_def)

lemma cell_ok:
  assumes "file_ok s vn" "b \<in> set (cells s vn)" "b \<noteq> 0"
  shows "b \<in> used (sfs_freemap s)" "b < sp_nblocks (sfs_super s)"
  using assms owned_cells [of s vn] by (auto simp: file_ok_def)

lemma filter_update:
  assumes "k < length xs" "xs ! k = (0::nat)" "b \<noteq> 0"
  shows "filter (\<lambda>b. b \<noteq> 0) (xs[k := b]) =
    filter (\<lambda>b. b \<noteq> 0) (take k xs) @ b # filter (\<lambda>b. b \<noteq> 0) (drop (Suc k) xs)"
    and "filter (\<lambda>b. b \<noteq> 0) xs = filter (\<lambda>b. b \<noteq> 0) (take k xs) @ filter (\<lambda>b. b \<noteq> 0) (drop (Suc k) xs)"
  using assms upd_conv_take_nth_drop [of k xs b]
    arg_cong [OF id_take_nth_drop [OF assms(1)], of "filter (\<lambda>b. b \<noteq> 0)"] by simp_all

text \<open>Storing a fresh block in an empty cell keeps the invariant of the file.\<close>

lemma file_ok_alloc:
  assumes "file_ok s vn" "k < length (cells s vn)" "cells s vn ! k = 0"
    and "b \<notin> used (sfs_freemap s)" "b \<noteq> 0" "b < sp_nblocks (sfs_super s)"
    and "cells s' vn = (cells s vn)[k := b]" "used (sfs_freemap s') = insert b (used (sfs_freemap s))"
    and "sfs_super s' = sfs_super s" "inode_wf (sv_i (vnode_heap s' vn))"
  shows "file_ok s' vn"
proof -
  obtain xs ys where o: "owned s vn = xs @ ys" "owned s' vn = xs @ b # ys"
    unfolding owned_def assms(7) using filter_update [OF assms(2,3,5)] by blast
  have "b \<notin> set (owned s vn)" using assms(1,4) by (auto simp: file_ok_def)
  then have "distinct (owned s' vn)" "set (owned s' vn) = insert b (set (owned s vn))"
    using assms(1) by (auto simp: o file_ok_def)
  then show ?thesis using assms by (auto simp: file_ok_def)
qed

lemma upd_inode_sel [simp]:
  "sfs_super (upd_inode vn f s) = sfs_super s" "sfs_freemap (upd_inode vn f s) = sfs_freemap s"
  "sfs_device (upd_inode vn f s) = sfs_device s" "sfs_rcache (upd_inode vn f s) = sfs_rcache s"
  "sv_i (vnode_heap (upd_inode vn f s) vn) = f (sv_i (vnode_heap s vn))"
  "w \<noteq> vn \<Longrightarrow> vnode_heap (upd_inode vn f s) w = vnode_heap s w"
  "fs_ok (upd_inode vn f s) = fs_ok s" "same_rest s (upd_inode vn f s)"
  "same_rest s' (upd_inode vn f s) = same_rest s' s"
  by (simp_all add: upd_inode_def upd_vnode_def fs_ok_def same_rest_def)

text \<open>The parts of a vnode that mapping does not touch.\<close>

definition meta :: "sfs_vnode \<Rightarrow> nat \<times> nat \<times> nat \<times> sfs_ops \<times> nat \<times> nat \<times> nat" where
  "meta sv = (vn_refcount sv, vn_opencount sv, sv_ino sv, vn_ops sv,
     sfi_size (sv_i sv), sfi_type (sv_i sv), sfi_linkcount (sv_i sv))"

lemma meta_upd_inode [simp]:
  "meta (vnode_heap (upd_inode vn (\<lambda>i. i\<lparr>sfi_direct := g i\<rparr>) s) vn) = meta (vnode_heap s vn)"
  "meta (vnode_heap (upd_inode vn (\<lambda>i. i\<lparr>sfi_indirect := k i\<rparr>) s) vn) = meta (vnode_heap s vn)"
  by (simp_all add: meta_def upd_inode_def upd_vnode_def)

text \<open>
  One allocation for file \<open>vn\<close>: a fresh block \<open>b\<close> goes into cell \<open>k\<close>. Blocks in use keep their
  contents, except the indirect block when the cell is one of its entries.
\<close>

definition grows :: "nat \<Rightarrow> nat \<Rightarrow> nat \<Rightarrow> sfs_fs \<Rightarrow> sfs_fs \<Rightarrow> bool" where
  "grows vn k b s s' \<longleftrightarrow> fs_ok s' \<and> file_ok s' vn \<and> same_rest s s' \<and>
     b \<noteq> 0 \<and> b < sp_nblocks (sfs_super s) \<and> b \<notin> used (sfs_freemap s) \<and>
     used (sfs_freemap s') = insert b (used (sfs_freemap s)) \<and> disk s' b = zero_block \<and>
     cells s vn ! k = 0 \<and> cells s' vn = (cells s vn)[k := b] \<and>
     (\<forall>w. w \<noteq> vn \<longrightarrow> vnode_heap s' w = vnode_heap s w) \<and>
     meta (vnode_heap s' vn) = meta (vnode_heap s vn) \<and>
     (\<forall>c. c \<noteq> b \<and> (c = 0 \<or> c \<noteq> sfi_indirect (sv_i (vnode_heap s vn))) \<longrightarrow> disk s' c = disk s c)"

lemma grows_direct:
  assumes ok: "fs_ok s" "file_ok s vn" and n: "n < SFS_NDIRECT" "fblock s vn n = 0" and al: "alloc_step b s s1"
  shows "grows vn (Suc n) b s (upd_inode vn (\<lambda>i. i\<lparr>sfi_direct := (sfi_direct i)[n := b]\<rparr>) s1)"
    (is "grows vn _ b s ?s")
proof -
  let ?ib = "sfi_indirect (sv_i (vnode_heap s vn))"
  have al': "fs_ok s1" "same_rest s s1" "vnode_heap s1 = vnode_heap s" "b \<noteq> 0" "b < sp_nblocks (sfs_super s)"
    "b \<notin> used (sfs_freemap s)" "used (sfs_freemap s1) = insert b (used (sfs_freemap s))"
    "disk s1 = (disk s)(b := zero_block)"
    using al by (simp_all add: alloc_step_def)
  have "?ib \<noteq> b" using cell_ok(1) [OF ok(2), of ?ib] al'(4,6) by (auto simp: cells_def)
  then have "id_entries ?s vn = id_entries s vn" using al' by (simp add: id_entries_def Let_def)
  then have cells: "cells ?s vn = (cells s vn)[Suc n := b]"
    using al'(3) n(1) length_cells(3) [OF ok(2)] by (simp add: cells_def blocks_def list_update_append)
  have "inode_wf (sv_i (vnode_heap ?s vn))"
    using ok(2) al'(3,5) fs_okD(6) [OF ok(1) al'(5)] by (auto simp: file_ok_def inode_wf_def dest: set_update_subset_insert [THEN subsetD])
  moreover have c0: "cells s vn ! Suc n = 0" using n(2) by (simp add: cells_def fblock_def)
  moreover have "sfs_super ?s = sfs_super s" using al'(2) by (simp add: same_rest_def)
  ultimately have "file_ok ?s vn"
    using file_ok_alloc [OF ok(2) _ _ al'(6,4,5) cells] n(1) length_cells(2) [OF ok(2)] al'(7) by simp
  then show ?thesis
    using al' cells c0 by (simp add: grows_def)
qed

lemma dec_zeros: "dec (replicate n 0) = 0"
proof -
  have "foldl (\<lambda>n b. n * 256 + unat b) 0 (replicate n (0::8 word)) = (0::nat)" by (induction n) simp_all
  then show ?thesis by (simp add: dec_def)
qed

lemma dec_words_zeros: "4 * n \<le> k \<Longrightarrow> dec_words n (replicate k 0) = replicate n 0"
  by (rule nth_equalityI) (simp_all add: dec_words_def field_def dec_zeros min_def)

lemma dec_words_zero: "dec_words SFS_DBPERIDB zero_block = replicate SFS_DBPERIDB 0"
  by (rule dec_words_zeros) simp

lemma grows_indirect:
  assumes ok: "fs_ok s" "file_ok s vn" and n: "sfi_indirect (sv_i (vnode_heap s vn)) = 0" and al: "alloc_step b s s1"
  shows "grows vn 0 b s (upd_inode vn (\<lambda>i. i\<lparr>sfi_indirect := b\<rparr>) s1)"
    (is "grows vn _ b s ?s")
proof -
  have al': "fs_ok s1" "same_rest s s1" "vnode_heap s1 = vnode_heap s" "b \<noteq> 0" "b < sp_nblocks (sfs_super s)"
    "b \<notin> used (sfs_freemap s)" "used (sfs_freemap s1) = insert b (used (sfs_freemap s))"
    "disk s1 = (disk s)(b := zero_block)"
    using al by (simp_all add: alloc_step_def)
  have "id_entries ?s vn = id_entries s vn"
    using al' n dec_words_zero by (simp add: id_entries_def Let_def)
  then have cells: "cells ?s vn = (cells s vn)[0 := b]"
    using al'(3) by (simp add: cells_def blocks_def)
  have "inode_wf (sv_i (vnode_heap ?s vn))"
    using ok(2) al'(3,5) fs_okD(6) [OF ok(1) al'(5)] by (simp add: file_ok_def inode_wf_def)
  moreover have c0: "cells s vn ! 0 = 0" using n by (simp add: cells_def)
  moreover have "sfs_super ?s = sfs_super s" using al'(2) by (simp add: same_rest_def)
  ultimately have "file_ok ?s vn"
    using file_ok_alloc [OF ok(2) _ _ al'(6,4,5) cells] length_cells(2) [OF ok(2)] al'(7) by simp
  then show ?thesis
    using al' cells c0 by (simp add: grows_def)
qed

lemma id_entry_bound:
  assumes "fs_ok s" "file_ok s vn"
  shows "\<forall>w\<in>set (id_entries s vn). w < 2 ^ 32"
proof
  fix w assume "w \<in> set (id_entries s vn)"
  then show "w < 2 ^ 32"
    using cell_ok(2) [OF assms(2), of w] fs_okD(6) [OF assms(1), of w]
    by (cases "w = 0") (auto simp: cells_def blocks_def)
qed

lemma grows_entry:
  assumes ok: "fs_ok s" "file_ok s vn" and n: "idoff < SFS_DBPERIDB" "id_entries s vn ! idoff = 0"
    and ib: "sfi_indirect (sv_i (vnode_heap s vn)) = ib" "ib \<noteq> 0" and al: "alloc_step b s s1"
    and d: "dev_ok d" "lh_sectors d = (disk s1)(ib := enc_words ((id_entries s vn)[idoff := b]))"
      "lh_d_blocks d = lh_d_blocks (sfs_device s1)"
  shows "grows vn (16 + idoff) b s (s1\<lparr>sfs_device := d\<rparr>)" (is "grows vn _ b s ?s")
proof -
  have al': "fs_ok s1" "same_rest s s1" "vnode_heap s1 = vnode_heap s" "b \<noteq> 0" "b < sp_nblocks (sfs_super s)"
    "b \<notin> used (sfs_freemap s)" "used (sfs_freemap s1) = insert b (used (sfs_freemap s))"
    "disk s1 = (disk s)(b := zero_block)"
    using al by (simp_all add: alloc_step_def)
  have ibb: "ib \<noteq> b" using cell_ok(1) [OF ok(2), of ib] al'(4,6) ib by (auto simp: cells_def)
  have "\<forall>w\<in>set ((id_entries s vn)[idoff := b]). w < 2 ^ 32"
    using id_entry_bound [OF ok] fs_okD(6) [OF ok(1) al'(5)]
    by (auto dest: set_update_subset_insert [THEN subsetD])
  then have "id_entries ?s vn = (id_entries s vn)[idoff := b]"
    using dec_enc_words [of "(id_entries s vn)[idoff := b]" 128 "[]"] al'(3) ib d(2) length_cells(4) [OF ok(2)]
    by (simp add: id_entries_def Let_def)
  then have cells: "cells ?s vn = (cells s vn)[16 + idoff := b]"
    using al'(3) length_cells(3) [OF ok(2)] by (simp add: cells_def blocks_def list_update_append)
  have "inode_wf (sv_i (vnode_heap ?s vn))" using ok(2) al'(3) by (simp add: file_ok_def)
  moreover have c0: "cells s vn ! (16 + idoff) = 0"
    using n length_cells(3) [OF ok(2)] by (simp add: cells_def blocks_def nth_append)
  moreover have "sfs_super ?s = sfs_super s" using al'(2) by (simp add: same_rest_def)
  ultimately have "file_ok ?s vn"
    using file_ok_alloc [OF ok(2) _ _ al'(6,4,5) cells] length_cells(2) [OF ok(2)] al'(7) n(1) by simp
  moreover have "fs_ok ?s" using al'(1) d(1,3) by (simp add: fs_ok_def)
  ultimately show ?thesis
    using al' cells c0 d(2) ibb ib by (auto simp: grows_def same_rest_def)
qed

text \<open>Only the registers and the buffer of the device have changed.\<close>

definition touched :: "sfs_fs \<Rightarrow> sfs_fs \<Rightarrow> bool" where
  "touched s s' \<longleftrightarrow> (\<exists>d'. s' = s\<lparr>sfs_device := d'\<rparr> \<and> dev_ok d' \<and> lh_sectors d' = disk s \<and>
     lh_d_blocks d' = lh_d_blocks (sfs_device s))"

lemma touched_sel:
  assumes "touched s s'"
  shows "disk s' = disk s" "same_rest s s'" "vnode_heap s' = vnode_heap s" "sfs_freemap s' = sfs_freemap s"
    "sfs_freemapdirty s' = sfs_freemapdirty s" "sfs_super s' = sfs_super s"
    "id_entries s' = id_entries s" "blocks s' = blocks s" "cells s' = cells s" "fblock s' = fblock s"
    "fs_ok s \<Longrightarrow> fs_ok s'" "file_ok s' = file_ok s"
  using assms
  by (auto simp: touched_def same_rest_def id_entries_def blocks_def cells_def fblock_def fs_ok_def
      file_ok_def owned_def fun_eq_iff Let_def)

lemma touched_refl: "fs_ok s \<Longrightarrow> touched s s"
  by (auto simp: touched_def fs_ok_def intro: exI [of _ "sfs_device s"])

lemma alloc_step_touched: "touched s s' \<Longrightarrow> alloc_step b s' s'' \<Longrightarrow> alloc_step b s s''"
  using touched_sel [of s s'] same_rest_trans [of s s' s''] by (simp add: alloc_step_def)

lemma wp_rblock_touched:
  assumes "fs_ok s" "b < sp_nblocks (sfs_super s)" "\<And>s'. touched s s' \<Longrightarrow> Q (Inr (disk s b)) s'"
  shows "wp (sfs_rblock b) Q s"
  using assms fs_okD(1,4) [OF assms(1)] by (intro wp_rblock) (auto simp: touched_def)

text \<open>
  The blocks that are free, and how many of them block \<open>n\<close> of a file needs: itself unless it is
  there, and the indirect block when it is the first one behind it.
\<close>

definition free_blocks :: "sfs_fs \<Rightarrow> nat set" where
  "free_blocks s = {..<sp_nblocks (sfs_super s)} - used (sfs_freemap s)"

definition blocks_needed :: "nat \<Rightarrow> nat \<Rightarrow> sfs_fs \<Rightarrow> nat" where
  "blocks_needed vn n s =
     (if fblock s vn n \<noteq> 0 then 0 else if SFS_NDIRECT \<le> n \<and> sfi_indirect (sv_i (vnode_heap s vn)) = 0 then 2 else 1)"

definition space_for :: "nat \<Rightarrow> nat \<Rightarrow> sfs_fs \<Rightarrow> bool" where
  "space_for vn n s \<longleftrightarrow> blocks_needed vn n s \<le> card (free_blocks s)"

lemma finite_free [simp]: "finite (free_blocks s)"
  by (simp add: free_blocks_def)

lemma full_free: "fs_ok s \<Longrightarrow> used (sfs_freemap s) = {..<nbits (sfs_freemap s)} \<Longrightarrow> free_blocks s = {}"
  by (auto simp: free_blocks_def fs_ok_def)

text \<open>An allocation takes one of the free blocks.\<close>

lemma grows_free: "grows vn k b s s' \<Longrightarrow> b \<in> free_blocks s \<and> free_blocks s' = free_blocks s - {b}"
  by (auto simp: free_blocks_def grows_def same_rest_def)

definition bmap_post :: "nat \<Rightarrow> nat \<Rightarrow> bool \<Rightarrow> sfs_fs \<Rightarrow> errno + nat \<Rightarrow> sfs_fs \<Rightarrow> bool" where
  "bmap_post vn n doalloc s r s' \<longleftrightarrow>
     (case r of
        Inr b \<Rightarrow> (fblock s vn n \<noteq> 0 \<or> \<not> doalloc) \<and> b = fblock s vn n \<and> touched s s' \<or>
          doalloc \<and> fblock s vn n = 0 \<and>
            (grows vn (Suc n) b s s' \<and> (n < SFS_NDIRECT \<or> sfi_indirect (sv_i (vnode_heap s vn)) \<noteq> 0) \<or>
             (\<exists>ib s1. grows vn 0 ib s s1 \<and> grows vn (Suc n) b s1 s'))
      | Inl e \<Rightarrow> doalloc \<and> e = ENOSPC \<and> fblock s vn n = 0 \<and> free_blocks s' = {} \<and>
          (touched s s' \<or> SFS_NDIRECT \<le> n \<and> (\<exists>ib. grows vn 0 ib s s')))"

lemma fblock_ok:
  assumes "file_ok s vn" "n < SFS_NDIRECT + SFS_DBPERIDB" "fblock s vn n \<noteq> 0"
  shows "fblock s vn n \<in> used (sfs_freemap s)" "fblock s vn n < sp_nblocks (sfs_super s)"
proof -
  have "fblock s vn n \<in> set (cells s vn)"
    using assms(2) length_cells(1) [OF assms(1)] by (auto simp: fblock_def cells_def)
  then show "fblock s vn n \<in> used (sfs_freemap s)" "fblock s vn n < sp_nblocks (sfs_super s)"
    using cell_ok [OF assms(1) _ assms(3)] by auto
qed

lemma wp_handback:
  assumes "fs_ok s" "b \<noteq> 0 \<longrightarrow> b \<in> used (sfs_freemap s) \<and> b < sp_nblocks (sfs_super s)"
  shows "wp (bmap_handback b) Q s \<longleftrightarrow> Q (Inr b) s"
  using handback_run [OF assms] by (simp add: wp_def)

lemma bmap_direct:
  assumes ok: "fs_ok s" "file_ok s vn" and n: "n < SFS_NDIRECT"
  shows "wp (sfs_bmap vn n doalloc) (bmap_post vn n doalloc s) s"
proof -
  let ?direct = "sfi_direct (sv_i (vnode_heap s vn))" and ?Q = "bmap_post vn n doalloc s"
  have len: "length ?direct = SFS_NDIRECT" by (rule length_cells(3) [OF ok(2)])
  have fb: "?direct ! n = fblock s vn n" using n len by (simp add: fblock_def blocks_def nth_append)
  let ?alloc = "bindP sfs_balloc (\<lambda>block.
    bindP (modP (upd_inode vn (\<lambda>i. i\<lparr>sfi_direct := (sfi_direct i)[n := block]\<rparr>))) (\<lambda>_. bmap_handback block))"
  have bmap: "wp (sfs_bmap vn n doalloc) ?Q s \<longleftrightarrow>
      wp (if fblock s vn n = 0 \<and> doalloc then ?alloc else bmap_handback (fblock s vn n)) ?Q s"
    using n len fb by (simp add: sfs_bmap_def wp_bind [of "getP _"] wp_bind [of "optP _"] wp_get wp_opt)
  show ?thesis
  proof (cases "fblock s vn n = 0 \<and> doalloc")
    case False
    have "fblock s vn n \<noteq> 0 \<longrightarrow> fblock s vn n \<in> used (sfs_freemap s) \<and> fblock s vn n < sp_nblocks (sfs_super s)"
      using fblock_ok [OF ok(2), of n] n by auto
    from wp_handback [OF ok(1) this, of ?Q] show ?thesis
      unfolding bmap if_not_P [OF False] using False touched_refl [OF ok(1)] by (auto simp: bmap_post_def)
  next
    case True
    have "wp ?alloc ?Q s"
    proof (rule wp_call [OF balloc_spec [OF ok(1)]])
      fix b s1 assume "case Inr b of Inl e \<Rightarrow> e = ENOSPC \<and> s1 = s \<and>
          used (sfs_freemap s) = {..<nbits (sfs_freemap s)} | Inr b \<Rightarrow> alloc_step b s s1"
      then have al: "alloc_step b s s1" by simp
      let ?s = "upd_inode vn (\<lambda>i. i\<lparr>sfi_direct := (sfi_direct i)[n := b]\<rparr>) s1"
      have g: "grows vn (Suc n) b s ?s" using grows_direct [OF ok n _ al] True by simp
      then have "fs_ok ?s" "b \<in> used (sfs_freemap ?s)" "b < sp_nblocks (sfs_super ?s)"
        by (auto simp: grows_def same_rest_def)
      then show "wp (bindP (modP (upd_inode vn (\<lambda>i. i\<lparr>sfi_direct := (sfi_direct i)[n := b]\<rparr>)))
          (\<lambda>_. bmap_handback b)) ?Q s1"
        using g n True wp_handback [of ?s b ?Q] by (simp add: wp_bind wp_mod bmap_post_def)
    qed (use True touched_refl [OF ok(1)] full_free [OF ok(1)] in \<open>simp add: bmap_post_def\<close>)
    then show ?thesis unfolding bmap if_P [OF True] .
  qed
qed

text \<open>The two halves of the lookup through the indirect block: allocating it, and its entry.\<close>

definition id_rest :: "nat \<Rightarrow> bool \<Rightarrow> nat list \<Rightarrow> nat \<Rightarrow> (sfs_fs, nat) proc" where
  "id_rest idoff doalloc idbuf idblock = bindP (optP (aget idbuf idoff)) (\<lambda>block.
     if block = 0 \<and> doalloc then
       bindP sfs_balloc (\<lambda>block.
       bindP (sfs_wblock (enc_words (idbuf[idoff := block])) idblock) (\<lambda>_. bmap_handback block))
     else bmap_handback block)"

definition id_new :: "nat \<Rightarrow> (sfs_fs, nat \<times> nat list) proc" where
  "id_new vn = bindP sfs_balloc (\<lambda>idblock.
     bindP (modP (upd_inode vn (\<lambda>i. i\<lparr>sfi_indirect := idblock\<rparr>))) (\<lambda>_. retP (idblock, replicate SFS_DBPERIDB 0)))"

lemma bmap_entry:
  assumes ok: "fs_ok s" "file_ok s vn" and n: "idoff < SFS_DBPERIDB"
    and ib: "sfi_indirect (sv_i (vnode_heap s vn)) = ib" "ib \<noteq> 0"
  shows "wp (id_rest idoff doalloc (id_entries s vn) ib) (bmap_post vn (SFS_NDIRECT + idoff) doalloc s) s" (is "wp ?m ?Q s")
proof -
  let ?n = "SFS_NDIRECT + idoff" and ?ids = "id_entries s vn"
  have len: "length ?ids = SFS_DBPERIDB" by (rule length_cells(4) [OF ok(2)])
  have fb: "?ids ! idoff = fblock s vn ?n"
    using length_cells(3) [OF ok(2)] by (simp add: fblock_def blocks_def nth_append)
  let ?alloc = "bindP sfs_balloc (\<lambda>block.
    bindP (sfs_wblock (enc_words (?ids[idoff := block])) ib) (\<lambda>_. bmap_handback block))"
  have m: "wp ?m ?Q s \<longleftrightarrow>
      wp (if fblock s vn ?n = 0 \<and> doalloc then ?alloc else bmap_handback (fblock s vn ?n)) ?Q s"
    using n len fb by (simp add: id_rest_def wp_bind [of "optP _"] wp_opt)
  show ?thesis
  proof (cases "fblock s vn ?n = 0 \<and> doalloc")
    case False
    have "fblock s vn ?n \<noteq> 0 \<longrightarrow> fblock s vn ?n \<in> used (sfs_freemap s) \<and> fblock s vn ?n < sp_nblocks (sfs_super s)"
      using fblock_ok [OF ok(2), of ?n] n by auto
    from wp_handback [OF ok(1) this, of ?Q] show ?thesis
      unfolding m if_not_P [OF False] using False touched_refl [OF ok(1)] by (auto simp: bmap_post_def)
  next
    case True
    have "wp ?alloc ?Q s"
    proof (rule wp_call [OF balloc_spec [OF ok(1)]])
      fix b s1 assume "case Inr b of Inl e \<Rightarrow> e = ENOSPC \<and> s1 = s \<and>
          used (sfs_freemap s) = {..<nbits (sfs_freemap s)} | Inr b \<Rightarrow> alloc_step b s s1"
      then have al: "alloc_step b s s1" by simp
      then have s1: "fs_ok s1" "sfs_super s1 = sfs_super s" by (simp_all add: alloc_step_def same_rest_def)
      have ibr: "ib < sp_nblocks (sfs_super s)" using cell_ok(2) [OF ok(2), of ib] ib by (simp add: cells_def)
      have "wp (sfs_wblock (enc_words (?ids[idoff := b])) ib) (\<lambda>r s2. r = Inr () \<and> grows vn (Suc ?n) b s s2) s1"
      proof (rule wp_wblock)
        fix d assume "dev_ok d" "lh_sectors d = (disk s1)(ib := enc_words (?ids[idoff := b]))"
          "lh_d_blocks d = lh_d_blocks (sfs_device s1)"
        then show "Inr () = Inr () \<and> grows vn (Suc ?n) b s (s1\<lparr>sfs_device := d\<rparr>)"
          using grows_entry [OF ok n _ ib al] True fb by simp
      qed (use fs_okD(1,4) [OF s1(1)] s1(2) ibr len in simp_all)
      then show "wp (bindP (sfs_wblock (enc_words (?ids[idoff := b])) ib) (\<lambda>_. bmap_handback b)) ?Q s1"
      proof (rule wp_call)
        fix u s2 assume "Inr u = Inr () \<and> grows vn (Suc ?n) b s s2"
        then have g: "grows vn (Suc ?n) b s s2" ..
        then have "fs_ok s2" "b \<in> used (sfs_freemap s2)" "b < sp_nblocks (sfs_super s2)"
          by (auto simp: grows_def same_rest_def)
        then show "wp (bmap_handback b) ?Q s2"
          using g True ib wp_handback [of s2 b ?Q] by (auto simp: bmap_post_def)
      qed simp
    qed (use True touched_refl [OF ok(1)] full_free [OF ok(1)] in \<open>simp add: bmap_post_def\<close>)
    then show ?thesis unfolding m if_P [OF True] .
  qed
qed

lemma bmap_post_touched:
  assumes "touched s s1" "bmap_post vn n doalloc s1 r s2"
  shows "bmap_post vn n doalloc s r s2"
proof -
  have tr: "touched s s'" if "touched s1 s'" for s'
    using assms(1) that by (auto simp: touched_def)
  have gr: "grows vn k b s s'" if "grows vn k b s1 s'" for k b s'
    using that touched_sel [OF assms(1)] same_rest_trans [of s s1 s'] by (simp add: grows_def)
  show ?thesis
    using assms(2) touched_sel [OF assms(1)] tr gr
    unfolding bmap_post_def by (cases r) (simp_all, blast, elim disjE conjE exE, simp_all, blast+)
qed

lemma grows_indirect_sel:
  assumes "fs_ok s" "file_ok s vn" "grows vn 0 b s s1"
  shows "fs_ok s1" "file_ok s1 vn" "sfi_indirect (sv_i (vnode_heap s1 vn)) = b" "b \<noteq> 0"
    "id_entries s1 vn = id_entries s vn" "fblock s1 vn n = fblock s vn n"
proof -
  have g: "fs_ok s1" "file_ok s1 vn" "cells s1 vn = (cells s vn)[0 := b]" "b \<noteq> 0"
    using assms(3) by (simp_all add: grows_def)
  then show "fs_ok s1" "file_ok s1 vn" "sfi_indirect (sv_i (vnode_heap s1 vn)) = b" "b \<noteq> 0"
    by (simp_all add: cells_def)
  from g(3) have b: "blocks s1 vn = blocks s vn" by (simp add: cells_def)
  then show "fblock s1 vn n = fblock s vn n" by (simp add: fblock_def)
  show "id_entries s1 vn = id_entries s vn"
    using b length_cells(3) [OF assms(2)] length_cells(3) [OF g(2)] by (simp add: blocks_def)
qed

lemma touched_grows:
  assumes "grows vn k b s s1" "touched s1 s2"
  shows "grows vn k b s s2"
  using assms(1) touched_sel [OF assms(2)] same_rest_trans [of s s1 s2] by (simp add: grows_def)

text \<open>A new indirect block, and an entry of it.\<close>

lemma id_new_spec:
  assumes ok: "fs_ok s" "file_ok s vn" and ib: "sfi_indirect (sv_i (vnode_heap s vn)) = 0"
  shows "wp (id_new vn) (\<lambda>r s1. case r of Inl e \<Rightarrow> e = ENOSPC \<and> s1 = s \<and> free_blocks s = {}
    | Inr (ib, buf) \<Rightarrow> grows vn 0 ib s s1 \<and> buf = id_entries s vn) s"
  unfolding id_new_def
proof (rule wp_call [OF balloc_spec [OF ok(1)]])
  have ids: "id_entries s vn = replicate SFS_DBPERIDB 0" using ib by (simp add: id_entries_def)
  fix b s' assume "case Inr b of Inl e \<Rightarrow> e = ENOSPC \<and> s' = s \<and>
      used (sfs_freemap s) = {..<nbits (sfs_freemap s)} | Inr b \<Rightarrow> alloc_step b s s'"
  then show "wp (bindP (modP (upd_inode vn (\<lambda>i. i\<lparr>sfi_indirect := b\<rparr>))) (\<lambda>_. retP (b, replicate SFS_DBPERIDB 0)))
    (\<lambda>r s1. case r of Inl e \<Rightarrow> e = ENOSPC \<and> s1 = s \<and> free_blocks s = {}
      | Inr (ib, buf) \<Rightarrow> grows vn 0 ib s s1 \<and> buf = id_entries s vn) s'"
    using grows_indirect [OF ok ib] ids by (simp add: wp_simps)
qed (use full_free [OF ok(1)] in simp)

lemma id_rest_new:
  assumes ok: "fs_ok s" "file_ok s vn" and n: "n < SFS_DBPERIDB" "fblock s vn (SFS_NDIRECT + n) = 0" and g: "grows vn 0 ib s s1"
  shows "wp (id_rest n True (id_entries s vn) ib) (bmap_post vn (SFS_NDIRECT + n) True s) s1"
proof -
  note sel = grows_indirect_sel [OF ok g]
  have "wp (id_rest n True (id_entries s vn) ib) (bmap_post vn (SFS_NDIRECT + n) True s1) s1"
    using bmap_entry [OF sel(1,2) n(1) sel(3,4)] sel(5) by simp
  then show ?thesis
  proof (rule wp_mono)
    fix r s2 assume "bmap_post vn (SFS_NDIRECT + n) True s1 r s2"
    moreover have "\<not> grows vn 0 b s1 s3" for b s3 using sel(3,4) by (simp add: grows_def cells_def)
    ultimately show "bmap_post vn (SFS_NDIRECT + n) True s r s2"
      using g n(2) sel(6) [of "SFS_NDIRECT + n"] touched_grows [OF g] by (cases r) (simp_all add: bmap_post_def, blast+)
  qed
qed

lemma bmap_indirect:
  assumes ok: "fs_ok s" "file_ok s vn" and n: "n < SFS_DBPERIDB"
  shows "wp (sfs_bmap vn (SFS_NDIRECT + n) doalloc) (bmap_post vn (SFS_NDIRECT + n) doalloc s) s"
proof -
  let ?ib = "sfi_indirect (sv_i (vnode_heap s vn))" and ?n = "SFS_NDIRECT + n"
  let ?Q = "bmap_post vn ?n doalloc s"
  have bmap: "wp (sfs_bmap vn ?n doalloc) ?Q s \<longleftrightarrow>
      wp (if ?ib = 0 \<and> \<not> doalloc then retP 0
          else bindP (if ?ib = 0 then id_new vn else bindP (sfs_rblock ?ib) (\<lambda>blk. retP (?ib, dec_words SFS_DBPERIDB blk)))
               (\<lambda>(idblock, idbuf). id_rest n doalloc idbuf idblock)) ?Q s"
    using n by (simp add: sfs_bmap_def Let_def wp_bind [of "getP _"] wp_get id_rest_def id_new_def cong: if_cong)
  have fb: "fblock s vn ?n = 0" if "?ib = 0"
    using that n length_cells(3) [OF ok(2)] by (simp add: fblock_def blocks_def id_entries_def nth_append)
  consider "?ib = 0" "\<not> doalloc" | "?ib = 0" "doalloc" | "?ib \<noteq> 0" by blast
  then show ?thesis
  proof cases
    case 1
    then show ?thesis unfolding bmap using fb touched_refl [OF ok(1)] by (simp add: wp_ret bmap_post_def)
  next
    case 2
    have "wp (bindP (id_new vn) (\<lambda>(idblock, idbuf). id_rest n doalloc idbuf idblock)) ?Q s"
      by (rule wp_call [OF id_new_spec [OF ok 2(1)]])
        (use 2(2) fb [OF 2(1)] touched_refl [OF ok(1)] id_rest_new [OF ok n fb [OF 2(1)]] in \<open>auto simp: bmap_post_def\<close>)
    then show ?thesis unfolding bmap using 2 by simp
  next
    case 3
    have r: "?ib < sp_nblocks (sfs_super s)" using cell_ok(2) [OF ok(2) _ 3] by (simp add: cells_def)
    have "wp (sfs_rblock ?ib) (\<lambda>r s1. r = Inr (disk s ?ib) \<and> touched s s1) s"
      by (rule wp_rblock_touched [OF ok(1) r]) simp
    then have "wp (bindP (sfs_rblock ?ib) (\<lambda>blk. id_rest n doalloc (dec_words SFS_DBPERIDB blk) ?ib)) ?Q s"
    proof (rule wp_call)
      fix blk s1 assume "Inr blk = Inr (disk s ?ib) \<and> touched s s1"
      then have b: "blk = disk s ?ib" and t: "touched s s1" by simp_all
      have "dec_words SFS_DBPERIDB blk = id_entries s1 vn"
        using b 3 touched_sel(7) [OF t] by (simp add: id_entries_def Let_def)
      then show "wp (id_rest n doalloc (dec_words SFS_DBPERIDB blk) ?ib) ?Q s1"
        using wp_mono [OF bmap_entry [of s1 vn n ?ib] bmap_post_touched [OF t]] touched_sel [OF t] ok n 3 by simp
    qed simp
    then show ?thesis unfolding bmap using 3 by (simp add: wp_bind wp_ret cong: sum.case_cong)
  qed
qed

section \<open>The file as a sequence of blocks\<close>

text \<open>The contents of block \<open>n\<close> of a file: a hole reads as zeros.\<close>

definition fdata :: "sfs_fs \<Rightarrow> nat \<Rightarrow> nat \<Rightarrow> bytes" where
  "fdata s vn n = (if fblock s vn n = 0 then zero_block else disk s (fblock s vn n))"

text \<open>
  The contract of everything that works on the blocks of one file: the file system and the file
  stay well formed, blocks the file gains were free, and a block that is in use by anything else
  keeps its contents.
\<close>

definition file_step :: "nat \<Rightarrow> sfs_fs \<Rightarrow> sfs_fs \<Rightarrow> bool" where
  "file_step vn s s' \<longleftrightarrow> fs_ok s' \<and> file_ok s' vn \<and> sfs_super s' = sfs_super s \<and>
     (\<forall>w. w \<noteq> vn \<longrightarrow> vnode_heap s' w = vnode_heap s w) \<and>
     used (sfs_freemap s) \<subseteq> used (sfs_freemap s') \<and>
     set (owned s' vn) \<inter> used (sfs_freemap s) \<subseteq> set (owned s vn) \<and>
     (\<forall>c\<in>used (sfs_freemap s). c \<notin> set (owned s vn) \<longrightarrow> disk s' c = disk s c)"

lemma file_step_refl: "fs_ok s \<Longrightarrow> file_ok s vn \<Longrightarrow> file_step vn s s"
  by (simp add: file_step_def)

lemma file_step_trans:
  assumes "file_step vn s s'" "file_step vn s' s''"
  shows "file_step vn s s''"
proof -
  have "disk s'' c = disk s c" if c: "c \<in> used (sfs_freemap s)" "c \<notin> set (owned s vn)" for c
  proof -
    have "c \<in> used (sfs_freemap s')" "c \<notin> set (owned s' vn)"
      using assms(1) c unfolding file_step_def by blast+
    then show ?thesis using assms c by (simp add: file_step_def)
  qed
  moreover have "set (owned s'' vn) \<inter> used (sfs_freemap s) \<subseteq> set (owned s vn)"
    using assms unfolding file_step_def by blast
  moreover have "used (sfs_freemap s) \<subseteq> used (sfs_freemap s'')"
    using assms unfolding file_step_def by blast
  ultimately show ?thesis using assms by (simp add: file_step_def)
qed

lemma file_step_touched: "fs_ok s \<Longrightarrow> file_ok s vn \<Longrightarrow> touched s s' \<Longrightarrow> file_step vn s s'"
  using touched_sel [of s s'] by (simp add: file_step_def owned_def)

lemma owned_update:
  assumes "cells s' vn = (cells s vn)[k := b]"
  shows "set (owned s' vn) \<subseteq> insert b (set (owned s vn))"
  using set_update_subset_insert [of "cells s vn" k b] assms by (auto simp: owned_cells)

lemma file_step_grows:
  assumes "fs_ok s" "file_ok s vn" "grows vn k b s s'"
  shows "file_step vn s s'"
proof -
  have g: "fs_ok s'" "file_ok s' vn" "sfs_super s' = sfs_super s" "b \<notin> used (sfs_freemap s)"
    "used (sfs_freemap s') = insert b (used (sfs_freemap s))" "cells s' vn = (cells s vn)[k := b]"
    "\<forall>w. w \<noteq> vn \<longrightarrow> vnode_heap s' w = vnode_heap s w"
    using assms(3) by (simp_all add: grows_def same_rest_def)
  have "disk s' c = disk s c" if "c \<in> used (sfs_freemap s)" "c \<notin> set (owned s vn)" for c
  proof -
    have "c = 0 \<or> c \<noteq> sfi_indirect (sv_i (vnode_heap s vn))"
      using that(2) by (auto simp: owned_def cells_def)
    then show ?thesis using assms(3) that(1) g(4) unfolding grows_def by metis
  qed
  then show ?thesis
    using g owned_update [OF g(6)] by (auto simp: file_step_def)
qed

text \<open>An allocation does not change what the file reads as.\<close>

lemma grows_fdata:
  assumes ok: "fs_ok s" "file_ok s vn" and g: "grows vn k b s s'" and m: "m < SFS_NDIRECT + SFS_DBPERIDB"
  shows "fdata s' vn m = fdata s vn m"
    "fblock s vn m \<noteq> 0 \<Longrightarrow> fblock s' vn m = fblock s vn m"
    "k \<noteq> Suc m \<Longrightarrow> fblock s' vn m = fblock s vn m"
    "k = Suc m \<Longrightarrow> fblock s vn m = 0 \<and> fblock s' vn m = b"
proof -
  have cells: "cells s vn ! k = 0" "cells s' vn = (cells s vn)[k := b]"
    and b: "b \<notin> used (sfs_freemap s)" "disk s' b = zero_block"
    and same: "\<And>c. c \<noteq> b \<Longrightarrow> c = 0 \<or> c \<noteq> sfi_indirect (sv_i (vnode_heap s vn)) \<Longrightarrow> disk s' c = disk s c"
    using g by (auto simp: grows_def)
  have fb: "fblock s vn m = cells s vn ! Suc m" "fblock s' vn m = cells s' vn ! Suc m"
    by (simp_all add: fblock_def cells_def)
  have len: "length (cells s vn) = 144" by (rule length_cells(2) [OF ok(2)])
  show other: "k \<noteq> Suc m \<Longrightarrow> fblock s' vn m = fblock s vn m" by (simp add: fb cells)
  show new: "k = Suc m \<Longrightarrow> fblock s vn m = 0 \<and> fblock s' vn m = b" using cells len m by (simp add: fb)
  show "fblock s vn m \<noteq> 0 \<Longrightarrow> fblock s' vn m = fblock s vn m" using other new by (cases "k = Suc m") auto
  show "fdata s' vn m = fdata s vn m"
  proof (cases "k = Suc m")
    case True
    then show ?thesis using new b(2) by (simp add: fdata_def)
  next
    case False
    have "disk s' (fblock s vn m) = disk s (fblock s vn m)" if "fblock s vn m \<noteq> 0"
    proof (rule same)
      show "fblock s vn m \<noteq> b" using fblock_ok(1) [OF ok(2) m that] b(1) by metis
      have "sfi_indirect (sv_i (vnode_heap s vn)) \<noteq> fblock s vn m"
      proof
        assume "sfi_indirect (sv_i (vnode_heap s vn)) = fblock s vn m"
        then have "\<not> distinct (owned s vn)"
          using that m length_cells(1) [OF ok(2)] by (auto simp: owned_def cells_def fblock_def)
        then show False using ok(2) by (simp add: file_ok_def)
      qed
      then show "fblock s vn m = 0 \<or> fblock s vn m \<noteq> sfi_indirect (sv_i (vnode_heap s vn))" by metis
    qed
    then show ?thesis using other [OF False] by (simp add: fdata_def)
  qed
qed

lemma touched_fdata: "touched s s' \<Longrightarrow> fdata s' = fdata s"
  using touched_sel [of s s'] by (simp add: fdata_def fun_eq_iff)

definition bmap_effect :: "nat \<Rightarrow> nat \<Rightarrow> bool \<Rightarrow> sfs_fs \<Rightarrow> errno + nat \<Rightarrow> sfs_fs \<Rightarrow> bool" where
  "bmap_effect vn n doalloc s r s' \<longleftrightarrow> file_step vn s s' \<and> same_rest s s' \<and>
     meta (vnode_heap s' vn) = meta (vnode_heap s vn) \<and>
     (\<forall>m<SFS_NDIRECT + SFS_DBPERIDB. fdata s' vn m = fdata s vn m \<and>
        (m \<noteq> n \<or> fblock s vn m \<noteq> 0 \<longrightarrow> fblock s' vn m = fblock s vn m)) \<and>
     (case r of
        Inr b \<Rightarrow> b = fblock s' vn n \<and> (if doalloc then b \<noteq> 0 else touched s s') \<and>
          (fblock s vn n = 0 \<and> b \<noteq> 0 \<longrightarrow> b \<notin> used (sfs_freemap s))
      | Inl e \<Rightarrow> e = ENOSPC \<and> doalloc \<and> fblock s vn n = 0 \<and> fblock s' vn n = 0)"

lemma grows_effect:
  assumes ok: "fs_ok s" "file_ok s vn" and n: "n < SFS_NDIRECT + SFS_DBPERIDB" "fblock s vn n = 0"
  shows "grows vn (Suc n) b s s' \<Longrightarrow> bmap_effect vn n True s (Inr b) s'"
    and "grows vn 0 b s s' \<Longrightarrow> bmap_effect vn n True s (Inl ENOSPC) s'"
proof -
  have rest: "same_rest s s' \<and> meta (vnode_heap s' vn) = meta (vnode_heap s vn)" "b \<noteq> 0"
      "b \<notin> used (sfs_freemap s)"
    if "grows vn k b s s'" for k using that by (simp_all add: grows_def)
  show "bmap_effect vn n True s (Inr b) s'" if g: "grows vn (Suc n) b s s'"
    using rest [OF g] file_step_grows [OF ok g] grows_fdata [OF ok g] n(1) by (auto simp: bmap_effect_def)
  show "bmap_effect vn n True s (Inl ENOSPC) s'" if g: "grows vn 0 b s s'"
    using rest [OF g] file_step_grows [OF ok g] grows_fdata [OF ok g] n by (auto simp: bmap_effect_def)
qed

lemma bmap_effect_trans:
  assumes "bmap_effect vn n True s (Inl ENOSPC) s1" "bmap_effect vn n True s1 r s'"
  shows "bmap_effect vn n True s r s'"
proof -
  have "file_step vn s s'" "same_rest s s'"
    using assms file_step_trans [of vn s s1 s'] same_rest_trans [of s s1 s'] by (simp_all add: bmap_effect_def)
  moreover have "used (sfs_freemap s) \<subseteq> used (sfs_freemap s1)"
    using assms(1) by (simp add: bmap_effect_def file_step_def)
  ultimately show ?thesis using assms by (cases r) (auto simp: bmap_effect_def)
qed

lemma bmap_post_effect:
  assumes ok: "fs_ok s" "file_ok s vn" and n: "n < SFS_NDIRECT + SFS_DBPERIDB"
    and post: "bmap_post vn n doalloc s r s'"
  shows "bmap_effect vn n doalloc s r s'"
proof -
  have t: "bmap_effect vn n doalloc s r s'"
    if "touched s s'" "r = Inr (fblock s vn n) \<and> (fblock s vn n \<noteq> 0 \<or> \<not> doalloc) \<or>
      r = Inl ENOSPC \<and> doalloc \<and> fblock s vn n = 0" for r
    using that(2) touched_sel [OF that(1)] touched_fdata [OF that(1)] file_step_touched [OF ok that(1)] that(1)
    by (auto simp: bmap_effect_def)
  have two: "bmap_effect vn n True s (Inr b) s'" if "fblock s vn n = 0" "grows vn 0 ib s s1" "grows vn (Suc n) b s1 s'"
    for b ib s1
    using grows_effect(2) [OF ok n that(1,2)] grows_effect(1) [OF _ _ n _ that(3)] that(1)
      grows_indirect_sel(1,2,6) [OF ok that(2)] bmap_effect_trans by metis
  from post show ?thesis
    unfolding bmap_post_def using t two grows_effect [OF ok n] by (cases r) auto
qed

text \<open>The number of free blocks decides between success and failure.\<close>

definition bmap_result :: "nat \<Rightarrow> nat \<Rightarrow> bool \<Rightarrow> sfs_fs \<Rightarrow> errno + nat \<Rightarrow> sfs_fs \<Rightarrow> bool" where
  "bmap_result vn n doalloc s r s' \<longleftrightarrow> bmap_effect vn n doalloc s r s' \<and>
     (case r of
        Inr _ \<Rightarrow> doalloc \<longrightarrow> space_for vn n s
      | Inl _ \<Rightarrow> \<not> space_for vn n s \<and> free_blocks s' = {})"

lemma touched_space: "touched s s' \<Longrightarrow> free_blocks s' = free_blocks s"
  using touched_sel(4,6) [of s s'] by (simp add: free_blocks_def)

lemma two_free: "grows vn k b s s1 \<Longrightarrow> grows vn j c s1 s' \<Longrightarrow> 2 \<le> card (free_blocks s)"
  using grows_free [of vn k b s s1] grows_free [of vn j c s1 s'] card_mono [of "free_blocks s" "{b, c}"] by auto

lemma bmap_post_result:
  assumes "fs_ok s" "file_ok s vn" "n < SFS_NDIRECT + SFS_DBPERIDB" "bmap_post vn n doalloc s r s'"
  shows "bmap_result vn n doalloc s r s'"
proof (cases r)
  case (Inl e)
  then have e: "fblock s vn n = 0" "free_blocks s' = {}" "touched s s' \<or> SFS_NDIRECT \<le> n \<and> (\<exists>ib. grows vn 0 ib s s')"
    using assms(4) by (simp_all add: bmap_post_def)
  have "card (free_blocks s) \<le> 1 \<and> sfi_indirect (sv_i (vnode_heap s vn)) = 0" if "grows vn 0 ib s s'" for ib
    using grows_free [OF that] e(2) that card_mono [of "{ib}" "free_blocks s"] by (auto simp: grows_def cells_def)
  then have "\<not> space_for vn n s" using e touched_space by (auto simp: space_for_def blocks_needed_def)
  then show ?thesis using bmap_post_effect [OF assms] Inl e(2) by (simp add: bmap_result_def)
next
  case (Inr b)
  have "space_for vn n s" if "doalloc"
    using assms(4) that Inr grows_free [of vn "Suc n" b s s'] two_free [of vn 0 _ s _ "Suc n" b s'] card_gt_0_iff [of "free_blocks s"]
    by (auto simp: bmap_post_def space_for_def blocks_needed_def)
  then show ?thesis using bmap_post_effect [OF assms] Inr by (simp add: bmap_result_def)
qed

section \<open>The mapping as a whole\<close>

lemma bmap_spec:
  assumes "fs_ok s" "file_ok s vn" "n < SFS_NDIRECT + SFS_DBPERIDB"
  shows "wp (sfs_bmap vn n doalloc) (bmap_result vn n doalloc s) s"
proof -
  have "wp (sfs_bmap vn n doalloc) (bmap_post vn n doalloc s) s"
    using bmap_direct [OF assms(1,2), of n] bmap_indirect [OF assms(1,2), of "n - SFS_NDIRECT"] assms(3)
    by (cases "n < SFS_NDIRECT") simp_all
  then show ?thesis by (rule wp_mono) (rule bmap_post_result [OF assms])
qed

lemma bmap_toobig:
  assumes "SFS_NDIRECT + SFS_DBPERIDB \<le> n"
  shows "sfs_bmap vn n doalloc s = Some (Inl EFBIG, s)"
proof -
  have "0 < (n - SFS_NDIRECT) div SFS_DBPERIDB"
    using assms div_le_mono [of "SFS_DBPERIDB" "n - SFS_NDIRECT" "SFS_DBPERIDB"] by simp
  then show ?thesis using assms by (simp add: sfs_bmap_def Let_def throwP_def)
qed

text \<open>Another file that shares no block keeps its blocks and contents.\<close>

lemma file_step_other:
  assumes st: "file_step vn s s'" and w: "w \<noteq> vn" "file_ok s w" "set (owned s w) \<inter> set (owned s vn) = {}"
  shows "file_ok s' w" "blocks s' w = blocks s w" "owned s' w = owned s w"
    "n < SFS_NDIRECT + SFS_DBPERIDB \<Longrightarrow> fdata s' w n = fdata s w n"
    "set (owned s' w) \<inter> set (owned s' vn) = {}"
proof -
  have h: "vnode_heap s' w = vnode_heap s w" using st w(1) by (simp add: file_step_def)
  have c: "disk s' b = disk s b" if "b \<in> set (owned s w)" for b
    using that st w(2,3) unfolding file_step_def file_ok_def by blast
  have "id_entries s' w = id_entries s w"
    using c [of "sfi_indirect (sv_i (vnode_heap s w))"] h
    by (auto simp: id_entries_def Let_def owned_def cells_def)
  then show b: "blocks s' w = blocks s w" and o: "owned s' w = owned s w"
    by (simp_all add: blocks_def owned_def cells_def h)
  show "fdata s' w n = fdata s w n" if n: "n < SFS_NDIRECT + SFS_DBPERIDB"
    using c [of "fblock s w n"] n length_cells(1) [OF w(2)]
    by (auto simp: fdata_def fblock_def b owned_def cells_def)
  have sub: "set (owned s w) \<subseteq> used (sfs_freemap s) \<inter> {..<sp_nblocks (sfs_super s)}"
    using w(2) by (simp add: file_ok_def)
  show "file_ok s' w"
    using sub w(2) st unfolding file_ok_def o h file_step_def by auto
  show "set (owned s' w) \<inter> set (owned s' vn) = {}"
    using sub w(3) st unfolding o file_step_def by blast
qed

section \<open>An example state\<close>

text \<open>A file system of 100 blocks on a working disk, with an empty file.\<close>

lemma sfs0_map_byte:
  "k < 512 \<Longrightarrow> v (sfs_freemap (sfs0 d)) ! k =
     (if k = 0 then 0x07 else if k < 12 then 0 else if k = 12 then 0xf0 else 0xff)"
  by (simp add: sfs0_def nth_append nth_Cons split: nat.split)

lemma lt8: "m < 8 \<Longrightarrow> m = 0 \<or> m = 1 \<or> m = 2 \<or> m = 3 \<or> m = 4 \<or> m = 5 \<or> m = 6 \<or> m = (7::nat)"
  by presburger

lemma sfs0_used: "used (sfs_freemap (sfs0 d)) = {..<3} \<union> {100..<4096}"
proof -
  have "nth_bit (sfs_freemap (sfs0 d)) i \<longleftrightarrow> i < 3 \<or> 100 \<le> i" if i: "i < 4096" for i
  proof -
    have im: "i = 8 * (i div 8) + i mod 8" "i mod 8 < 8" by simp_all
    have k: "i div 8 < 512" using i by simp
    have bits: "i mod 8 \<in> {0, 1, 2, 3, 4, 5, 6, 7}" using im(2) lt8 by simp
    consider "i div 8 = 0" | "0 < i div 8" "i div 8 < 12" | "i div 8 = 12" | "12 < i div 8" by linarith
    then show ?thesis
    proof cases
      case 1
      then have "i = i mod 8" using im by simp
      then show ?thesis using bits sfs0_map_byte [OF k, of d] 1 by (auto simp: nth_bit_def)
    next
      case 2
      then have "8 \<le> i" "i < 100" by simp_all
      then show ?thesis using sfs0_map_byte [OF k, of d] 2 by (simp add: nth_bit_def)
    next
      case 3
      then have "i = 96 + i mod 8" using im by simp
      then show ?thesis using bits sfs0_map_byte [OF k, of d] 3 by (auto simp: nth_bit_def)
    next
      case 4
      then have "100 \<le> i" by simp
      then show ?thesis using bits sfs0_map_byte [OF k, of d] 4 by (auto simp: nth_bit_def)
    qed
  qed
  then show ?thesis by (auto simp: used_def sfs0_def)
qed

lemma sfs0_ok: "fs_ok (sfs0 (lhd0 []))"
proof -
  have "bitmap_inv (sfs_freemap (sfs0 d))" for d
    by (simp add: bitmap_inv_def sfs0_def DIVROUNDUP_def)
  moreover have "dev_ok (lhd0 [])" using lhd0_inv [of "[]"] by (simp add: dev_ok_def)
  moreover have "sp_nblocks (sfs_super (sfs0 d)) = 100" "nbits (sfs_freemap (sfs0 d)) = 4096" for d
    by (simp_all add: sfs0_def)
  ultimately show ?thesis by (auto simp: fs_ok_def sfs0_used)
qed

lemma sfs0_inode: "sv_i (vnode_heap (sfs0 d) vn) = \<lparr>sfi_size = 0, sfi_type = 0, sfi_linkcount = 0,
    sfi_direct = replicate 15 0, sfi_indirect = 0, sfi_waste = replicate 440 0\<rparr>"
  by (simp add: sfs0_def dec_inode_def field_def dec_zeros dec_words_zeros)

lemma sfs0_file: "file_ok (sfs0 d) vn"
  by (simp add: file_ok_def sfs0_inode inode_wf_def owned_def cells_def blocks_def id_entries_def
     )

section \<open>Properties\<close>

text \<open>
  C17: \<open>sfs_bmap\<close> within the range of the inode always returns. It hands back the block of the
  file that now backs block \<open>n\<close>; with \<open>doalloc\<close> that block is never 0 and the only error is
  \<open>ENOSPC\<close>, which comes exactly when the volume has fewer free blocks than are missing (one for
  the block, one for an indirect block that is not there yet). No mapped block moves, every block of the file reads as before (new blocks read as
  zeros), the file system and the file stay well formed, and no block in use elsewhere changes.
  Beyond the range of the inode the result is \<open>EFBIG\<close> with nothing changed.
\<close>
theorem sfs_bmap_correct:
  assumes "fs_ok s" "file_ok s vn"
  shows "if n < SFS_NDIRECT + SFS_DBPERIDB
    then \<exists>r s'. sfs_bmap vn n doalloc s = Some (r, s') \<and> bmap_result vn n doalloc s r s'
    else sfs_bmap vn n doalloc s = Some (Inl EFBIG, s)"
  using bmap_spec [OF assms, of n doalloc] bmap_toobig [of n vn doalloc s] by (simp add: wp_def)

theorem sfs_bmap_correct_witness:
  "(\<exists>r s'. sfs_bmap 0 20 True (sfs0 (lhd0 [])) = Some (r, s') \<and> bmap_result 0 20 True (sfs0 (lhd0 [])) r s') \<and>
   sfs_bmap 0 143 True (sfs0 (lhd0 [])) = Some (Inl EFBIG, sfs0 (lhd0 []))"
  using sfs_bmap_correct [OF sfs0_ok sfs0_file [of _ 0], of 20 True]
    sfs_bmap_correct [OF sfs0_ok sfs0_file [of _ 0], of 143 True] by simp

end
