(* ===== verification/Sfs_Io.thy ===== *)
theory Sfs_Io
  imports Sfs_Alloc
begin

text \<open>
  Reading and writing files of the Simple File System, \<open>kern/fs/sfs/sfs_vnode.c\<close>: partial blocks
  through the buffer cache (\<open>sfs_partialio\<close>), whole blocks directly (\<open>sfs_blockio\<close>), and regions
  (\<open>sfs_io\<close>).

  File offsets are not negative. A memory fault leaves the stream as it was, so the state
  after an \<open>EFAULT\<close> is only known up to what was moved before the fault.
\<close>

section \<open>Operations\<close>

abbreviation (input) BUFFER_SIZE :: nat where "BUFFER_SIZE \<equiv> 64"

text \<open>Conversions between \<open>int\<close> and \<open>uint32_t\<close>.\<close>

definition to_s32 :: "nat \<Rightarrow> int" where
  "to_s32 n = (if n < 2 ^ 31 then int n else int n - 2 ^ 32)"

definition to_u32 :: "int \<Rightarrow> nat" where
  "to_u32 i = nat (i mod 2 ^ 32)"

definition off_block :: "int \<Rightarrow> nat" where
  "off_block off = to_u32 (off div 512)"

text \<open>The search of the cache: the slot of the block, or else the first free slot.\<close>

fun cache_scan :: "sfs_buffer_cache list \<Rightarrow> nat \<Rightarrow> int \<Rightarrow> int \<Rightarrow> nat option \<Rightarrow> nat + nat option" where
  "cache_scan [] i ino blk cache_slot = Inr cache_slot"
| "cache_scan (c # cs) i ino blk cache_slot =
     (if inode_no c = ino \<and> block_no c = blk then Inl i
      else if cache_slot = None \<and> inode_no c = -1 then cache_scan cs (Suc i) ino blk (Some i)
      else cache_scan cs (Suc i) ino blk cache_slot)"

definition set_slot :: "nat \<Rightarrow> (sfs_buffer_cache \<Rightarrow> sfs_buffer_cache) \<Rightarrow> sfs_fs \<Rightarrow> sfs_fs" where
  "set_slot i f s = s\<lparr>sfs_rcache := (sfs_rcache s)[i := f (sfs_rcache s ! i)]\<rparr>"

text \<open>\<open>uiomove(buf + skip, len, uio)\<close>, with the new contents of the whole buffer.\<close>

definition uiomove_at :: "bytes \<Rightarrow> nat \<Rightarrow> nat \<Rightarrow> (ustream \<times> sfs_fs, bytes) proc" where
  "uiomove_at buf skip len =
     bindP (uiomoveP (take len (drop skip buf)) len) (\<lambda>part.
     retP (take skip buf @ part @ drop (skip + len) buf))"

definition uiomove_slot :: "nat \<Rightarrow> nat \<Rightarrow> nat \<Rightarrow> (ustream \<times> sfs_fs, unit) proc" where
  "uiomove_slot i skip len =
     bindP (getP (\<lambda>(_, s). cache (sfs_rcache s ! i))) (\<lambda>buf.
     bindP (uiomove_at buf skip len) (\<lambda>buf.
     modP (\<lambda>(u, s). (u, set_slot i (\<lambda>c. c\<lparr>cache := buf\<rparr>) s))))"

definition uiomovezerosP :: "nat \<Rightarrow> (ustream \<times> 's, unit) proc" where
  "uiomovezerosP n =
     bindP (getP (\<lambda>(u, _). us_rw u)) (\<lambda>rw.
     bindP (assertP (rw = UIO_READ)) (\<lambda>_.
     bindP (uiomoveP (replicate n 0) n) (\<lambda>_. retP ())))"

definition next_random :: "(sfs_fs, nat) proc" where
  "next_random =
     bindP (getP (\<lambda>s. case env_random s of [] \<Rightarrow> 0 | r # _ \<Rightarrow> r)) (\<lambda>r.
     bindP (modP (\<lambda>s. s\<lparr>env_random := tl (env_random s)\<rparr>)) (\<lambda>_. retP r))"

text \<open>\<open>sfs_partialio\<close> once the disk block is known: a hole, or a block that goes through the cache.\<close>

definition partial_replace :: "nat \<Rightarrow> nat \<Rightarrow> nat \<Rightarrow> (ustream \<times> sfs_fs, unit) proc" where
  "partial_replace skipstart len diskblock =
     bindP (sndP next_random) (\<lambda>r.
     let cache_slot = r mod BUFFER_SIZE in
     bindP (getP (\<lambda>(_, s). sfs_rcache s ! cache_slot)) (\<lambda>c.
     tryP (sndP (sfs_wblock (cache c) (to_u32 (block_no c)))) (\<lambda>_.
     bindP (sndP (sfs_rblock diskblock)) (\<lambda>blk.
     bindP (modP (\<lambda>(u, s). (u, set_slot cache_slot (\<lambda>c. c\<lparr>cache := blk\<rparr>) s))) (\<lambda>_.
     bindP (sndP (sfs_rblock diskblock)) (\<lambda>iobuf.
     bindP (uiomove_at iobuf skipstart len) (\<lambda>iobuf.
     bindP (getP (\<lambda>(u, _). us_rw u)) (\<lambda>rw.
     if rw = UIO_WRITE then sndP (sfs_wblock iobuf diskblock) else retP ()))))))))"

definition partial_block :: "nat \<Rightarrow> nat \<Rightarrow> nat \<Rightarrow> nat \<Rightarrow> (ustream \<times> sfs_fs, unit) proc" where
  "partial_block vn skipstart len diskblock =
     (if diskblock = 0 then
        bindP (getP (\<lambda>(u, _). us_rw u)) (\<lambda>rw.
        bindP (assertP (rw = UIO_READ)) (\<lambda>_.
        bindP (uiomove_at (replicate SFS_BLOCKSIZE 0) skipstart len) (\<lambda>_. retP ())))
      else
        bindP (getP snd) (\<lambda>s.
        let ino = sv_ino (vnode_heap s vn) in
        case cache_scan (sfs_rcache s) 0 (to_s32 ino) (to_s32 diskblock) None of
          Inl i \<Rightarrow> uiomove_slot i skipstart len
        | Inr (Some i) \<Rightarrow>
            tryP (sndP (sfs_rblock diskblock)) (\<lambda>result.
            bindP (modP (\<lambda>(u, s). (u, set_slot i (\<lambda>c.
              \<lparr>cache = (case result of Inl _ \<Rightarrow> cache c | Inr blk \<Rightarrow> blk),
               inode_no = to_s32 ino, block_no = to_s32 diskblock\<rparr>) s))) (\<lambda>_.
            uiomove_slot i skipstart len))
        | Inr None \<Rightarrow> partial_replace skipstart len diskblock))"

definition sfs_partialio :: "nat \<Rightarrow> nat \<Rightarrow> nat \<Rightarrow> (ustream \<times> sfs_fs, unit) proc" where
  "sfs_partialio vn skipstart len =
     bindP (getP fst) (\<lambda>uio.
     let doalloc = (us_rw uio = UIO_WRITE) in
     bindP (assertP (wrap32 (skipstart + len) \<le> SFS_BLOCKSIZE)) (\<lambda>_.
     let fileblock = off_block (us_offset uio) in
     bindP (sndP (sfs_bmap vn fileblock doalloc)) (\<lambda>diskblock.
     partial_block vn skipstart len diskblock)))"

text \<open>\<open>sfs_blockio\<close> once the disk block is known.\<close>

definition whole_block :: "nat \<Rightarrow> (ustream \<times> sfs_fs, unit) proc" where
  "whole_block diskblock =
     bindP (getP fst) (\<lambda>uio.
     if diskblock = 0 then
       bindP (assertP (us_rw uio = UIO_READ)) (\<lambda>_. uiomovezerosP SFS_BLOCKSIZE)
     else
       let saveoff = us_offset uio;
           diskoff = int (wrap32 (diskblock * SFS_BLOCKSIZE));
           saveres = us_resid uio
       in
       bindP (assertP (us_resid uio \<ge> SFS_BLOCKSIZE)) (\<lambda>_.
       bindP (modP (\<lambda>(u, s). (u\<lparr>us_offset := diskoff, us_resid := SFS_BLOCKSIZE\<rparr>, s))) (\<lambda>_.
       tryP sfs_rwblock (\<lambda>result.
       bindP (modP (\<lambda>(u, s). (u\<lparr>us_offset := (us_offset u - diskoff) + saveoff,
          us_resid := (us_resid u + saveres) - SFS_BLOCKSIZE\<rparr>, s))) (\<lambda>_.
       case result of Inl e \<Rightarrow> throwP e | Inr _ \<Rightarrow> retP ())))))"

definition sfs_blockio :: "nat \<Rightarrow> (ustream \<times> sfs_fs, unit) proc" where
  "sfs_blockio vn =
     bindP (getP fst) (\<lambda>uio.
     let doalloc = (us_rw uio = UIO_WRITE);
         fileblock = off_block (us_offset uio)
     in
     bindP (sndP (sfs_bmap vn fileblock doalloc)) (\<lambda>diskblock.
     whole_block diskblock))"

text \<open>
  The transfer proper of \<open>sfs_io\<close>, everything before the label \<open>out\<close>: first the part from where
  the offset is aligned, then the whole.
\<close>

definition sfs_io_aligned :: "nat \<Rightarrow> (ustream \<times> sfs_fs, unit) proc" where
  "sfs_io_aligned vn =
     bindP (getP fst) (\<lambda>uio.
     if us_resid uio = 0 then retP ()
     else
       bindP (assertP (us_offset uio mod 512 = 0)) (\<lambda>_.
       let nblocks = us_resid uio div SFS_BLOCKSIZE in
       bindP (forP [0..<nblocks] (\<lambda>i. sfs_blockio vn)) (\<lambda>_.
       bindP (getP fst) (\<lambda>uio.
       bindP (assertP (us_resid uio < SFS_BLOCKSIZE)) (\<lambda>_.
       if us_resid uio > 0 then sfs_partialio vn 0 (us_resid uio) else retP ())))))"

definition sfs_io_blocks :: "nat \<Rightarrow> (ustream \<times> sfs_fs, unit) proc" where
  "sfs_io_blocks vn =
     bindP (getP fst) (\<lambda>uio.
     let blkoff = nat (us_offset uio mod 512) in
     bindP (if blkoff \<noteq> 0 then
              let skip = blkoff;
                  len = SFS_BLOCKSIZE - blkoff;
                  len = (if len > us_resid uio then us_resid uio else len)
              in sfs_partialio vn skip len
            else retP ()) (\<lambda>_. sfs_io_aligned vn))"

text \<open>The end of \<open>sfs_io\<close>, from the label \<open>out\<close> on.\<close>

definition sfs_io_out :: "nat \<Rightarrow> nat \<Rightarrow> errno + unit \<Rightarrow> (ustream \<times> sfs_fs, unit) proc" where
  "sfs_io_out vn extraresid result =
     bindP (modP (\<lambda>(u, s).
       if us_rw u = UIO_WRITE \<and> us_offset u > int (sfi_size (sv_i (vnode_heap s vn)))
       then (u, upd_inode vn (\<lambda>i. i\<lparr>sfi_size := to_u32 (us_offset u)\<rparr>) s)
       else (u, s))) (\<lambda>_.
     bindP (modP (\<lambda>(u, s). (u\<lparr>us_resid := wrap32 (us_resid u + extraresid)\<rparr>, s))) (\<lambda>_.
     case result of Inl e \<Rightarrow> throwP e | Inr _ \<Rightarrow> retP ()))"

definition sfs_io :: "nat \<Rightarrow> (ustream \<times> sfs_fs, unit) proc" where
  "sfs_io vn =
     bindP (getP id) (\<lambda>(uio, s).
     let size = int (sfi_size (sv_i (vnode_heap s vn)));
         endpos = us_offset uio + int (us_resid uio)
     in
     if us_rw uio = UIO_READ \<and> us_offset uio \<ge> size then retP ()
     else
       let extraresid = (if us_rw uio = UIO_READ \<and> endpos > size then to_u32 (endpos - size) else 0) in
       bindP (if us_rw uio = UIO_READ \<and> endpos > size then
                bindP (assertP (us_resid uio > extraresid)) (\<lambda>_.
                modP (\<lambda>(u, s). (u\<lparr>us_resid := us_resid u - extraresid\<rparr>, s)))
              else retP ()) (\<lambda>_.
       tryP (sfs_io_blocks vn) (sfs_io_out vn extraresid)))"

section \<open>The cache\<close>

lemma to_s32_inj: "m < 2 ^ 32 \<Longrightarrow> n < 2 ^ 32 \<Longrightarrow> to_s32 m = to_s32 n \<longleftrightarrow> m = n"
  by (auto simp: to_s32_def)

lemma to_s32_free: "n < 2 ^ 31 \<Longrightarrow> to_s32 n \<noteq> -1"
  by (simp add: to_s32_def)

lemma to_u32_s32 [simp]: "n < 2 ^ 32 \<Longrightarrow> to_u32 (to_s32 n) = n"
  by (auto simp: to_s32_def to_u32_def mod_pos_pos_trivial)

lemma find_update_other:
  "i < length xs \<Longrightarrow> \<not> P (xs ! i) \<Longrightarrow> \<not> P c \<Longrightarrow> List.find P (xs[i := c]) = List.find P xs"
proof (induction xs arbitrary: i)
  case (Cons x xs)
  then show ?case by (cases i) auto
qed simp

lemma find_update_first:
  "i < length xs \<Longrightarrow> \<forall>j<i. \<not> P (xs ! j) \<Longrightarrow> P c \<Longrightarrow> List.find P (xs[i := c]) = Some c"
  by (auto simp: find_Some_iff nth_list_update intro!: exI [of _ i])

definition slot_is :: "nat \<Rightarrow> nat \<Rightarrow> sfs_buffer_cache \<Rightarrow> bool" where
  "slot_is ino b c \<longleftrightarrow> inode_no c = to_s32 ino \<and> block_no c = to_s32 b"

text \<open>The cached contents of block \<open>b\<close> of inode \<open>ino\<close>, and the number of free slots.\<close>

definition cached :: "sfs_fs \<Rightarrow> nat \<Rightarrow> nat \<Rightarrow> bytes option" where
  "cached s ino b = map_option cache (List.find (slot_is ino b) (sfs_rcache s))"

definition free_slots :: "sfs_fs \<Rightarrow> nat" where
  "free_slots s = length (filter (\<lambda>c. inode_no c = -1) (sfs_rcache s))"

definition cache_ok :: "sfs_fs \<Rightarrow> bool" where
  "cache_ok s \<longleftrightarrow> length (sfs_rcache s) = BUFFER_SIZE \<and>
     (\<forall>c\<in>set (sfs_rcache s). length (cache c) = SFS_BLOCKSIZE \<and>
        (inode_no c \<noteq> -1 \<longrightarrow> (\<exists>b\<in>used (sfs_freemap s). block_no c = to_s32 b)))"

lemma cache_scan_match:
  assumes "i < length cs" "\<forall>j<i. \<not> slot_is ino b (cs ! j)" "slot_is ino b (cs ! i)"
  shows "cache_scan cs k (to_s32 ino) (to_s32 b) sl = Inl (k + i)"
  using assms
proof (induction cs arbitrary: i k sl)
  case (Cons c cs)
  show ?case
  proof (cases i)
    case 0
    then show ?thesis using Cons.prems by (simp add: slot_is_def)
  next
    case (Suc i')
    then have "\<not> slot_is ino b c" "\<forall>j<i'. \<not> slot_is ino b (cs ! j)" using Cons.prems(2) by force+
    then show ?thesis
      using Cons.IH [of i'] Cons.prems Suc by (auto simp: slot_is_def)
  qed
qed simp

lemma cache_scan_free:
  assumes "i < length cs" "\<forall>c\<in>set cs. \<not> slot_is ino b c" "inode_no (cs ! i) = -1"
  shows "\<exists>j. cache_scan cs k (to_s32 ino) (to_s32 b) None = Inr (Some (k + j)) \<and>
    j < length cs \<and> inode_no (cs ! j) = -1"
proof -
  have some: "cache_scan cs k (to_s32 ino) (to_s32 b) (Some l) = Inr (Some l)"
    if "\<forall>c\<in>set cs. \<not> slot_is ino b c" for cs k l
    using that by (induction cs arbitrary: k) (auto simp: slot_is_def)
  show ?thesis
    using assms
  proof (induction cs arbitrary: i k)
    case (Cons c cs)
    have nc: "\<not> slot_is ino b c" using Cons.prems(2) by simp
    show ?case
    proof (cases "inode_no c = -1")
      case True
      then show ?thesis using nc Cons.prems(2) some [of cs "Suc k" k]
        by (intro exI [of _ 0]) (auto simp: slot_is_def)
    next
      case False
      then obtain i' where i': "i = Suc i'" using Cons.prems by (cases i) auto
      obtain j where "cache_scan cs (Suc k) (to_s32 ino) (to_s32 b) None = Inr (Some (Suc k + j))"
        "j < length cs" "inode_no (cs ! j) = -1"
        using Cons.IH [of i' "Suc k"] Cons.prems i' by auto
      then show ?thesis using nc False by (intro exI [of _ "Suc j"]) (auto simp: slot_is_def)
    qed
  qed simp
qed

text \<open>Either the block has a slot, which the scan finds, or the scan finds a free one.\<close>

lemma cache_scan_cases:
  assumes "cached s ino b \<noteq> None \<or> 0 < free_slots s"
  obtains (hit) i where "cache_scan (sfs_rcache s) 0 (to_s32 ino) (to_s32 b) None = Inl i"
      "i < length (sfs_rcache s)" "slot_is ino b (sfs_rcache s ! i)"
      "\<forall>j<i. \<not> slot_is ino b (sfs_rcache s ! j)" "cached s ino b = Some (cache (sfs_rcache s ! i))"
  | (load) i where "cache_scan (sfs_rcache s) 0 (to_s32 ino) (to_s32 b) None = Inr (Some i)"
      "i < length (sfs_rcache s)" "inode_no (sfs_rcache s ! i) = -1" "0 < free_slots s"
      "\<forall>c\<in>set (sfs_rcache s). \<not> slot_is ino b c" "cached s ino b = None"
proof (cases "List.find (slot_is ino b) (sfs_rcache s)")
  case (Some c)
  then obtain i where i: "i < length (sfs_rcache s)" "slot_is ino b (sfs_rcache s ! i)"
    "c = sfs_rcache s ! i" "\<forall>j<i. \<not> slot_is ino b (sfs_rcache s ! j)"
    by (auto simp: find_Some_iff)
  then show ?thesis
    using hit [of i] cache_scan_match [OF i(1,4,2), of 0] Some by (simp add: cached_def)
next
  case None
  then have n: "\<forall>c\<in>set (sfs_rcache s). \<not> slot_is ino b c" by (simp add: find_None_iff)
  have c: "cached s ino b = None" using None by (simp add: cached_def)
  then have f: "0 < free_slots s" using assms by simp
  then obtain k where "k < length (sfs_rcache s)" "inode_no (sfs_rcache s ! k) = -1"
    by (auto simp: free_slots_def filter_empty_conv in_set_conv_nth)
  then show ?thesis using cache_scan_free [OF _ n, of k 0] load n c f by auto
qed

section \<open>Logical contents\<close>

text \<open>What a file holds: the cached copy of a block where there is one, else the block on disk.\<close>

definition ldata :: "sfs_fs \<Rightarrow> nat \<Rightarrow> nat \<Rightarrow> bytes" where
  "ldata s vn n =
     (if fblock s vn n = 0 then zero_block
      else case cached s (sv_ino (vnode_heap s vn)) (fblock s vn n) of
        Some d \<Rightarrow> d
      | None \<Rightarrow> disk s (fblock s vn n))"

definition overlay :: "nat \<Rightarrow> bytes \<Rightarrow> bytes \<Rightarrow> bytes" where
  "overlay skip part buf = take skip buf @ part @ drop (skip + length part) buf"

lemma length_overlay: "skip + length part \<le> length buf \<Longrightarrow> length (overlay skip part buf) = length buf"
  by (simp add: overlay_def)

lemma nth_overlay:
  assumes "skip + length part \<le> length buf" "j < length buf"
  shows "overlay skip part buf ! j =
    (if skip \<le> j \<and> j < skip + length part then part ! (j - skip) else buf ! j)"
  using assms by (auto simp: overlay_def nth_append)

text \<open>Moving \<open>k\<close> bytes of the region \<open>d\<close> through a stream, without a fault.\<close>

definition advance :: "nat \<Rightarrow> bytes \<Rightarrow> ustream \<Rightarrow> ustream" where
  "advance k d u = u\<lparr>us_offset := us_offset u + int k, us_resid := us_resid u - k, us_good := us_good u - k,
     us_bytes := (case us_rw u of UIO_READ \<Rightarrow> us_bytes u @ take k d | UIO_WRITE \<Rightarrow> drop k (us_bytes u))\<rparr>"

text \<open>A stream that can move \<open>k\<close> more bytes.\<close>

definition can_move :: "nat \<Rightarrow> ustream \<Rightarrow> bool" where
  "can_move k u \<longleftrightarrow> k \<le> us_resid u \<and> k \<le> us_good u \<and> (us_rw u = UIO_WRITE \<longrightarrow> k \<le> length (us_bytes u))"

definition stored :: "nat \<Rightarrow> nat \<Rightarrow> ustream \<Rightarrow> bytes \<Rightarrow> bytes" where
  "stored skip k u d = (case us_rw u of UIO_READ \<Rightarrow> d | UIO_WRITE \<Rightarrow> overlay skip (take k (us_bytes u)) d)"

lemma uiomove_at_run:
  assumes "can_move len u" "skip + len \<le> length buf"
  shows "uiomove_at buf skip len (u, s) = Some (Inr (stored skip len u buf), advance len (drop skip buf) u, s)"
proof (cases "us_rw u")
  case UIO_READ
  have "take skip buf @ take len (drop skip buf) @ drop (skip + len) buf = buf"
    by (metis append_take_drop_id drop_drop add.commute)
  then show ?thesis
    using assms UIO_READ uiomove_s_ok [of len u "take len (drop skip buf)"]
    by (simp add: uiomove_at_def bindP_def uiomoveP_def retP_def can_move_def stored_def advance_def)
next
  case UIO_WRITE
  then show ?thesis
    using assms uiomove_s_ok [of len u "take len (drop skip buf)"]
    by (simp add: uiomove_at_def bindP_def uiomoveP_def retP_def can_move_def stored_def advance_def overlay_def)
qed

lemma uiomove_slot_run:
  assumes "can_move len u" "skip + len \<le> length (cache (sfs_rcache s ! i))"
  shows "uiomove_slot i skip len (u, s) =
    Some (Inr (), advance len (drop skip (cache (sfs_rcache s ! i))) u,
      set_slot i (\<lambda>c. c\<lparr>cache := stored skip len u (cache c)\<rparr>) s)"
  using uiomove_at_run [OF assms]
  by (simp add: uiomove_slot_def bindP_def getP_def modP_def set_slot_def)

lemma length_stored:
  "can_move len u \<Longrightarrow> skip + len \<le> length d \<Longrightarrow> length (stored skip len u d) = length d"
  by (simp add: stored_def can_move_def length_overlay split: uio_rw.split)

lemma set_slot_sel [simp]:
  "sfs_device (set_slot i f s) = sfs_device s" "sfs_freemap (set_slot i f s) = sfs_freemap s"
  "sfs_super (set_slot i f s) = sfs_super s" "vnode_heap (set_slot i f s) = vnode_heap s"
  "sfs_rcache (set_slot i f s) = (sfs_rcache s)[i := f (sfs_rcache s ! i)]"
  "fs_ok (set_slot i f s) = fs_ok s" "fblock (set_slot i f s) = fblock s"
  "owned (set_slot i f s) = owned s" "file_ok (set_slot i f s) = file_ok s"
  by (auto simp: set_slot_def fs_ok_def fblock_def blocks_def id_entries_def owned_def cells_def
      file_ok_def fun_eq_iff Let_def)

lemma file_step_set_slot [simp]: "file_step vn s (set_slot i f s') = file_step vn s s'"
  by (simp add: file_step_def)

text \<open>
  Filling slot \<open>i\<close> with block \<open>b\<close> of \<open>ino\<close>: that block now reads as \<open>d\<close> and no other block is
  affected, if the slot was the first for \<open>b\<close> or was free with no slot for \<open>b\<close>.
\<close>

definition slot_for :: "nat \<Rightarrow> nat \<Rightarrow> nat \<Rightarrow> sfs_fs \<Rightarrow> bool" where
  "slot_for ino b i s \<longleftrightarrow> i < length (sfs_rcache s) \<and> (\<forall>j<i. \<not> slot_is ino b (sfs_rcache s ! j)) \<and>
     (slot_is ino b (sfs_rcache s ! i) \<or> inode_no (sfs_rcache s ! i) = -1)"

lemma cached_set_slot:
  assumes "slot_for ino b i s" "slot_is ino b (f (sfs_rcache s ! i))"
  shows "cached (set_slot i f s) ino b = Some (cache (f (sfs_rcache s ! i)))"
    "ino < 2 ^ 31 \<Longrightarrow> b < 2 ^ 32 \<Longrightarrow> ino' < 2 ^ 31 \<Longrightarrow> b' < 2 ^ 32 \<Longrightarrow> (ino', b') \<noteq> (ino, b) \<Longrightarrow>
      cached (set_slot i f s) ino' b' = cached s ino' b'"
proof -
  show "cached (set_slot i f s) ino b = Some (cache (f (sfs_rcache s ! i)))"
    using assms find_update_first [of i "sfs_rcache s" "slot_is ino b"] by (simp add: cached_def slot_for_def)
  assume r: "ino < 2 ^ 31" "b < 2 ^ 32" "ino' < 2 ^ 31" "b' < 2 ^ 32" "(ino', b') \<noteq> (ino, b)"
  have ne: "\<not> slot_is ino' b' c" if "slot_is ino b c" for c
    using that r to_s32_inj [of ino ino'] to_s32_inj [of b b'] by (auto simp: slot_is_def)
  have "\<not> slot_is ino' b' (sfs_rcache s ! i)"
    using assms(1) ne [of "sfs_rcache s ! i"] to_s32_free [OF r(3)]
    unfolding slot_for_def slot_is_def [of ino'] by metis
  then show "cached (set_slot i f s) ino' b' = cached s ino' b'"
    using assms find_update_other [of i "sfs_rcache s" "slot_is ino' b'"] ne
    by (simp add: cached_def slot_for_def)
qed

lemma free_slots_update:
  assumes "i < length (sfs_rcache s)"
  shows "free_slots s \<le> Suc (free_slots (set_slot i f s))"
    "inode_no (f (sfs_rcache s ! i)) = inode_no (sfs_rcache s ! i) \<Longrightarrow> free_slots (set_slot i f s) = free_slots s"
proof -
  let ?P = "\<lambda>c. inode_no c = -1" and ?x = "sfs_rcache s ! i"
  have l: "filter ?P (sfs_rcache s) =
      filter ?P (take i (sfs_rcache s)) @ (if ?P ?x then [?x] else []) @ filter ?P (drop (Suc i) (sfs_rcache s))"
    using arg_cong [OF id_take_nth_drop [OF assms], of "filter ?P"] by simp
  have r: "filter ?P ((sfs_rcache s)[i := f ?x]) =
      filter ?P (take i (sfs_rcache s)) @ (if ?P (f ?x) then [f ?x] else []) @ filter ?P (drop (Suc i) (sfs_rcache s))"
    using assms by (simp add: upd_conv_take_nth_drop)
  show "free_slots s \<le> Suc (free_slots (set_slot i f s))"
    unfolding free_slots_def set_slot_sel l r by simp
  show "inode_no (f ?x) = inode_no ?x \<Longrightarrow> free_slots (set_slot i f s) = free_slots s"
    unfolding free_slots_def set_slot_sel l r by simp
qed

lemma cache_ok_set_slot:
  assumes "cache_ok s" "i < length (sfs_rcache s)" "length (cache (f (sfs_rcache s ! i))) = SFS_BLOCKSIZE"
    and "block_no (f (sfs_rcache s ! i)) = to_s32 b" "b \<in> used (sfs_freemap s)"
  shows "cache_ok (set_slot i f s)"
  using assms by (auto simp: cache_ok_def dest!: set_update_subset_insert [THEN subsetD])

lemma cache_ok_mono:
  assumes "cache_ok s" "sfs_rcache s' = sfs_rcache s" "used (sfs_freemap s) \<subseteq> used (sfs_freemap s')"
  shows "cache_ok s'"
  using assms(1,3) unfolding cache_ok_def assms(2) by (meson subsetD)

text \<open>Block numbers fit the tags.\<close>

lemma fblock_bound:
  assumes "fs_ok s" "file_ok s vn" "n < SFS_NDIRECT + SFS_DBPERIDB"
  shows "fblock s vn n < 2 ^ 32"
  using fblock_ok(2) [OF assms(2,3)] fs_okD(6) [OF assms(1), of "fblock s vn n"]
  by (cases "fblock s vn n = 0") auto

lemma filter_dup:
  fixes xs :: "nat list"
  assumes "i < j" "j < length xs" "xs ! i = xs ! j" "P (xs ! j)"
  shows "\<not> distinct (filter P xs)"
proof -
  have "xs ! j \<in> set (take j xs)" using assms(1-3) nth_mem [of i "take j xs"] by simp
  moreover have "xs ! j \<in> set (drop j xs)" using assms(2) nth_mem [of 0 "drop j xs"] by simp
  moreover have "filter P xs = filter P (take j xs) @ filter P (drop j xs)"
    unfolding filter_append [symmetric] append_take_drop_id ..
  ultimately show ?thesis using assms(4) by auto
qed

lemma fblock_inj:
  assumes "file_ok s vn" "m < SFS_NDIRECT + SFS_DBPERIDB" "n < SFS_NDIRECT + SFS_DBPERIDB"
    and "fblock s vn m = fblock s vn n" "fblock s vn n \<noteq> 0"
  shows "m = n"
proof (rule ccontr)
  assume "m \<noteq> n"
  have "distinct (filter (\<lambda>b. b \<noteq> 0) (blocks s vn))"
    using assms(1) by (simp add: file_ok_def owned_def cells_def split: if_splits)
  then show False
    using filter_dup [of m n "blocks s vn" "\<lambda>b. b \<noteq> 0"] filter_dup [of n m "blocks s vn" "\<lambda>b. b \<noteq> 0"]
      assms length_cells(1) [OF assms(1)] \<open>m \<noteq> n\<close> by (auto simp: fblock_def neq_iff)
qed

lemma cached_used:
  assumes "cache_ok s" "fs_ok s" "ino < 2 ^ 31" "b < 2 ^ 32" "b \<notin> used (sfs_freemap s)"
  shows "cached s ino b = None"
proof -
  have "\<not> slot_is ino b c" if c: "c \<in> set (sfs_rcache s)" for c
  proof
    assume sl: "slot_is ino b c"
    then obtain b' where b': "b' \<in> used (sfs_freemap s)" "to_s32 b = to_s32 b'"
      using assms(1) c to_s32_free [OF assms(3)] by (auto simp: cache_ok_def slot_is_def)
    have "b' < 2 ^ 32" using b'(1) fs_okD(2) [OF assms(2)] by (auto simp: used_def bitmap_inv_def)
    then show False using b' assms(4,5) to_s32_inj by metis
  qed
  then have "List.find (slot_is ino b) (sfs_rcache s) = None" by (simp add: find_None_iff)
  then show ?thesis by (simp add: cached_def)
qed

text \<open>Mapping a block, allocated or not, changes no logical contents.\<close>

lemma bmap_ldata:
  assumes ok: "fs_ok s" "file_ok s vn" "cache_ok s" "sv_ino (vnode_heap s vn) < 2 ^ 31"
    and r: "bmap_result vn n doalloc s r s'" and m: "m < SFS_NDIRECT + SFS_DBPERIDB"
  shows "ldata s' vn m = ldata s vn m" "cache_ok s'" "sfs_rcache s' = sfs_rcache s"
    "cached s' ino b = cached s ino b" "sv_ino (vnode_heap s' vn) = sv_ino (vnode_heap s vn)"
proof -
  have st: "file_step vn s s'" "sfs_rcache s' = sfs_rcache s" "meta (vnode_heap s' vn) = meta (vnode_heap s vn)"
    "fdata s' vn m = fdata s vn m" "m \<noteq> n \<or> fblock s vn m \<noteq> 0 \<Longrightarrow> fblock s' vn m = fblock s vn m"
    using r m by (auto simp: bmap_result_def bmap_effect_def same_rest_def)
  show ino: "sv_ino (vnode_heap s' vn) = sv_ino (vnode_heap s vn)" using st(3) by (simp add: meta_def)
  have c: "cached s' ino b = cached s ino b" for ino b using st(2) by (simp add: cached_def)
  then show "cached s' ino b = cached s ino b" .
  show "sfs_rcache s' = sfs_rcache s" by (rule st(2))
  show "cache_ok s'" using cache_ok_mono [OF ok(3) st(2)] st(1) by (simp add: file_step_def)
  show "ldata s' vn m = ldata s vn m"
  proof (cases "fblock s' vn m = fblock s vn m")
    case True
    then show ?thesis using st(4) by (auto simp: ldata_def fdata_def ino c split: option.splits if_splits)
  next
    case False
    then have mn: "m = n" "fblock s vn m = 0" using st(5) by blast+
    moreover from this False have nz: "fblock s' vn m \<noteq> 0" by simp
    ultimately have "fblock s' vn m \<notin> used (sfs_freemap s)"
      using r by (auto simp: bmap_result_def bmap_effect_def split: sum.splits)
    then have "cached s (sv_ino (vnode_heap s vn)) (fblock s' vn m) = None"
      using cached_used [OF ok(3,1,4)] fblock_bound [of s' vn m] st(1) m by (simp add: file_step_def)
    then show ?thesis using mn nz st(4) by (simp add: ldata_def fdata_def ino c)
  qed
qed

section \<open>Partial blocks\<close>

text \<open>
  The effect of moving \<open>len\<close> bytes at \<open>skip\<close> in block \<open>n\<close>: the stream advances over the logical
  contents, and a write changes those bytes of that block and nothing else.
\<close>

definition block_moved :: "nat \<Rightarrow> nat \<Rightarrow> nat \<Rightarrow> nat \<Rightarrow> ustream \<Rightarrow> sfs_fs \<Rightarrow> ustream \<Rightarrow> sfs_fs \<Rightarrow> bool" where
  "block_moved vn n skip len u s u' s' \<longleftrightarrow> u' = advance len (drop skip (ldata s vn n)) u \<and>
     (\<forall>m<SFS_NDIRECT + SFS_DBPERIDB. ldata s' vn m =
        (if m = n then stored skip len u (ldata s vn n) else ldata s vn m))"

text \<open>What a step on block \<open>n\<close> may do to the rest.\<close>

definition io_frame :: "nat \<Rightarrow> nat \<Rightarrow> sfs_fs \<Rightarrow> sfs_fs \<Rightarrow> bool" where
  "io_frame vn n s s' \<longleftrightarrow> file_step vn s s' \<and> cache_ok s' \<and> meta (vnode_heap s' vn) = meta (vnode_heap s vn) \<and>
     free_slots s \<le> Suc (free_slots s') \<and>
     (\<forall>m<SFS_NDIRECT + SFS_DBPERIDB. m \<noteq> n \<or> fblock s vn m \<noteq> 0 \<longrightarrow> fblock s' vn m = fblock s vn m) \<and>
     (\<forall>ino<2 ^ 31. \<forall>b<2 ^ 32. (ino, b) \<noteq> (sv_ino (vnode_heap s vn), fblock s' vn n) \<longrightarrow>
        cached s' ino b = cached s ino b)"

text \<open>What keeps the free blocks and the mapping of the file.\<close>

definition same_space :: "nat \<Rightarrow> sfs_fs \<Rightarrow> sfs_fs \<Rightarrow> bool" where
  "same_space vn s s' \<longleftrightarrow> sfs_super s' = sfs_super s \<and> sfs_freemap s' = sfs_freemap s \<and> fblock s' vn = fblock s vn \<and>
     sfi_indirect (sv_i (vnode_heap s' vn)) = sfi_indirect (sv_i (vnode_heap s vn))"

lemma same_space_refl [simp]: "same_space vn s s"
  by (simp add: same_space_def)

lemma same_space_trans: "same_space vn s s1 \<Longrightarrow> same_space vn s1 s2 \<Longrightarrow> same_space vn s s2"
  by (simp add: same_space_def)

lemma same_space_for: "same_space vn s s' \<Longrightarrow> space_for vn n s' = space_for vn n s"
  by (simp add: same_space_def space_for_def blocks_needed_def free_blocks_def)

lemma touched_same: "touched s s' \<Longrightarrow> same_space vn s s'"
  using touched_sel [of s s'] by (simp add: same_space_def)

lemma bmap_frame:
  assumes "fs_ok s" "file_ok s vn" "cache_ok s" "sv_ino (vnode_heap s vn) < 2 ^ 31"
    and "bmap_result vn n doalloc s r s'"
  shows "io_frame vn n s s'"
  using bmap_ldata(2-) [OF assms, of 0] assms(5)
  by (simp add: io_frame_def bmap_result_def bmap_effect_def free_slots_def)

lemma length_ldata:
  assumes "fs_ok s" "cache_ok s"
  shows "length (ldata s vn n) = SFS_BLOCKSIZE"
  using assms fs_okD(1) [OF assms(1)]
  by (auto simp: ldata_def cached_def cache_ok_def dev_ok_def lhd_inv_def find_Some_iff split: option.splits)

text \<open>Working on the slot of block \<open>n\<close>, whether it was there or has just been loaded.\<close>

lemma slot_step:
  assumes ok: "fs_ok s" "file_ok s vn" "cache_ok s" "sv_ino (vnode_heap s vn) = ino" "ino < 2 ^ 31"
    and n: "n < SFS_NDIRECT + SFS_DBPERIDB" "fblock s vn n = b" "b \<noteq> 0"
    and i: "slot_for ino b i s" and f: "slot_is ino b (f (sfs_rcache s ! i))"
    and len: "length (cache (f (sfs_rcache s ! i))) = SFS_BLOCKSIZE"
  shows "io_frame vn n s (set_slot i f s)"
    "m < SFS_NDIRECT + SFS_DBPERIDB \<Longrightarrow> ldata (set_slot i f s) vn m =
       (if m = n then cache (f (sfs_rcache s ! i)) else ldata s vn m)"
proof -
  have il: "i < length (sfs_rcache s)" using i by (simp add: slot_for_def)
  have bu: "b \<in> used (sfs_freemap s)" using fblock_ok(1) [OF ok(2) n(1)] n(2,3) by simp
  have bb: "b < 2 ^ 32" using fblock_bound [OF ok(1,2) n(1)] n(2) by simp
  note cs = cached_set_slot [of ino b i s f, OF i f]
  have "cache_ok (set_slot i f s)"
    using cache_ok_set_slot [of s i f b] ok(3) il len bu f by (simp add: slot_is_def)
  then show "io_frame vn n s (set_slot i f s)"
    using file_step_refl [OF ok(1,2)] free_slots_update(1) [OF il, of f] cs(2) ok(4,5) bb n(2) by (auto simp: io_frame_def)
  assume m: "m < SFS_NDIRECT + SFS_DBPERIDB"
  show "ldata (set_slot i f s) vn m = (if m = n then cache (f (sfs_rcache s ! i)) else ldata s vn m)"
  proof (cases "m = n")
    case True
    then show ?thesis using cs(1) n ok(4) by (simp add: ldata_def)
  next
    case False
    then have "fblock s vn m \<noteq> b \<or> fblock s vn m = 0" using fblock_inj [OF ok(2) m n(1)] n by auto
    then show ?thesis
      using False cs(2) [OF ok(5) bb ok(5) fblock_bound [OF ok(1,2) m]] ok(4)
      by (auto simp: ldata_def split: option.split)
  qed
qed

lemma io_frame_fblock:
  "io_frame vn n s s' \<Longrightarrow> m < SFS_NDIRECT + SFS_DBPERIDB \<Longrightarrow> m \<noteq> n \<or> fblock s vn m \<noteq> 0 \<Longrightarrow>
    fblock s' vn m = fblock s vn m"
  by (simp add: io_frame_def)

lemma io_frame_trans:
  assumes "io_frame vn n s s1" "io_frame vn n s1 s2" "fblock s2 vn n = fblock s1 vn n"
    "free_slots s \<le> Suc (free_slots s2)" "n < SFS_NDIRECT + SFS_DBPERIDB"
  shows "io_frame vn n s s2"
proof -
  have "file_step vn s s2" using assms(1,2) file_step_trans by (auto simp: io_frame_def)
  moreover have "sv_ino (vnode_heap s1 vn) = sv_ino (vnode_heap s vn)"
    using assms(1) by (simp add: io_frame_def meta_def)
  moreover have "fblock s2 vn m = fblock s vn m"
    if "m < SFS_NDIRECT + SFS_DBPERIDB" "m \<noteq> n \<or> fblock s vn m \<noteq> 0" for m
    using assms(1,2) that by (metis io_frame_def)
  ultimately show ?thesis using assms(1-4) by (auto simp: io_frame_def)
qed

text \<open>The conditions on the stream and the cache under which a partial transfer works.\<close>

definition has_room :: "nat \<Rightarrow> nat \<Rightarrow> sfs_fs \<Rightarrow> bool" where
  "has_room vn n s \<longleftrightarrow>
     fblock s vn n \<noteq> 0 \<and> cached s (sv_ino (vnode_heap s vn)) (fblock s vn n) \<noteq> None \<or> 0 < free_slots s"

definition part_ok :: "nat \<Rightarrow> nat \<Rightarrow> nat \<Rightarrow> nat \<Rightarrow> ustream \<Rightarrow> sfs_fs \<Rightarrow> bool" where
  "part_ok vn n skip len u s \<longleftrightarrow> fs_ok s \<and> file_ok s vn \<and> cache_ok s \<and> sv_ino (vnode_heap s vn) < 2 ^ 31 \<and>
     n < SFS_NDIRECT + SFS_DBPERIDB \<and> us_offset u = int (n * SFS_BLOCKSIZE + skip) \<and>
     skip < SFS_BLOCKSIZE \<and> skip + len \<le> SFS_BLOCKSIZE \<and> can_move len u \<and>
     has_room vn n s"

definition part_post :: "nat \<Rightarrow> nat \<Rightarrow> nat \<Rightarrow> nat \<Rightarrow> ustream \<Rightarrow> sfs_fs \<Rightarrow> errno + unit \<Rightarrow> ustream \<times> sfs_fs \<Rightarrow> bool" where
  "part_post vn n skip len u s r us \<longleftrightarrow> io_frame vn n s (snd us) \<and>
     (case r of
        Inr _ \<Rightarrow> block_moved vn n skip len u s (fst us) (snd us) \<and>
          (if us_rw u = UIO_WRITE then fblock (snd us) vn n \<noteq> 0 \<and> space_for vn n s else same_space vn s (snd us))
      | Inl e \<Rightarrow> e = ENOSPC \<and> us_rw u = UIO_WRITE \<and> fst us = u \<and> fblock s vn n = 0 \<and>
          \<not> space_for vn n s \<and> free_blocks (snd us) = {} \<and>
          (\<forall>m<SFS_NDIRECT + SFS_DBPERIDB. ldata (snd us) vn m = ldata s vn m))"

lemma off_block_eq:
  "n < 2 ^ 32 \<Longrightarrow> skip < 512 \<Longrightarrow> off_block (int (n * 512 + skip)) = n"
proof -
  assume a: "n < 2 ^ 32" "skip < 512"
  have "int (n * 512 + skip) div 512 = int n" 
  proof -
    have "int (n * 512 + skip) div 512 = int ((n * 512 + skip) div 512)" by (simp only: zdiv_int of_nat_numeral)
    then show ?thesis using a(2) by simp
  qed
  then show ?thesis using a(1) by (simp add: off_block_def to_u32_def mod_pos_pos_trivial)
qed

lemma touched_io:
  assumes "fs_ok s" "file_ok s vn" "cache_ok s" "touched s s'"
  shows "ldata s' = ldata s" "io_frame vn n s s'" "sfs_rcache s' = sfs_rcache s" "free_slots s' = free_slots s"
proof -
  note sel = touched_sel [OF assms(4)]
  show r: "sfs_rcache s' = sfs_rcache s" using sel(2) by (simp add: same_rest_def)
  then have c: "cached s' = cached s" by (simp add: cached_def fun_eq_iff)
  show "ldata s' = ldata s" by (simp add: ldata_def fun_eq_iff sel c cong: option.case_cong)
  show f: "free_slots s' = free_slots s" by (simp add: free_slots_def r)
  show "io_frame vn n s s'"
    using file_step_touched [OF assms(1,2,4)] cache_ok_mono [OF assms(3) r] by (simp add: io_frame_def sel c f)
qed

text \<open>A partial transfer uses up a slot only for a block that was not cached, and caches the block.\<close>

definition warm :: "nat \<Rightarrow> nat \<Rightarrow> sfs_fs \<Rightarrow> bool" where
  "warm vn n s \<longleftrightarrow> fblock s vn n \<noteq> 0 \<and> cached s (sv_ino (vnode_heap s vn)) (fblock s vn n) \<noteq> None"

definition slot_use :: "nat \<Rightarrow> nat \<Rightarrow> sfs_fs \<Rightarrow> sfs_fs \<Rightarrow> bool" where
  "slot_use vn n s s' \<longleftrightarrow> (warm vn n s \<longrightarrow> free_slots s' = free_slots s) \<and> (fblock s' vn n = 0 \<or> warm vn n s')"

lemma partial_slot:
  assumes ok: "fs_ok s" "file_ok s vn" "cache_ok s" "sv_ino (vnode_heap s vn) = ino" "ino < 2 ^ 31"
    and n: "n < SFS_NDIRECT + SFS_DBPERIDB" "fblock s vn n = b" "b \<noteq> 0"
    and i: "slot_for ino b i s" "slot_is ino b (sfs_rcache s ! i)"
    and sk: "skip + len \<le> SFS_BLOCKSIZE" and mv: "can_move len u"
  shows "\<exists>s'. uiomove_slot i skip len (u, s) = Some (Inr (), advance len (drop skip (ldata s vn n)) u, s') \<and>
    io_frame vn n s s' \<and> same_space vn s s' \<and> free_slots s' = free_slots s \<and> warm vn n s' \<and>
    (\<forall>m<SFS_NDIRECT + SFS_DBPERIDB. ldata s' vn m = (if m = n then stored skip len u (ldata s vn n) else ldata s vn m))"
proof -
  let ?c = "sfs_rcache s ! i" and ?f = "\<lambda>c. c\<lparr>cache := stored skip len u (cache c)\<rparr>"
  have il: "i < length (sfs_rcache s)" using i(1) by (simp add: slot_for_def)
  then have l: "length (cache ?c) = SFS_BLOCKSIZE" using ok(3) by (simp add: cache_ok_def)
  have "List.find (slot_is ino b) (sfs_rcache s) = Some ?c"
    using i il by (auto simp: find_Some_iff slot_for_def intro!: exI [of _ i])
  then have d: "ldata s vn n = cache ?c" using n ok(4) by (simp add: ldata_def cached_def)
  have f: "slot_is ino b (?f ?c)" "length (cache (?f ?c)) = SFS_BLOCKSIZE"
    using i(2) l length_stored [OF mv, of skip "cache ?c"] sk by (simp_all add: slot_is_def)
  have "warm vn n (set_slot i ?f s)"
    using cached_set_slot(1) [of ino b i s ?f, OF i(1) f(1)] n(2,3) ok(4) by (simp add: warm_def)
  then show ?thesis
    using uiomove_slot_run [OF mv, of skip s i] l sk d
      slot_step [of s vn ino n b i ?f, OF ok n i(1) f] free_slots_update(2) [OF il, of ?f]
    by (auto simp: same_space_def)
qed

lemma partial_block_spec:
  assumes ok: "fs_ok s" "file_ok s vn" "cache_ok s" "sv_ino (vnode_heap s vn) = ino" "ino < 2 ^ 31"
    and n: "n < SFS_NDIRECT + SFS_DBPERIDB" "fblock s vn n = b" "b = 0 \<longrightarrow> us_rw u = UIO_READ"
    and sk: "skip + len \<le> SFS_BLOCKSIZE" and mv: "can_move len u"
    and room: "b \<noteq> 0 \<longrightarrow> cached s ino b \<noteq> None \<or> 0 < free_slots s"
  shows "wp (partial_block vn skip len b)
    (\<lambda>r us. r = Inr () \<and> io_frame vn n s (snd us) \<and> same_space vn s (snd us) \<and> fblock (snd us) vn n = b \<and>
       slot_use vn n s (snd us) \<and> block_moved vn n skip len u s (fst us) (snd us)) (u, s)"
proof (cases "b = 0")
  case True
  have rw: "us_rw u = UIO_READ" using n(3) True by simp
  have "stored skip len u d = d" for d by (simp add: stored_def rw)
  moreover have "io_frame vn n s s" using file_step_refl [OF ok(1,2)] ok(3) by (simp add: io_frame_def)
  moreover have "ldata s vn n = zero_block" using True n(2) by (simp add: ldata_def)
  ultimately show ?thesis
    using True rw n(2) uiomove_at_run [OF mv, of skip "zero_block" s] sk
    by (simp add: partial_block_def wp_def bindP_def getP_def assertP_def retP_def block_moved_def slot_use_def)
next
  case False
  from room False have "cached s ino b \<noteq> None \<or> 0 < free_slots s" by simp
  then show ?thesis
  proof (cases rule: cache_scan_cases)
    case (hit i)
    then have "slot_for ino b i s" by (simp add: slot_for_def)
    from partial_slot [OF ok n(1,2) False this hit(3) sk mv] show ?thesis
      using False hit(1) ok(4) io_frame_fblock [OF _ n(1)] n(2)
      by (auto simp: partial_block_def wp_def bindP_def getP_def block_moved_def slot_use_def)
  next
    case (load i)
    define f where "f = (\<lambda>c :: sfs_buffer_cache. \<lparr>cache = disk s b, inode_no = to_s32 ino, block_no = to_s32 b\<rparr>)"
    have b: "b < sp_nblocks (sfs_super s)" using fblock_ok(2) [OF ok(2) n(1)] n(2) False by simp
    have "wp (sfs_rblock b) (\<lambda>r s1. r = Inr (disk s b) \<and> touched s s1) s"
      by (rule wp_rblock_touched [OF ok(1) b]) simp
    then obtain s1 where s1: "sfs_rblock b s = Some (Inr (disk s b), s1)" "touched s s1" by (auto simp: wp_def)
    note t = touched_io [OF ok(1-3) s1(2)] and tsel = touched_sel [OF s1(2)]
    have c1: "cache_ok s1" using t(2) by (simp add: io_frame_def)
    have fl: "slot_for ino b i s1" "slot_is ino b (f (sfs_rcache s1 ! i))"
        "length (cache (f (sfs_rcache s1 ! i))) = SFS_BLOCKSIZE"
      using load fs_okD(1) [OF ok(1)]
      by (simp_all add: f_def slot_for_def slot_is_def t(3) dev_ok_def lhd_inv_def)
    let ?s2 = "set_slot i f s1"
    have s2: "io_frame vn n s1 ?s2" "\<And>m. m < SFS_NDIRECT + SFS_DBPERIDB \<Longrightarrow> ldata ?s2 vn m =
        (if m = n then disk s b else ldata s vn m)"
      using slot_step [of s1 vn ino n b i f] ok n False fl c1 t(1) tsel by (simp_all add: f_def)
    have ld: "ldata s vn n = disk s b" using n(2) False load(6) ok(4) by (simp add: ldata_def)
    have sl2: "slot_for ino b i ?s2" "slot_is ino b (sfs_rcache ?s2 ! i)"
      using fl load(2) t(3) by (simp_all add: slot_for_def)
    have ok2: "fs_ok ?s2" "file_ok ?s2 vn" "cache_ok ?s2" "sv_ino (vnode_heap ?s2 vn) = ino" "fblock ?s2 vn n = b"
      using s2(1) ok(1,4) n(2) tsel by (simp_all add: io_frame_def file_step_def)
    obtain s3 where s3: "uiomove_slot i skip len (u, ?s2) = Some (Inr (), advance len (drop skip (ldata ?s2 vn n)) u, s3)"
      "io_frame vn n ?s2 s3" "free_slots s3 = free_slots ?s2" "warm vn n s3" "same_space vn ?s2 s3"
      "\<forall>m<SFS_NDIRECT + SFS_DBPERIDB. ldata s3 vn m = (if m = n then stored skip len u (ldata ?s2 vn n) else ldata ?s2 vn m)"
      using partial_slot [OF ok2(1-4) ok(5) n(1) ok2(5) False sl2 sk mv] by blast
    have "same_space vn s1 ?s2" by (simp add: same_space_def)
    then have sp: "same_space vn s s3" using same_space_trans touched_same [OF s1(2)] s3(5) by blast
    have b3: "fblock s3 vn n = b" using io_frame_fblock [OF s3(2) n(1)] ok2(5) False by simp
    have "io_frame vn n s s3"
    proof (rule io_frame_trans [OF io_frame_trans [OF t(2) s2(1)] s3(2)])
      show "free_slots s \<le> Suc (free_slots s3)" "free_slots s \<le> Suc (free_slots ?s2)"
        using s2(1) t(4) s3(3) by (simp_all add: io_frame_def)
    qed (use n False tsel ok2 b3 in simp_all)
    moreover have "slot_use vn n s s3" using s3(4) load(6) n(2) ok(4) by (simp add: slot_use_def warm_def)
    ultimately show ?thesis
      using False load(1) ok(4) s1(1) s3 s2(2) n(1) ld b3 sp
      by (simp add: partial_block_def wp_def bindP_def tryP_def modP_def sndP_def zoomP_def getP_def block_moved_def
          f_def [symmetric] cong: if_cong)
  qed
qed


lemma wp_sndI: "wp m (\<lambda>r s'. Q r (u, s')) s \<Longrightarrow> wp (sndP m) Q (u, s)"
  by (simp add: wp_snd)

text \<open>
  Both transfers map the block first. What the rest of the transfer does from the state after
  the mapping is what the whole does from the state before.
\<close>

definition mapped :: "nat \<Rightarrow> nat \<Rightarrow> sfs_fs \<Rightarrow> nat \<Rightarrow> sfs_fs \<Rightarrow> bool" where
  "mapped vn n s b s1 \<longleftrightarrow> io_frame vn n s s1 \<and> fs_ok s1 \<and> file_ok s1 vn \<and> cache_ok s1 \<and> sfs_super s1 = sfs_super s \<and>
     sv_ino (vnode_heap s1 vn) = sv_ino (vnode_heap s vn) \<and> sfs_rcache s1 = sfs_rcache s \<and> fblock s1 vn n = b \<and>
     (fblock s vn n = 0 \<and> b \<noteq> 0 \<longrightarrow> cached s1 (sv_ino (vnode_heap s vn)) b = None)"

lemma bmap_mapped:
  assumes ok: "fs_ok s" "file_ok s vn" "cache_ok s" "sv_ino (vnode_heap s vn) < 2 ^ 31"
    and n: "n < SFS_NDIRECT + SFS_DBPERIDB" and r: "bmap_result vn n doalloc s (Inr b) s1"
  shows "mapped vn n s b s1" "doalloc \<longrightarrow> b \<noteq> 0"
proof -
  note fr = bmap_frame [OF ok r] and ld = bmap_ldata [OF ok r n]
  have b: "fblock s1 vn n = b" "fblock s vn n = 0 \<Longrightarrow> b \<noteq> 0 \<Longrightarrow> b \<notin> used (sfs_freemap s)"
    using r by (auto simp: bmap_result_def bmap_effect_def)
  have s1: "fs_ok s1" "file_ok s1 vn" "sfs_super s1 = sfs_super s"
    using fr by (simp_all add: io_frame_def file_step_def)
  have "cached s1 (sv_ino (vnode_heap s vn)) b = None" if "fblock s vn n = 0" "b \<noteq> 0"
    using cached_used [OF ok(3,1,4), of b] fblock_bound [OF s1(1,2) n] b that ld(4) by simp
  then show "mapped vn n s b s1" using fr ld(2-5) s1 b(1) by (simp add: mapped_def)
  show "doalloc \<longrightarrow> b \<noteq> 0" using r by (simp add: bmap_result_def bmap_effect_def split: if_splits)
qed

lemma io_after_bmap:
  assumes ok: "fs_ok s" "file_ok s vn" "cache_ok s" "sv_ino (vnode_heap s vn) < 2 ^ 31"
    and n: "n < SFS_NDIRECT + SFS_DBPERIDB" and w: "w \<longleftrightarrow> us_rw u = UIO_WRITE" 
    and R: "\<And>e s1. bmap_result vn n w s (Inl e) s1 \<Longrightarrow> R (Inl e) s1"
    and body: "\<And>b s1. mapped vn n s b s1 \<Longrightarrow> b = 0 \<longrightarrow> us_rw u = UIO_READ \<Longrightarrow>
      wp (body b) (\<lambda>r us. r = Inr () \<and> io_frame vn n s1 (snd us) \<and> same_space vn s1 (snd us) \<and> fblock (snd us) vn n = b \<and>
        R r (snd us) \<and> block_moved vn n skip len u s1 (fst us) (snd us)) (u, s1)"
  shows "wp (bindP (sndP (sfs_bmap vn n w)) body)
    (\<lambda>r us. part_post vn n skip len u s r us \<and> R r (snd us)) (u, s)" (is "wp _ ?Q _")
proof -
  have "wp (sndP (sfs_bmap vn n w)) (\<lambda>r us. fst us = u \<and> bmap_result vn n w s r (snd us)) (u, s)"
    by (rule wp_sndI, rule wp_mono [OF bmap_spec [OF ok(1,2) n]]) simp
  then show ?thesis
  proof (rule wp_call)
    fix e us assume "fst us = u \<and> bmap_result vn n w s (Inl e) (snd us)"
    then have us: "fst us = u" and r: "bmap_result vn n w s (Inl e) (snd us)" by blast+
    then show "?Q (Inl e) us"
      using bmap_frame [OF ok r] bmap_ldata(1) [OF ok r] w R [OF r]
      by (simp add: part_post_def bmap_result_def bmap_effect_def)
  next
    fix b us assume "fst us = u \<and> bmap_result vn n w s (Inr b) (snd us)"
    then obtain s1 where us: "us = (u, s1)" and r: "bmap_result vn n w s (Inr b) s1" by (cases us) auto
    note mp = bmap_mapped [OF ok n r] and ld = bmap_ldata(1) [OF ok r]
    have rd: "b = 0 \<longrightarrow> us_rw u = UIO_READ" using mp(2) w by (cases "us_rw u") auto
    from body [OF mp(1) this] show "wp (body b) ?Q us"
      unfolding us
    proof (rule wp_mono)
      fix r' :: "errno + unit" and us' assume us': "r' = Inr () \<and> io_frame vn n s1 (snd us') \<and> same_space vn s1 (snd us') \<and>
        fblock (snd us') vn n = b \<and> R r' (snd us') \<and> block_moved vn n skip len u s1 (fst us') (snd us')"
      obtain u' s2 where p: "us' = (u', s2)" by (cases us')
      from us' have s2: "io_frame vn n s1 s2" "fblock s2 vn n = b" "block_moved vn n skip len u s1 u' s2"
        by (simp_all add: p)
      have m1: "io_frame vn n s s1" "sfs_rcache s1 = sfs_rcache s" "fblock s1 vn n = b"
        using mp(1) by (simp_all add: mapped_def)
      have "free_slots s1 \<le> Suc (free_slots s2)" using s2(1) by (simp add: io_frame_def)
      then have "free_slots s \<le> Suc (free_slots s2)" by (simp add: free_slots_def m1(2))
      then have "io_frame vn n s s2"
        using io_frame_trans [OF m1(1) s2(1)] s2(2) m1(3) n by simp
      moreover have "block_moved vn n skip len u s u' s2"
        using s2(3) ld n by (simp add: block_moved_def cong: if_cong)
      moreover have "if w then space_for vn n s else same_space vn s s2"
        using r us' touched_same [of s s1 vn] same_space_trans [of vn s s1 s2] by (auto simp: p bmap_result_def bmap_effect_def)
      ultimately show "?Q r' us'" using us' rd w by (auto simp: part_post_def p)
    qed
  qed
qed

lemma partialio_spec:
  assumes "part_ok vn n skip len u s"
  shows "wp (sfs_partialio vn skip len)
    (\<lambda>r us. part_post vn n skip len u s r us \<and> (r = Inr () \<longrightarrow> slot_use vn n s (snd us))) (u, s)"
proof -
  have ok: "fs_ok s" "file_ok s vn" "cache_ok s" "sv_ino (vnode_heap s vn) < 2 ^ 31"
    and n: "n < SFS_NDIRECT + SFS_DBPERIDB" and sk: "skip + len \<le> SFS_BLOCKSIZE" and mv: "can_move len u"
    and room: "has_room vn n s" and blk: "off_block (us_offset u) = n"
    using assms off_block_eq [of n skip] by (simp_all add: part_ok_def)
  have "wp (bindP (sndP (sfs_bmap vn n (us_rw u = UIO_WRITE))) (partial_block vn skip len))
    (\<lambda>r us. part_post vn n skip len u s r us \<and> (r = Inr () \<longrightarrow> slot_use vn n s (snd us))) (u, s)"
  proof (rule io_after_bmap [OF ok n refl])
    fix b s1 assume m: "mapped vn n s b s1" and rw: "b = 0 \<longrightarrow> us_rw u = UIO_READ"
    have fr: "io_frame vn n s s1" and s1: "fs_ok s1" "file_ok s1 vn" "cache_ok s1"
        "sv_ino (vnode_heap s1 vn) = sv_ino (vnode_heap s vn)" "fblock s1 vn n = b" "sfs_rcache s1 = sfs_rcache s"
      using m by (simp_all add: mapped_def)
    have w1: "warm vn n s1" if "warm vn n s"
      using that io_frame_fblock [OF fr n] s1(4,6) by (simp add: warm_def cached_def)
    have rm: "b \<noteq> 0 \<longrightarrow> cached s1 (sv_ino (vnode_heap s vn)) b \<noteq> None \<or> 0 < free_slots s1"
      using room io_frame_fblock [OF fr n] s1(5,6) by (auto simp: has_room_def free_slots_def cached_def)
    have "slot_use vn n s s2" if "slot_use vn n s1 s2" for s2
      using that w1 s1(6) by (auto simp: slot_use_def free_slots_def)
    then show "wp (partial_block vn skip len b) (\<lambda>r us. r = Inr () \<and> io_frame vn n s1 (snd us) \<and>
        same_space vn s1 (snd us) \<and> fblock (snd us) vn n = b \<and> (r = Inr () \<longrightarrow> slot_use vn n s (snd us)) \<and>
        block_moved vn n skip len u s1 (fst us) (snd us)) (u, s1)"
      by (intro wp_mono [OF partial_block_spec [OF s1(1-4) ok(4) n s1(5) rw sk mv rm]]) auto
  qed simp
  then show ?thesis
    using blk sk by (simp add: sfs_partialio_def wp_bind [of "getP _"] wp_bind [of "assertP _"] wp_get wp_assert Let_def)
qed

section \<open>Whole blocks\<close>

lemma rwblock_read:
  assumes "fs_ok s" "b < sp_nblocks (sfs_super s)" "us_offset u = 512 * int b" "us_resid u = SFS_BLOCKSIZE"
    and "SFS_BLOCKSIZE \<le> us_good u" "us_rw u = UIO_READ"
  shows "\<exists>s'. sfs_rwblock (u, s) = Some (Inr (), advance SFS_BLOCKSIZE (disk s b) u, s') \<and> touched s s'"
proof -
  let ?d = "sfs_device s"
  have d: "lhd_inv ?d" "next_code ?d = LHD_OK" "lh_d_blocks ?d < 2 ^ 32" "lh_codes ?d = []" "b < lh_d_blocks ?d"
    using fs_okD(1,4) [OF assms(1)] assms(2) by (simp_all add: dev_ok_def next_code_def)
  have l: "length (disk s b) = SFS_BLOCKSIZE" using d(1) by (simp add: lhd_inv_def)
  have "lhd_io (u, ?d) = Some (Inr (), advance SFS_BLOCKSIZE (disk s b) u, lhd_after b (disk s b) ?d)"
    using lhd_io_one [OF assms(3,4) d(5,3)] lhd_sector_read [OF d(1) assms(6), of b] d assms l
    by (simp add: advance_def)
  moreover have "dev_ok (lhd_after b (disk s b) ?d)"
    using lhd_after_inv(1) [OF d(1) l] d by (simp add: dev_ok_def)
  ultimately show ?thesis
    by (auto simp: sfs_rwblock_def sfs_retry.simps tryP_def d_io_run retP_def touched_def)
qed

lemma rwblock_write:
  assumes "fs_ok s" "b < sp_nblocks (sfs_super s)" "us_offset u = 512 * int b" "us_resid u = SFS_BLOCKSIZE"
    and "SFS_BLOCKSIZE \<le> us_good u" "us_rw u = UIO_WRITE" "SFS_BLOCKSIZE \<le> length (us_bytes u)"
  shows "\<exists>d'. sfs_rwblock (u, s) = Some (Inr (), advance SFS_BLOCKSIZE [] u, s\<lparr>sfs_device := d'\<rparr>) \<and> dev_ok d' \<and>
    lh_sectors d' = (disk s)(b := take SFS_BLOCKSIZE (us_bytes u)) \<and> lh_d_blocks d' = lh_d_blocks (sfs_device s)"
proof -
  let ?d = "sfs_device s" and ?buf = "take SFS_BLOCKSIZE (us_bytes u)"
  let ?d' = "(lhd_after b ?buf ?d)\<lparr>lh_sectors := (disk s)(b := ?buf)\<rparr>"
  have d: "lhd_inv ?d" "next_code ?d = LHD_OK" "lh_d_blocks ?d < 2 ^ 32" "lh_codes ?d = []" "b < lh_d_blocks ?d"
    using fs_okD(1,4) [OF assms(1)] assms(2) by (simp_all add: dev_ok_def next_code_def)
  have "lhd_io (u, ?d) = Some (Inr (), advance SFS_BLOCKSIZE [] u, ?d')"
    using lhd_io_one [OF assms(3,4) d(5,3)] lhd_sector_write [OF d(1) assms(6), of b] d assms
    by (simp add: advance_def)
  moreover have "dev_ok ?d'"
    using lhd_after_inv(2) [OF d(1), of ?buf b] d assms(7) by (simp add: dev_ok_def)
  ultimately show ?thesis
    by (auto simp: sfs_rwblock_def sfs_retry.simps tryP_def d_io_run retP_def)
qed

text \<open>Storing data in a block of the file that is not cached.\<close>

lemma indirect_not_data:
  assumes "file_ok s vn" "n < SFS_NDIRECT + SFS_DBPERIDB" "fblock s vn n \<noteq> 0"
  shows "sfi_indirect (sv_i (vnode_heap s vn)) \<noteq> fblock s vn n"
proof
  assume "sfi_indirect (sv_i (vnode_heap s vn)) = fblock s vn n"
  then have "\<not> distinct (owned s vn)"
    using assms(2,3) length_cells(1) [OF assms(1)] by (auto simp: owned_def cells_def fblock_def)
  then show False using assms(1) by (simp add: file_ok_def)
qed

lemma write_step:
  assumes ok: "fs_ok s" "file_ok s vn" "cache_ok s" and n: "n < SFS_NDIRECT + SFS_DBPERIDB" "fblock s vn n = b" "b \<noteq> 0"
    and unc: "cached s (sv_ino (vnode_heap s vn)) b = None"
    and d: "dev_ok d" "lh_sectors d = (disk s)(b := data)" "lh_d_blocks d = lh_d_blocks (sfs_device s)"
  shows "io_frame vn n s (s\<lparr>sfs_device := d\<rparr>)"
    "m < SFS_NDIRECT + SFS_DBPERIDB \<Longrightarrow>
       ldata (s\<lparr>sfs_device := d\<rparr>) vn m = (if m = n then data else ldata s vn m)"
    "fblock (s\<lparr>sfs_device := d\<rparr>) vn = fblock s vn"
proof -
  let ?s = "s\<lparr>sfs_device := d\<rparr>"
  have "id_entries ?s vn = id_entries s vn"
    using indirect_not_data [OF ok(2) n(1)] n(2,3) d(2) by (auto simp: id_entries_def Let_def)
  then have b: "blocks ?s vn = blocks s vn" and o: "owned ?s vn = owned s vn"
    by (simp_all add: blocks_def owned_def cells_def)
  then show fb: "fblock ?s vn = fblock s vn" by (simp add: fblock_def fun_eq_iff)
  have c: "cached ?s = cached s" by (simp add: cached_def fun_eq_iff)
  have "b \<in> set (owned s vn)"
    using n length_cells(1) [OF ok(2)] nth_mem [of n "blocks s vn"] by (auto simp: owned_def cells_def fblock_def)
  then have "file_step vn s ?s"
    using ok d o by (auto simp: file_step_def fs_ok_def file_ok_def)
  moreover have "cache_ok ?s" using ok(3) by (simp add: cache_ok_def)
  ultimately show "io_frame vn n s ?s" by (simp add: io_frame_def fb c free_slots_def)
  assume m: "m < SFS_NDIRECT + SFS_DBPERIDB"
  show "ldata ?s vn m = (if m = n then data else ldata s vn m)"
  proof (cases "m = n")
    case True
    then show ?thesis using n unc d(2) by (simp add: ldata_def fb c)
  next
    case False
    then have "fblock s vn m \<noteq> 0 \<Longrightarrow> fblock s vn m \<noteq> b" using fblock_inj [OF ok(2) m n(1)] n(2,3) by metis
    then show ?thesis using False d(2) by (auto simp: ldata_def fb c split: option.split)
  qed
qed

lemma whole_block_run:
  fixes u :: ustream
  defines "u0 b \<equiv> u\<lparr>us_offset := 512 * int b, us_resid := SFS_BLOCKSIZE\<rparr>"
  assumes "b \<noteq> 0" "can_move SFS_BLOCKSIZE u" "b * SFS_BLOCKSIZE mod 2 ^ 32 = b * SFS_BLOCKSIZE"
    and "sfs_rwblock (u0 b, s) = Some (Inr (), advance SFS_BLOCKSIZE d (u0 b), s')"
    and "Q (Inr ()) (advance SFS_BLOCKSIZE d u, s')"
  shows "wp (whole_block b) Q (u, s)"
proof -
  have "(advance SFS_BLOCKSIZE d (u0 b))\<lparr>us_offset := (us_offset (advance SFS_BLOCKSIZE d (u0 b)) - 512 * int b) + us_offset u,
     us_resid := (us_resid (advance SFS_BLOCKSIZE d (u0 b)) + us_resid u) - SFS_BLOCKSIZE\<rparr> = advance SFS_BLOCKSIZE d u"
    by (cases "us_rw u") (simp_all add: advance_def u0_def)
  then show ?thesis
    using assms(2-)
    by (simp add: whole_block_def wp_def bindP_def getP_def assertP_def retP_def modP_def tryP_def can_move_def
        Let_def mult.commute u0_def)
qed

lemma whole_block_spec:
  assumes ok: "fs_ok s" "file_ok s vn" "cache_ok s" and n: "n < SFS_NDIRECT + SFS_DBPERIDB" "fblock s vn n = b"
    and rw: "b = 0 \<longrightarrow> us_rw u = UIO_READ" and mv: "can_move SFS_BLOCKSIZE u"
    and unc: "b \<noteq> 0 \<longrightarrow> cached s (sv_ino (vnode_heap s vn)) b = None"
    and small: "sp_nblocks (sfs_super s) \<le> 2 ^ 23"
  shows "wp (whole_block b)
    (\<lambda>r us. r = Inr () \<and> io_frame vn n s (snd us) \<and> same_space vn s (snd us) \<and> fblock (snd us) vn n = b \<and>
       sfs_rcache (snd us) = sfs_rcache s \<and>
       block_moved vn n 0 SFS_BLOCKSIZE u s (fst us) (snd us)) (u, s)"
proof (cases "b = 0")
  case True
  have r: "us_rw u = UIO_READ" using rw True by simp
  have "stored 0 512 u d = d" for d by (simp add: stored_def r)
  moreover have "io_frame vn n s s" using file_step_refl [OF ok(1,2)] ok(3) by (simp add: io_frame_def)
  moreover have "ldata s vn n = zero_block" using True n(2) by (simp add: ldata_def)
  ultimately show ?thesis
    using True r n(2) mv
    by (simp add: whole_block_def uiomovezerosP_def wp_simps block_moved_def uiomove_s_ok can_move_def advance_def)
next
  case False
  let ?u = "u\<lparr>us_offset := 512 * int b, us_resid := SFS_BLOCKSIZE\<rparr>"
  have b: "b < sp_nblocks (sfs_super s)" using fblock_ok(2) [OF ok(2) n(1)] n(2) False by simp
  then have wrap: "b * SFS_BLOCKSIZE mod 2 ^ 32 = b * SFS_BLOCKSIZE" using small by simp
  have ld: "ldata s vn n = disk s b" using n(2) False unc by (simp add: ldata_def)
  have len: "length (disk s b) = SFS_BLOCKSIZE" using fs_okD(1) [OF ok(1)] by (simp add: dev_ok_def lhd_inv_def)
  note run = whole_block_run [OF False mv wrap]
  show ?thesis
  proof (cases "us_rw u")
    case UIO_READ
    obtain s' where s': "sfs_rwblock (?u, s) = Some (Inr (), advance SFS_BLOCKSIZE (disk s b) ?u, s')" "touched s s'"
      using rwblock_read [OF ok(1) b, of ?u] UIO_READ mv by (auto simp: can_move_def)
    note t = touched_io [OF ok s'(2)]
    have "stored 0 512 u d = d" for d by (simp add: stored_def UIO_READ)
    then show ?thesis
      using t(1,3) t(2) [of n] touched_sel [OF s'(2)] touched_same [OF s'(2)] ld n(2) by (intro run [OF s'(1)]) (simp add: block_moved_def)
  next
    case UIO_WRITE
    let ?buf = "take SFS_BLOCKSIZE (us_bytes u)"
    obtain d' where d': "sfs_rwblock (?u, s) = Some (Inr (), advance SFS_BLOCKSIZE [] ?u, s\<lparr>sfs_device := d'\<rparr>)"
      "dev_ok d'" "lh_sectors d' = (disk s)(b := ?buf)" "lh_d_blocks d' = lh_d_blocks (sfs_device s)"
      using rwblock_write [OF ok(1) b, of ?u] UIO_WRITE mv by (auto simp: can_move_def)
    have "stored 0 512 u (disk s b) = ?buf" "advance 512 [] u = advance 512 (disk s b) u"
      using UIO_WRITE mv len by (simp_all add: stored_def overlay_def can_move_def advance_def)
    then show ?thesis
      using write_step [OF ok n False _ d'(2-4)] unc False ld n(2)
      by (intro run [OF d'(1)]) (simp add: block_moved_def same_space_def cong: if_cong)
  qed
qed

definition uncached :: "nat \<Rightarrow> nat \<Rightarrow> sfs_fs \<Rightarrow> bool" where
  "uncached vn n s \<longleftrightarrow>
     fblock s vn n = 0 \<or> cached s (sv_ino (vnode_heap s vn)) (fblock s vn n) = None"

definition whole_ok :: "nat \<Rightarrow> nat \<Rightarrow> ustream \<Rightarrow> sfs_fs \<Rightarrow> bool" where
  "whole_ok vn n u s \<longleftrightarrow> fs_ok s \<and> file_ok s vn \<and> cache_ok s \<and> sv_ino (vnode_heap s vn) < 2 ^ 31 \<and>
     n < SFS_NDIRECT + SFS_DBPERIDB \<and> us_offset u = int (n * SFS_BLOCKSIZE) \<and>
     can_move SFS_BLOCKSIZE u \<and> uncached vn n s \<and> sp_nblocks (sfs_super s) \<le> 2 ^ 23"

lemma blockio_spec:
  assumes "whole_ok vn n u s"
  shows "wp (sfs_blockio vn) (\<lambda>r us. part_post vn n 0 SFS_BLOCKSIZE u s r us \<and> sfs_rcache (snd us) = sfs_rcache s) (u, s)"
proof -
  have ok: "fs_ok s" "file_ok s vn" "cache_ok s" "sv_ino (vnode_heap s vn) < 2 ^ 31"
    and n: "n < SFS_NDIRECT + SFS_DBPERIDB" and mv: "can_move SFS_BLOCKSIZE u"
    and unc: "uncached vn n s" and blk: "off_block (us_offset u) = n" and small: "sp_nblocks (sfs_super s) \<le> 2 ^ 23"
    using assms off_block_eq [of n 0] by (simp_all add: whole_ok_def)
  have "wp (bindP (sndP (sfs_bmap vn n (us_rw u = UIO_WRITE))) whole_block)
    (\<lambda>r us. part_post vn n 0 SFS_BLOCKSIZE u s r us \<and> sfs_rcache (snd us) = sfs_rcache s) (u, s)"
  proof (rule io_after_bmap [OF ok n refl])
    fix b s1 assume m: "mapped vn n s b s1" and rw: "b = 0 \<longrightarrow> us_rw u = UIO_READ"
    have fr: "io_frame vn n s s1" and s1: "fs_ok s1" "file_ok s1 vn" "cache_ok s1"
        "sv_ino (vnode_heap s1 vn) = sv_ino (vnode_heap s vn)" "fblock s1 vn n = b" "sfs_rcache s1 = sfs_rcache s"
        "sp_nblocks (sfs_super s1) \<le> 2 ^ 23"
      using m small by (simp_all add: mapped_def)
    have "b \<noteq> 0 \<longrightarrow> cached s1 (sv_ino (vnode_heap s1 vn)) b = None"
      using unc m io_frame_fblock [OF fr n] s1(4-6)
      by (cases "fblock s vn n = 0") (auto simp: uncached_def mapped_def cached_def)
    then show "wp (whole_block b) (\<lambda>r us. r = Inr () \<and> io_frame vn n s1 (snd us) \<and>
        same_space vn s1 (snd us) \<and> fblock (snd us) vn n = b \<and> sfs_rcache (snd us) = sfs_rcache s \<and>
        block_moved vn n 0 SFS_BLOCKSIZE u s1 (fst us) (snd us)) (u, s1)"
      using whole_block_spec [OF s1(1-3) n s1(5) rw mv _ s1(7)] s1(6) by simp
  qed (use bmap_ldata(3) [OF ok _ n] in blast)
  then show ?thesis
    using blk by (simp add: sfs_blockio_def wp_bind [of "getP _"] wp_get Let_def)
qed

section \<open>Regions\<close>

abbreviation (input) SFS_MAXFILE :: nat where "SFS_MAXFILE \<equiv> 73216"

text \<open>Byte \<open>i\<close> of a file, up to the largest size of 143 blocks.\<close>

definition fbyte :: "sfs_fs \<Rightarrow> nat \<Rightarrow> nat \<Rightarrow> 8 word" where
  "fbyte s vn i = ldata s vn (i div SFS_BLOCKSIZE) ! (i mod SFS_BLOCKSIZE)"

text \<open>\<open>k\<close> bytes have gone between the stream and the file at the stream's offset.\<close>

definition xfer :: "nat \<Rightarrow> nat \<Rightarrow> ustream \<Rightarrow> sfs_fs \<Rightarrow> ustream \<Rightarrow> sfs_fs \<Rightarrow> bool" where
  "xfer vn k u s u' s' \<longleftrightarrow>
     (let off = nat (us_offset u) in
      u' = advance k (map (fbyte s vn) [off..<off + k]) u \<and>
      (\<forall>i<SFS_MAXFILE. fbyte s' vn i =
         (if us_rw u = UIO_WRITE \<and> off \<le> i \<and> i < off + k then us_bytes u ! (i - off) else fbyte s vn i)))"

lemma xfer_refl: "xfer vn 0 u s u s"
  by (cases "us_rw u") (auto simp: xfer_def advance_def Let_def)

lemma advance_rw [simp]: "us_rw (advance k d u) = us_rw u"
  by (simp add: advance_def)

lemma xfer_trans:
  assumes x: "xfer vn k u s u1 s1" "xfer vn j u1 s1 u2 s2" and off: "0 \<le> us_offset u" "nat (us_offset u) + k + j \<le> SFS_MAXFILE"
    and mv: "can_move (k + j) u"
  shows "xfer vn (k + j) u s u2 s2"
proof -
  define off where "off = nat (us_offset u)"
  have u1: "u1 = advance k (map (fbyte s vn) [off..<off + k]) u"
    and s1: "\<And>i. i < SFS_MAXFILE \<Longrightarrow> fbyte s1 vn i =
      (if us_rw u = UIO_WRITE \<and> off \<le> i \<and> i < off + k then us_bytes u ! (i - off) else fbyte s vn i)"
    using x(1) by (auto simp: xfer_def off_def Let_def)
  have off1: "nat (us_offset u1) = off + k" using u1 off(1) by (simp add: advance_def off_def nat_add_distrib)
  have rw1: "us_rw u1 = us_rw u" using u1 by simp
  have u2: "u2 = advance j (map (fbyte s1 vn) [off + k..<off + k + j]) u1"
    and s2: "\<And>i. i < SFS_MAXFILE \<Longrightarrow> fbyte s2 vn i =
      (if us_rw u = UIO_WRITE \<and> off + k \<le> i \<and> i < off + k + j then us_bytes u1 ! (i - (off + k)) else fbyte s1 vn i)"
    using x(2) unfolding xfer_def Let_def off1 rw1 by auto
  have rd: "map (fbyte s1 vn) [off + k..<off + k + j] = map (fbyte s vn) [off + k..<off + k + j]"
    using s1 off(2) off_def by auto
  have bounds: "off + k + j \<le> SFS_MAXFILE" using off(2) off_def by simp
  show ?thesis
  proof (cases "us_rw u")
    case UIO_READ
    have "[off..<off + (k + j)] = [off..<off + k] @ [off + k..<off + k + j]"
      using upt_add_eq_append [of off "off + k" j] by (simp add: add.assoc)
    then have "u2 = advance (k + j) (map (fbyte s vn) [off..<off + (k + j)]) u"
      using u1 u2 rd UIO_READ by (simp add: advance_def)
    then show ?thesis
      using s1 s2 UIO_READ by (simp add: xfer_def off_def [symmetric] Let_def)
  next
    case UIO_WRITE
    have "us_bytes u1 = drop k (us_bytes u)" using u1 UIO_WRITE by (simp add: advance_def)
    then have "us_bytes u1 ! (i - (off + k)) = us_bytes u ! (i - off)" if "off + k \<le> i" "i < off + k + j" for i
      using that mv UIO_WRITE by (simp add: can_move_def)
    then have "fbyte s2 vn i = (if off \<le> i \<and> i < off + (k + j) then us_bytes u ! (i - off) else fbyte s vn i)"
      if "i < SFS_MAXFILE" for i using s1 [OF that] s2 [OF that] UIO_WRITE by auto
    moreover have "u2 = advance (k + j) (map (fbyte s vn) [off..<off + (k + j)]) u"
      using u1 u2 UIO_WRITE by (simp add: advance_def add.commute)
    ultimately show ?thesis
      using UIO_WRITE by (simp add: xfer_def off_def [symmetric] Let_def)
  qed
qed

text \<open>A move within one block is a transfer.\<close>

lemma block_xfer:
  assumes bm: "block_moved vn n skip len u s u' s'" and n: "n < SFS_NDIRECT + SFS_DBPERIDB"
    and off: "us_offset u = int (n * SFS_BLOCKSIZE + skip)" and sk: "skip + len \<le> SFS_BLOCKSIZE" "skip < SFS_BLOCKSIZE"
    and ok: "fs_ok s" "cache_ok s" and mv: "can_move len u"
  shows "xfer vn len u s u' s'"
proof -
  let ?off = "n * SFS_BLOCKSIZE + skip"
  have l: "length (ldata s vn m) = SFS_BLOCKSIZE" for m by (rule length_ldata [OF ok])
  have dm: "(?off + i) div SFS_BLOCKSIZE = n" "(?off + i) mod SFS_BLOCKSIZE = skip + i" if "i < len" for i
  proof -
    have e: "?off + i = n * SFS_BLOCKSIZE + (skip + i)" by simp
    have "skip + i < SFS_BLOCKSIZE" using that sk by simp
    then show "(?off + i) div SFS_BLOCKSIZE = n" "(?off + i) mod SFS_BLOCKSIZE = skip + i"
      unfolding e by simp_all
  qed
  have "take len (drop skip (ldata s vn n)) = map (fbyte s vn) [?off..<?off + len]"
  proof (rule nth_equalityI)
    fix i assume "i < length (take len (drop skip (ldata s vn n)))"
    then have i: "i < len" by simp
    then show "take len (drop skip (ldata s vn n)) ! i = map (fbyte s vn) [?off..<?off + len] ! i"
      using dm [OF i] sk l [of n] by (simp add: fbyte_def)
  qed (use l [of n] sk in simp)
  then have "u' = advance len (map (fbyte s vn) [?off..<?off + len]) u"
    using bm by (simp add: block_moved_def advance_def split: uio_rw.split)
  moreover have "fbyte s' vn i =
      (if us_rw u = UIO_WRITE \<and> ?off \<le> i \<and> i < ?off + len then us_bytes u ! (i - ?off) else fbyte s vn i)"
    if i: "i < SFS_MAXFILE" for i
  proof -
    have blk: "i div SFS_BLOCKSIZE < SFS_NDIRECT + SFS_DBPERIDB" using i by simp
    have ld: "ldata s' vn (i div SFS_BLOCKSIZE) =
        (if i div SFS_BLOCKSIZE = n then stored skip len u (ldata s vn n) else ldata s vn (i div SFS_BLOCKSIZE))"
      using bm blk by (simp add: block_moved_def)
    show ?thesis
    proof (cases "i div SFS_BLOCKSIZE = n")
      case False
      have "\<not> (?off \<le> i \<and> i < ?off + len)"
      proof
        assume a: "?off \<le> i \<and> i < ?off + len"
        then have "i - ?off < len" "?off + (i - ?off) = i" by linarith+
        then show False using dm(1) [of "i - ?off"] False by simp
      qed
      then show ?thesis using ld False by (auto simp: fbyte_def)
    next
      case True
      define j where "j = i mod SFS_BLOCKSIZE"
      have j: "j = i mod SFS_BLOCKSIZE" "i = n * SFS_BLOCKSIZE + j" "j < SFS_BLOCKSIZE"
        using True div_mult_mod_eq [of i SFS_BLOCKSIZE] by (simp_all add: j_def)
      have c: "(?off \<le> i \<and> i < ?off + len) \<longleftrightarrow> skip \<le> j \<and> j < skip + len" "i - ?off = j - skip"
        unfolding j(2) by simp_all
      have "overlay skip (take len (us_bytes u)) (ldata s vn n) ! (i mod SFS_BLOCKSIZE) =
          (if ?off \<le> i \<and> i < ?off + len then us_bytes u ! (i - ?off) else fbyte s vn i)" if "us_rw u = UIO_WRITE"
        using nth_overlay [of skip "take len (us_bytes u)" "ldata s vn n" j] that mv sk l [of n] j(3)
        unfolding c fbyte_def True j(1) [symmetric] by (auto simp: can_move_def)
      then show ?thesis using ld True by (cases "us_rw u") (simp_all add: fbyte_def stored_def)
    qed
  qed
  ultimately show ?thesis using off by (simp add: xfer_def Let_def del: of_nat_add)
qed

text \<open>What a transfer of a region leaves alone.\<close>

definition region_frame :: "nat \<Rightarrow> sfs_fs \<Rightarrow> sfs_fs \<Rightarrow> bool" where
  "region_frame vn s s' \<longleftrightarrow> file_step vn s s' \<and> cache_ok s' \<and> meta (vnode_heap s' vn) = meta (vnode_heap s vn) \<and>
     (\<forall>ino<2 ^ 31. \<forall>b<2 ^ 32. ino \<noteq> sv_ino (vnode_heap s vn) \<longrightarrow> cached s' ino b = cached s ino b)"

lemma region_frame_trans: "region_frame vn s s1 \<Longrightarrow> region_frame vn s1 s2 \<Longrightarrow> region_frame vn s s2"
  using file_step_trans [of vn s s1 s2] by (simp add: region_frame_def meta_def)

lemma io_frame_region: "io_frame vn n s s' \<Longrightarrow> region_frame vn s s'"
  by (simp add: io_frame_def region_frame_def)

text \<open>A transfer of \<open>k\<close> bytes ends, or runs out of space while writing.\<close>

definition io_post :: "nat \<Rightarrow> nat \<Rightarrow> ustream \<Rightarrow> sfs_fs \<Rightarrow> errno + unit \<Rightarrow> ustream \<times> sfs_fs \<Rightarrow> bool" where
  "io_post vn k u s r us \<longleftrightarrow> region_frame vn s (snd us) \<and>
     (case r of
        Inr _ \<Rightarrow> xfer vn k u s (fst us) (snd us)
      | Inl e \<Rightarrow> e = ENOSPC \<and> us_rw u = UIO_WRITE \<and> free_blocks (snd us) = {} \<and>
          (\<exists>j<k. xfer vn j u s (fst us) (snd us)))"

lemma part_io_post:
  assumes "part_post vn n skip len u s r us" "n < SFS_NDIRECT + SFS_DBPERIDB" "0 < len"
    and "us_offset u = int (n * SFS_BLOCKSIZE + skip)" "skip + len \<le> SFS_BLOCKSIZE" "skip < SFS_BLOCKSIZE"
    and "fs_ok s" "cache_ok s" "can_move len u"
  shows "io_post vn len u s r us"
proof (cases r)
  case (Inr x)
  then show ?thesis
    using assms block_xfer [OF _ assms(2,4,5,6,7,8,9)] io_frame_region by (auto simp: part_post_def io_post_def)
next
  case (Inl e)
  then have p: "e = ENOSPC" "us_rw u = UIO_WRITE" "fst us = u" "io_frame vn n s (snd us)"
      "\<forall>m<SFS_NDIRECT + SFS_DBPERIDB. ldata (snd us) vn m = ldata s vn m" "free_blocks (snd us) = {}"
    using assms(1) by (auto simp: part_post_def)
  have "xfer vn 0 u s (fst us) (snd us)"
    using p(3,5) xfer_refl [of vn u s] by (simp add: xfer_def Let_def fbyte_def)
  then show ?thesis using Inl p assms(3) io_frame_region by (auto simp: io_post_def)
qed

lemma io_post_error: "io_post vn k u s (Inl e) us \<Longrightarrow> k \<le> k' \<Longrightarrow> io_post vn k' u s (Inl e) us"
  by (auto simp: io_post_def intro: less_le_trans)

lemma io_post_trans:
  assumes "region_frame vn s s1" "xfer vn k u s u1 s1" "io_post vn j u1 s1 r us"
    and "0 \<le> us_offset u" "nat (us_offset u) + k + j \<le> SFS_MAXFILE" "can_move (k + j) u"
  shows "io_post vn (k + j) u s r us"
proof -
  have rw: "us_rw u1 = us_rw u" using assms(2) by (simp add: xfer_def Let_def)
  have x: "xfer vn (k + i) u s u2 s2" if "xfer vn i u1 s1 u2 s2" "i \<le> j" for i u2 s2
  proof -
    have "can_move (k + i) u" using assms(6) that(2) by (auto simp: can_move_def)
    then show ?thesis using xfer_trans [OF assms(2) that(1) assms(4)] assms(5) that(2) by simp
  qed
  show ?thesis
  proof (cases r)
    case (Inr y)
    then show ?thesis using assms(1,3) x region_frame_trans by (auto simp: io_post_def)
  next
    case (Inl e)
    then obtain i where "i < j" "xfer vn i u1 s1 (fst us) (snd us)" "e = ENOSPC" "us_rw u = UIO_WRITE"
      "region_frame vn s1 (snd us)" "free_blocks (snd us) = {}" using assms(3) rw by (auto simp: io_post_def)
    then show ?thesis
      using Inl x [of i "fst us" "snd us"] region_frame_trans [OF assms(1)]
      by (auto simp: io_post_def intro!: exI [of _ "k + i"])
  qed
qed

text \<open>Blocks that are not cached stay so while other blocks are worked on.\<close>

lemma uncached_frame:
  assumes fr: "io_frame vn n s s'" and m: "m < SFS_NDIRECT + SFS_DBPERIDB" "m \<noteq> n" and n: "n < SFS_NDIRECT + SFS_DBPERIDB"
    and ino: "sv_ino (vnode_heap s vn) < 2 ^ 31" and u: "uncached vn m s"
  shows "uncached vn m s'"
proof (cases "fblock s' vn m = 0")
  case False
  have s': "fs_ok s'" "file_ok s' vn" "sv_ino (vnode_heap s' vn) = sv_ino (vnode_heap s vn)"
    using fr by (simp_all add: io_frame_def file_step_def meta_def)
  have "fblock s' vn m = fblock s vn m" using io_frame_fblock [OF fr m(1)] m(2) by simp
  moreover have "fblock s' vn m \<noteq> fblock s' vn n" using fblock_inj [OF s'(2) n m(1)] m(2) False by metis
  moreover have "fblock s' vn m < 2 ^ 32" by (rule fblock_bound [OF s'(1,2) m(1)])
  ultimately show ?thesis using fr u ino s'(3) by (simp add: uncached_def io_frame_def)
qed (simp add: uncached_def)

definition ready :: "nat \<Rightarrow> sfs_fs \<Rightarrow> bool" where
  "ready vn s \<longleftrightarrow> fs_ok s \<and> file_ok s vn \<and> cache_ok s \<and> sv_ino (vnode_heap s vn) < 2 ^ 31 \<and>
     sp_nblocks (sfs_super s) \<le> 2 ^ 23"

lemma ready_frame: "ready vn s \<Longrightarrow> region_frame vn s s' \<Longrightarrow> ready vn s'"
  by (simp add: ready_def region_frame_def file_step_def meta_def)

lemma xfer_stream:
  assumes "xfer vn k u s u' s'"
  shows "us_offset u' = us_offset u + int k" "us_resid u' = us_resid u - k" "us_rw u' = us_rw u"
    "can_move (k + j) u \<Longrightarrow> can_move j u'"
proof -
  obtain d where u': "u' = advance k d u" using assms by (auto simp: xfer_def Let_def)
  then show "us_offset u' = us_offset u + int k" "us_resid u' = us_resid u - k" "us_rw u' = us_rw u"
    by (simp_all add: advance_def)
  show "can_move (k + j) u \<Longrightarrow> can_move j u'"
    unfolding u' by (cases "us_rw u") (auto simp: can_move_def advance_def)
qed

lemma blockio_step:
  assumes "ready vn s" "us_offset u = int (n * SFS_BLOCKSIZE)" "n < SFS_NDIRECT + SFS_DBPERIDB"
    and "can_move SFS_BLOCKSIZE u" "uncached vn n s"
  shows "wp (sfs_blockio vn) (\<lambda>r us. io_post vn SFS_BLOCKSIZE u s r us \<and> sfs_rcache (snd us) = sfs_rcache s \<and>
      (\<forall>m<SFS_NDIRECT + SFS_DBPERIDB. m \<noteq> n \<and> uncached vn m s \<longrightarrow> uncached vn m (snd us))) (u, s)"
proof -
  have w: "whole_ok vn n u s" using assms by (simp add: whole_ok_def ready_def)
  show ?thesis
  proof (rule wp_mono [OF blockio_spec [OF w]])
    fix r us assume p: "part_post vn n 0 SFS_BLOCKSIZE u s r us \<and> sfs_rcache (snd us) = sfs_rcache s"
    then have "io_post vn SFS_BLOCKSIZE u s r us"
      using part_io_post [of vn n 0 SFS_BLOCKSIZE u s r us] assms by (simp add: ready_def)
    moreover have "io_frame vn n s (snd us)" using p by (simp add: part_post_def)
    ultimately show "io_post vn SFS_BLOCKSIZE u s r us \<and> sfs_rcache (snd us) = sfs_rcache s \<and>
      (\<forall>m<SFS_NDIRECT + SFS_DBPERIDB. m \<noteq> n \<and> uncached vn m s \<longrightarrow> uncached vn m (snd us))"
      using p uncached_frame [of vn n s "snd us"] assms(1,3) by (simp add: ready_def)
  qed
qed

lemma blockio_loop:
  assumes "ready vn s" "us_offset u = int (n * SFS_BLOCKSIZE)" "n + length is \<le> SFS_NDIRECT + SFS_DBPERIDB"
    and "can_move (length is * SFS_BLOCKSIZE) u" "\<forall>m. n \<le> m \<and> m < n + length is \<longrightarrow> uncached vn m s"
  shows "wp (forP is (\<lambda>i. sfs_blockio vn))
    (\<lambda>r us. io_post vn (length is * SFS_BLOCKSIZE) u s r us \<and> sfs_rcache (snd us) = sfs_rcache s \<and>
       (is = [] \<longrightarrow> us = (u, s))) (u, s)"
  using assms
proof (induction "is" arbitrary: n u s)
  case Nil
  have "region_frame vn s s"
    using Nil.prems(1) file_step_refl [of s vn] by (simp add: region_frame_def ready_def)
  then show ?case using xfer_refl [of vn u s] by (simp add: wp_simps io_post_def)
next
  case (Cons i "is")
  let ?k = "length is * SFS_BLOCKSIZE"
  have mv: "can_move (SFS_BLOCKSIZE + ?k) u" using Cons.prems(4) by simp
  then have mv1: "can_move SFS_BLOCKSIZE u" by (auto simp: can_move_def)
  have un: "uncached vn n s" using Cons.prems(5) by simp
  show ?case
    unfolding forP.simps
  proof (rule wp_call [OF blockio_step [OF Cons.prems(1,2) _ mv1 un]])
    show "n < SFS_NDIRECT + SFS_DBPERIDB" using Cons.prems(3) by simp
  next
    fix e us assume "io_post vn SFS_BLOCKSIZE u s (Inl e) us \<and> sfs_rcache (snd us) = sfs_rcache s \<and>
      (\<forall>m<SFS_NDIRECT + SFS_DBPERIDB. m \<noteq> n \<and> uncached vn m s \<longrightarrow> uncached vn m (snd us))"
    then show "io_post vn (length (i # is) * SFS_BLOCKSIZE) u s (Inl e) us \<and> sfs_rcache (snd us) = sfs_rcache s \<and>
        (i # is = [] \<longrightarrow> us = (u, s))"
      using io_post_error [of vn SFS_BLOCKSIZE u s e us] by simp
  next
    fix x us assume p: "io_post vn SFS_BLOCKSIZE u s (Inr x) us \<and> sfs_rcache (snd us) = sfs_rcache s \<and>
      (\<forall>m<SFS_NDIRECT + SFS_DBPERIDB. m \<noteq> n \<and> uncached vn m s \<longrightarrow> uncached vn m (snd us))"
    obtain u1 s1 where us: "us = (u1, s1)" by (cases us)
    have fr: "region_frame vn s s1" and x: "xfer vn SFS_BLOCKSIZE u s u1 s1" and rc: "sfs_rcache s1 = sfs_rcache s"
      using p by (simp_all add: us io_post_def)
    have "wp (forP is (\<lambda>i. sfs_blockio vn))
        (\<lambda>r us. io_post vn ?k u1 s1 r us \<and> sfs_rcache (snd us) = sfs_rcache s1 \<and> (is = [] \<longrightarrow> us = (u1, s1))) (u1, s1)"
    proof (rule Cons.IH [OF ready_frame [OF Cons.prems(1) fr]])
      show "us_offset u1 = int (Suc n * SFS_BLOCKSIZE)" using xfer_stream(1) [OF x] Cons.prems(2) by simp
      show "\<forall>m. Suc n \<le> m \<and> m < Suc n + length is \<longrightarrow> uncached vn m s1" using p Cons.prems(3,5) by (simp add: us)
    qed (use xfer_stream(4) [OF x mv] Cons.prems(3) in simp_all)
    then show "wp (forP is (\<lambda>i. sfs_blockio vn))
        (\<lambda>r us. io_post vn (length (i # is) * SFS_BLOCKSIZE) u s r us \<and> sfs_rcache (snd us) = sfs_rcache s \<and>
          (i # is = [] \<longrightarrow> us = (u, s))) us"
      unfolding us
    proof (rule wp_mono, elim conjE, intro conjI)
      fix r us' assume q: "io_post vn ?k u1 s1 r us'" "sfs_rcache (snd us') = sfs_rcache s1"
      show "sfs_rcache (snd us') = sfs_rcache s" using q(2) rc by simp
      show "io_post vn (length (i # is) * SFS_BLOCKSIZE) u s r us'"
        using io_post_trans [OF fr x q(1) _ _ mv] Cons.prems(2,3) by simp
    qed simp
  qed
qed

lemma partial_step:
  assumes "ready vn s" "us_offset u = int (n * SFS_BLOCKSIZE + skip)" "n < SFS_NDIRECT + SFS_DBPERIDB"
    and "skip < SFS_BLOCKSIZE" "skip + len \<le> SFS_BLOCKSIZE" "0 < len" "can_move len u" "has_room vn n s"
  shows "wp (sfs_partialio vn skip len) (\<lambda>r us. io_post vn len u s r us \<and> free_slots s \<le> Suc (free_slots (snd us)) \<and>
      part_post vn n skip len u s r us \<and> (r = Inr () \<longrightarrow> slot_use vn n s (snd us)) \<and>
      (\<forall>m<SFS_NDIRECT + SFS_DBPERIDB. m \<noteq> n \<and> uncached vn m s \<longrightarrow> uncached vn m (snd us))) (u, s)"
proof -
  have "part_ok vn n skip len u s" using assms by (simp add: part_ok_def ready_def)
  from partialio_spec [OF this] show ?thesis
  proof (rule wp_mono)
    fix r us assume pp: "part_post vn n skip len u s r us \<and> (r = Inr () \<longrightarrow> slot_use vn n s (snd us))"
    then have p: "part_post vn n skip len u s r us" ..
    then have "io_post vn len u s r us" using part_io_post [OF p assms(3,6,2,5,4)] assms(1,7) by (simp add: ready_def)
    moreover have "io_frame vn n s (snd us)" using p by (simp add: part_post_def)
    ultimately show "io_post vn len u s r us \<and> free_slots s \<le> Suc (free_slots (snd us)) \<and>
      part_post vn n skip len u s r us \<and> (r = Inr () \<longrightarrow> slot_use vn n s (snd us)) \<and>
      (\<forall>m<SFS_NDIRECT + SFS_DBPERIDB. m \<noteq> n \<and> uncached vn m s \<longrightarrow> uncached vn m (snd us))"
      using pp uncached_frame [of vn n s "snd us"] assms(1,3) by (auto simp: ready_def io_frame_def)
  qed
qed

lemma io_post_refl: "ready vn s \<Longrightarrow> io_post vn 0 u s (Inr ()) (u, s)"
  using xfer_refl [of vn u s] file_step_refl [of s vn] by (simp add: io_post_def region_frame_def ready_def)

text \<open>Two transfers in sequence; \<open>P\<close> is what the second needs to know of the first.\<close>

lemma io_post_bind:
  assumes m: "wp m (\<lambda>r us. io_post vn j u s r us \<and> P us) (u, s)"
    and m': "\<And>u1 s1. region_frame vn s s1 \<Longrightarrow> xfer vn j u s u1 s1 \<Longrightarrow> P (u1, s1) \<Longrightarrow> wp m' (io_post vn (k - j) u1 s1) (u1, s1)"
    and k: "j \<le> k" "0 \<le> us_offset u" "nat (us_offset u) + k \<le> SFS_MAXFILE" "can_move k u"
  shows "wp (bindP m (\<lambda>_. m')) (io_post vn k u s) (u, s)"
proof (rule wp_call [OF m])
  fix e us assume "io_post vn j u s (Inl e) us \<and> P us"
  then show "io_post vn k u s (Inl e) us" using io_post_error [of vn j u s e us k] k(1) by simp
next
  fix x us assume p: "io_post vn j u s (Inr x) us \<and> P us"
  obtain u1 s1 where us: "us = (u1, s1)" by (cases us)
  have fr: "region_frame vn s s1" and x: "xfer vn j u s u1 s1" using p by (simp_all add: us io_post_def)
  then show "wp m' (io_post vn k u s) us"
    unfolding us using m' [OF fr x] p io_post_trans [OF fr x, of "k - j"] k by (auto simp: us elim!: wp_mono)
qed

text \<open>The rest of a region behind its whole blocks.\<close>

definition sfs_io_rest :: "nat \<Rightarrow> (ustream \<times> sfs_fs, unit) proc" where
  "sfs_io_rest vn = bindP (getP fst) (\<lambda>uio. bindP (assertP (us_resid uio < SFS_BLOCKSIZE)) (\<lambda>_.
     if us_resid uio > 0 then sfs_partialio vn 0 (us_resid uio) else retP ()))"

lemma io_rest_spec:
  assumes "ready vn s" "us_offset u = int (n * SFS_BLOCKSIZE)" "us_resid u = r" "r < SFS_BLOCKSIZE" "can_move r u"
    and "r \<noteq> 0 \<Longrightarrow> n < SFS_NDIRECT + SFS_DBPERIDB \<and> has_room vn n s"
  shows "wp (sfs_io_rest vn) (io_post vn r u s) (u, s)"
proof (cases "r = 0")
  case True
  then show ?thesis using io_post_refl [OF assms(1), of u] assms(3) by (simp add: sfs_io_rest_def wp_simps)
next
  case False
  with partial_step [OF assms(1) _ _ _ _ _ assms(5), of n 0] assms(2,3,4,6) show ?thesis
    by (auto simp: sfs_io_rest_def wp_bind wp_get wp_assert elim!: wp_mono)
qed

lemma io_aligned_spec:
  assumes rd: "ready vn s" and off: "us_offset u = int (n * SFS_BLOCKSIZE)" and k: "us_resid u = k"
    "n * SFS_BLOCKSIZE + k \<le> SFS_MAXFILE" and mv: "can_move k u"
    and un: "\<forall>m. n \<le> m \<and> m < n + k div SFS_BLOCKSIZE \<longrightarrow> uncached vn m s"
    and room: "k mod SFS_BLOCKSIZE \<noteq> 0 \<longrightarrow> (if k < SFS_BLOCKSIZE then has_room vn n s else 0 < free_slots s)"
  shows "wp (sfs_io_aligned vn) (io_post vn k u s) (u, s)"
proof (cases "k = 0")
  case True
  then show ?thesis using k(1) io_post_refl [OF rd, of u] by (simp add: sfs_io_aligned_def wp_simps)
next
  case False
  define c r where "c = k div SFS_BLOCKSIZE" and "r = k mod SFS_BLOCKSIZE"
  have kr: "c * SFS_BLOCKSIZE + r = k" "r < SFS_BLOCKSIZE" by (simp_all add: c_def r_def)
  have c: "n + length [0..<c] \<le> SFS_NDIRECT + SFS_DBPERIDB" using k(2) kr(1) by simp
  have mvc: "can_move (length [0..<c] * SFS_BLOCKSIZE) u" using mv kr(1) by (auto simp: can_move_def)
  have un': "\<forall>m. n \<le> m \<and> m < n + length [0..<c] \<longrightarrow> uncached vn m s" using un by (simp add: c_def)
  have "wp (bindP (forP [0..<c] (\<lambda>i. sfs_blockio vn)) (\<lambda>_. sfs_io_rest vn)) (io_post vn k u s) (u, s)"
  proof (rule io_post_bind [OF blockio_loop [OF rd off c mvc un']])
    fix u1 s1 assume fr: "region_frame vn s s1" and x: "xfer vn (length [0..<c] * SFS_BLOCKSIZE) u s u1 s1"
      and p: "sfs_rcache (snd (u1, s1)) = sfs_rcache s \<and> ([0..<c] = [] \<longrightarrow> (u1, s1) = (u, s))"
    have x': "us_resid u1 = r" "us_offset u1 = int ((n + c) * SFS_BLOCKSIZE)" "can_move r u1" "k - length [0..<c] * SFS_BLOCKSIZE = r"
      using xfer_stream(1,2) [OF x] xfer_stream(4) [OF x, of r] kr(1) k(1) off mv by (simp_all add: algebra_simps)
    have "has_room vn (n + c) s1" if "r \<noteq> 0"
    proof (cases "k < SFS_BLOCKSIZE")
      case True
      then show ?thesis using room p that by (simp add: c_def r_def)
    next
      case False
      then show ?thesis using room p that by (simp add: has_room_def free_slots_def r_def)
    qed
    moreover have "n + c < SFS_NDIRECT + SFS_DBPERIDB" if "r \<noteq> 0" using k(2) kr(1) that by linarith
    ultimately show "wp (sfs_io_rest vn) (io_post vn (k - length [0..<c] * SFS_BLOCKSIZE) u1 s1) (u1, s1)"
      unfolding x'(4) by (intro io_rest_spec [OF ready_frame [OF rd fr] x'(2,1) kr(2) x'(3)]) simp
  qed (use kr off k(2) mv in simp_all)
  then show ?thesis using off k(1) False
    by (simp add: sfs_io_aligned_def wp_bind [of "getP _"] wp_bind [of "assertP _"] wp_get wp_assert Let_def sfs_io_rest_def c_def)
qed

text \<open>
  What \<open>sfs_io\<close> needs from the cache for a region: whole blocks are not cached, since they
  bypass the cache, and there is a slot for each partial block.
\<close>

definition io_room :: "nat \<Rightarrow> nat \<Rightarrow> nat \<Rightarrow> sfs_fs \<Rightarrow> bool" where
  "io_room vn off k s \<longleftrightarrow>
     (\<forall>m<SFS_NDIRECT + SFS_DBPERIDB. off \<le> m * SFS_BLOCKSIZE \<and> (m + 1) * SFS_BLOCKSIZE \<le> off + k \<longrightarrow> uncached vn m s) \<and>
     (if off mod SFS_BLOCKSIZE + k \<le> SFS_BLOCKSIZE then has_room vn (off div SFS_BLOCKSIZE) s
      else 2 \<le> free_slots s)"

text \<open>The blocks behind a first partial block.\<close>

lemma io_aligned_after:
  assumes rd: "ready vn s1" and nb: "off = n * SFS_BLOCKSIZE + b" "b < SFS_BLOCKSIZE" and k: "us_resid u = k - len" "off + k \<le> SFS_MAXFILE"
    and len: "len = min (SFS_BLOCKSIZE - b) k" and u: "us_offset u = int (off + len)" "can_move (k - len) u"
    and un: "\<And>m. m < SFS_NDIRECT + SFS_DBPERIDB \<Longrightarrow> m \<noteq> n \<Longrightarrow> off \<le> m * SFS_BLOCKSIZE \<Longrightarrow> (m + 1) * SFS_BLOCKSIZE \<le> off + k \<Longrightarrow> uncached vn m s1"
    and room: "b + k > SFS_BLOCKSIZE \<longrightarrow> 0 < free_slots s1"
  shows "wp (sfs_io_aligned vn) (io_post vn (k - len) u s1) (u, s1)"
proof (cases "k - len = 0")
  case True
  then show ?thesis using k(1) io_post_refl [OF rd, of u] by (simp add: sfs_io_aligned_def wp_simps)
next
  case False
  then have l: "len = SFS_BLOCKSIZE - b" "b + k > SFS_BLOCKSIZE" using len by auto
  show ?thesis
  proof (rule io_aligned_spec [OF rd, where n = "Suc n"])
    show "\<forall>m. Suc n \<le> m \<and> m < Suc n + (k - len) div SFS_BLOCKSIZE \<longrightarrow> uncached vn m s1"
    proof (intro allI impI)
      fix m assume m: "Suc n \<le> m \<and> m < Suc n + (k - len) div SFS_BLOCKSIZE"
      then have "(m + 1) * SFS_BLOCKSIZE \<le> (Suc n + (k - len) div SFS_BLOCKSIZE) * SFS_BLOCKSIZE"
        by (intro mult_le_mono1) linarith
      moreover have "(k - len) div SFS_BLOCKSIZE * SFS_BLOCKSIZE \<le> k - len" by simp
      ultimately have "(m + 1) * SFS_BLOCKSIZE \<le> off + k" unfolding add_mult_distrib using nb l by simp
      moreover have "off \<le> m * SFS_BLOCKSIZE" using m nb by simp
      ultimately show "uncached vn m s1" using un [of m] k(2) m by simp
    qed
  qed (use u nb l k room in \<open>simp_all add: has_room_def\<close>)
qed

lemma io_blocks_spec:
  assumes rd: "ready vn s" and off: "us_offset u = int off" and k: "us_resid u = k" "0 < k" "off + k \<le> SFS_MAXFILE"
    and mv: "can_move k u" and room: "io_room vn off k s"
  shows "wp (sfs_io_blocks vn) (io_post vn k u s) (u, s)"
proof -
  define n b where "n = off div SFS_BLOCKSIZE" and "b = off mod SFS_BLOCKSIZE"
  have nb: "off = n * SFS_BLOCKSIZE + b" "b < SFS_BLOCKSIZE" by (simp_all add: n_def b_def)
  have bo: "nat (us_offset u mod 512) = b" using off by (simp add: b_def nat_mod_as_int)
  have un: "uncached vn m s" if "off \<le> m * SFS_BLOCKSIZE" "(m + 1) * SFS_BLOCKSIZE \<le> off + k" for m
    using room that k(3) by (simp add: io_room_def)
  show ?thesis
  proof (cases "b = 0")
    case True
    have "wp (sfs_io_aligned vn) (io_post vn k u s) (u, s)"
    proof (rule io_aligned_spec [OF rd _ k(1) _ mv])
      show "\<forall>m. n \<le> m \<and> m < n + k div SFS_BLOCKSIZE \<longrightarrow> uncached vn m s"
        using un nb(1) True by (auto simp: less_mult_imp_div_less)
      show "k mod SFS_BLOCKSIZE \<noteq> 0 \<longrightarrow> (if k < SFS_BLOCKSIZE then has_room vn n s else 0 < free_slots s)"
        using room True by (auto simp: io_room_def n_def b_def split: if_splits)
    qed (use off nb(1) True k(3) in simp_all)
    then show ?thesis
      using bo True by (simp add: sfs_io_blocks_def wp_bind [of "getP _"] wp_get wp_bind [of "retP _"] wp_ret Let_def)
  next
    case False
    define len where "len = min (SFS_BLOCKSIZE - b) k"
    have len: "0 < len" "b + len \<le> SFS_BLOCKSIZE" "len \<le> k" using nb(2) k(2) by (auto simp: len_def)
    have n: "n < SFS_NDIRECT + SFS_DBPERIDB" using nb k(2,3) by linarith
    have hr: "has_room vn n s" "b + k > SFS_BLOCKSIZE \<longrightarrow> 2 \<le> free_slots s"
      using room by (auto simp: io_room_def n_def b_def has_room_def split: if_splits)
    have mvl: "can_move len u" "can_move (len + (k - len)) u" using mv len(3) by (auto simp: can_move_def)
    have "us_offset u = int (n * SFS_BLOCKSIZE + b)" using off nb(1) by simp
    then have "wp (sfs_partialio vn b len) (\<lambda>r us. io_post vn len u s r us \<and> (free_slots s \<le> Suc (free_slots (snd us)) \<and>
        (\<forall>m<SFS_NDIRECT + SFS_DBPERIDB. m \<noteq> n \<and> uncached vn m s \<longrightarrow> uncached vn m (snd us)))) (u, s)"
      by (rule wp_mono [OF partial_step [OF rd _ n nb(2) len(2,1) mvl(1) hr(1)]]) simp
    then have "wp (bindP (sfs_partialio vn b len) (\<lambda>_. sfs_io_aligned vn)) (io_post vn k u s) (u, s)"
    proof (rule io_post_bind)
      fix u1 s1 assume fr: "region_frame vn s s1" and x: "xfer vn len u s u1 s1"
        and p: "free_slots s \<le> Suc (free_slots (snd (u1, s1))) \<and>
          (\<forall>m<SFS_NDIRECT + SFS_DBPERIDB. m \<noteq> n \<and> uncached vn m s \<longrightarrow> uncached vn m (snd (u1, s1)))"
      show "wp (sfs_io_aligned vn) (io_post vn (k - len) u1 s1) (u1, s1)"
        by (rule io_aligned_after [OF ready_frame [OF rd fr] nb _ k(3) len_def])
          (use xfer_stream(1,2) [OF x] xfer_stream(4) [OF x mvl(2)] p un off hr(2) k(1) in auto)
    qed (use len(3) off k(3) mv in simp_all)
    moreover have "(if SFS_BLOCKSIZE - b > us_resid u then us_resid u else SFS_BLOCKSIZE - b) = len"
      using k(1) by (simp add: len_def)
    ultimately show ?thesis
      using False by (simp only: sfs_io_blocks_def wp_bind [of "getP _"] wp_get Let_def fst_conv bo sum.case simp_thms if_True)
  qed
qed

section \<open>The whole operation\<close>

lemma xfer_resid:
  assumes "xfer vn k (u\<lparr>us_resid := m\<rparr>) s u1 s1" "k \<le> m" "us_resid u = m + e"
  shows "xfer vn k u s (u1\<lparr>us_resid := us_resid u1 + e\<rparr>) s1"
  using assms by (cases "us_rw u") (auto simp: xfer_def Let_def advance_def)

lemma io_read_spec:
  assumes rd: "ready vn s" and rw: "us_rw u = UIO_READ" and off: "us_offset u = int off"
    and sz: "sfi_size (sv_i (vnode_heap s vn)) = sz" "sz \<le> SFS_MAXFILE"
    and res: "0 < us_resid u" "us_resid u < 2 ^ 32" and k: "k = min (us_resid u) (sz - off)"
    and mv: "can_move k u" and room: "off < sz \<longrightarrow> io_room vn off k s"
  shows "wp (sfs_io vn) (\<lambda>r us. r = Inr () \<and> region_frame vn s (snd us) \<and> xfer vn k u s (fst us) (snd us)) (u, s)"
    (is "wp _ ?Q _")
proof (cases "sz \<le> off")
  case True
  then have "k = 0" using k by simp
  then show ?thesis
    using True rw off sz(1) io_post_refl [OF rd, of u] by (simp add: sfs_io_def wp_simps io_post_def)
next
  case False
  let ?e = "us_resid u - k" and ?u = "u\<lparr>us_resid := k\<rparr>"
  have kk: "0 < k" "k \<le> us_resid u" "off + k \<le> SFS_MAXFILE" using False k res(1) sz(2) by auto
  have mv': "can_move k ?u" using mv by (simp add: can_move_def)
  have "wp (sfs_io_blocks vn) (io_post vn k ?u s) (?u, s)"
    using io_blocks_spec [OF rd, of ?u off k] off kk mv' room False by simp
  then have body: "wp (tryP (sfs_io_blocks vn) (sfs_io_out vn ?e)) ?Q (?u, s)"
  proof (rule wp_call_try)
    fix r us assume p: "io_post vn k ?u s r us"
    obtain u1 s1 where us: "us = (u1, s1)" by (cases us)
    have r: "r = Inr ()" and x: "xfer vn k ?u s u1 s1" and fr: "region_frame vn s s1"
      using p rw by (auto simp: io_post_def us split: sum.splits)
    have "us_rw u1 = UIO_READ" "us_resid u1 = 0" using xfer_stream(2,3) [OF x] rw by simp_all
    then show "wp (sfs_io_out vn ?e r) ?Q us"
      using r us fr xfer_resid [OF x, of ?e] kk(2) res(2) by (simp add: sfs_io_out_def wp_simps)
  qed
  show ?thesis
  proof (cases "off + us_resid u > sz")
    case True
    have e: "to_u32 (int off + int (us_resid u) - int sz) = ?e" "us_resid u - ?e = k" "?e < us_resid u"
      using True k False kk(1,2) res(2) by (auto simp: to_u32_def)
    have "int sz < int off + int (us_resid u)" using True by linarith
    then show ?thesis
      using body e False rw off sz(1) by (simp add: sfs_io_def wp_bind wp_get wp_assert wp_mod Let_def)
  next
    case nt: False
    have e: "?e = 0" "us_resid u = k" using nt k False by auto
    have uu: "?u = u" using e(2) by (cases u) simp
    have "\<not> int sz < int off + int (us_resid u)" using nt by linarith
    then show ?thesis
      using body [unfolded uu e(1)] False rw off sz(1) by (simp add: sfs_io_def wp_bind wp_get wp_ret Let_def)
  qed
qed

text \<open>Setting the size moves no data.\<close>

lemma size_step:
  assumes "region_frame vn s s1" "n < 2 ^ 32"
  defines "s2 \<equiv> upd_inode vn (\<lambda>i. i\<lparr>sfi_size := n\<rparr>) s1"
  shows "fbyte s2 vn = fbyte s1 vn" "file_step vn s s2" "cache_ok s2" "cached s2 = cached s1"
    "blocks s2 vn = blocks s1 vn" "free_slots s2 = free_slots s1"
    "sv_ino (vnode_heap s2 vn) = sv_ino (vnode_heap s1 vn)" "sfi_type (sv_i (vnode_heap s2 vn)) = sfi_type (sv_i (vnode_heap s1 vn))"
    "sfi_linkcount (sv_i (vnode_heap s2 vn)) = sfi_linkcount (sv_i (vnode_heap s1 vn))"
proof -
  have i: "sfi_direct (sv_i (vnode_heap s2 vn)) = sfi_direct (sv_i (vnode_heap s1 vn))"
    "sfi_indirect (sv_i (vnode_heap s2 vn)) = sfi_indirect (sv_i (vnode_heap s1 vn))"
    "sv_ino (vnode_heap s2 vn) = sv_ino (vnode_heap s1 vn)" "disk s2 = disk s1" "sfs_rcache s2 = sfs_rcache s1"
    by (simp_all add: s2_def) (simp add: upd_inode_def upd_vnode_def)
  have id: "id_entries s2 vn = id_entries s1 vn" by (simp add: id_entries_def i Let_def)
  then have b: "blocks s2 vn = blocks s1 vn" and o: "owned s2 vn = owned s1 vn"
    by (simp_all add: blocks_def owned_def cells_def i)
  have c: "cached s2 = cached s1" by (simp add: cached_def fun_eq_iff i)
  show "blocks s2 vn = blocks s1 vn" "cached s2 = cached s1" by (rule b c)+
  show "fbyte s2 vn = fbyte s1 vn"
    by (simp add: fbyte_def ldata_def fblock_def b c i fun_eq_iff cong: option.case_cong)
  have "file_ok s1 vn" "fs_ok s1" using assms(1) by (simp_all add: region_frame_def file_step_def)
  then have "file_ok s2 vn" using assms(2) by (simp add: file_ok_def o) (simp add: s2_def inode_wf_def)
  then show "file_step vn s s2" using assms(1) o by (simp add: region_frame_def file_step_def) (simp add: s2_def)
  show "cache_ok s2" using assms(1) by (simp add: region_frame_def cache_ok_def i) (simp add: s2_def)
  show "free_slots s2 = free_slots s1" by (simp add: free_slots_def i)
  show "sv_ino (vnode_heap s2 vn) = sv_ino (vnode_heap s1 vn)" by (rule i)
  show "sfi_type (sv_i (vnode_heap s2 vn)) = sfi_type (sv_i (vnode_heap s1 vn))"
    "sfi_linkcount (sv_i (vnode_heap s2 vn)) = sfi_linkcount (sv_i (vnode_heap s1 vn))"
    by (simp_all add: s2_def)
qed

text \<open>The result of a write of \<open>k\<close> bytes at \<open>off\<close>: \<open>j\<close> bytes are written, all of them unless space ran out.\<close>

definition write_post :: "nat \<Rightarrow> nat \<Rightarrow> ustream \<Rightarrow> sfs_fs \<Rightarrow> errno + unit \<Rightarrow> ustream \<times> sfs_fs \<Rightarrow> bool" where
  "write_post vn k u s r us \<longleftrightarrow>
     (\<exists>j. xfer vn j u s (fst us) (snd us) \<and> (r = Inr () \<and> j = k \<or> r = Inl ENOSPC \<and> j < k \<and> free_blocks (snd us) = {}) \<and>
        file_step vn s (snd us) \<and> cache_ok (snd us) \<and>
        (\<forall>ino<2 ^ 31. \<forall>b<2 ^ 32. ino \<noteq> sv_ino (vnode_heap s vn) \<longrightarrow> cached (snd us) ino b = cached s ino b) \<and>
        (let sv = vnode_heap s vn; sv' = vnode_heap (snd us) vn in
         sfi_size (sv_i sv') = max (sfi_size (sv_i sv)) (nat (us_offset u) + j) \<and>
         sfi_type (sv_i sv') = sfi_type (sv_i sv) \<and> sfi_linkcount (sv_i sv') = sfi_linkcount (sv_i sv) \<and>
         sv_ino sv' = sv_ino sv))"

lemma io_write_spec:
  assumes rd: "ready vn s" and rw: "us_rw u = UIO_WRITE" and off: "us_offset u = int off"
    and k: "us_resid u = k" "0 < k" "off + k \<le> SFS_MAXFILE" and mv: "can_move k u" and room: "io_room vn off k s"
  shows "wp (sfs_io vn) (write_post vn k u s) (u, s)"
proof -
  have "wp (tryP (sfs_io_blocks vn) (sfs_io_out vn 0)) (write_post vn k u s) (u, s)"
  proof (rule wp_call_try [OF io_blocks_spec [OF rd off k mv room]])
    fix r us assume p: "io_post vn k u s r us"
    obtain u1 s1 where us: "us = (u1, s1)" by (cases us)
    obtain j where j: "xfer vn j u s u1 s1" "r = Inr () \<and> j = k \<or> r = Inl ENOSPC \<and> j < k \<and> free_blocks s1 = {}"
      using p by (auto simp: io_post_def us split: sum.splits)
    have fr: "region_frame vn s s1" using p by (simp add: io_post_def us)
    have jk: "j \<le> k" using j(2) by auto
    have u1: "us_offset u1 = int (off + j)" "us_rw u1 = UIO_WRITE" "us_resid u1 < 2 ^ 32"
      using xfer_stream [OF j(1)] off rw k by simp_all
    let ?n = "off + j" and ?sz = "sfi_size (sv_i (vnode_heap s vn))"
    have sz1: "sfi_size (sv_i (vnode_heap s1 vn)) = ?sz" "sfi_type (sv_i (vnode_heap s1 vn)) = sfi_type (sv_i (vnode_heap s vn))"
      "sfi_linkcount (sv_i (vnode_heap s1 vn)) = sfi_linkcount (sv_i (vnode_heap s vn))"
      "sv_ino (vnode_heap s1 vn) = sv_ino (vnode_heap s vn)"
      using fr by (simp_all add: region_frame_def meta_def)
    have n32: "?n < 2 ^ 32" "to_u32 (int ?n) = ?n" using jk k(3) by (simp_all add: to_u32_def mod_pos_pos_trivial)
    let ?s2 = "if ?sz < ?n then upd_inode vn (\<lambda>i. i\<lparr>sfi_size := ?n\<rparr>) s1 else s1"
    note st = size_step [OF fr n32(1)]
    have "xfer vn j u s u1 ?s2" using j(1) st(1) by (simp add: xfer_def Let_def)
    moreover have "free_blocks ?s2 = free_blocks s1" by (simp add: free_blocks_def)
    moreover have "file_step vn s ?s2" "cache_ok ?s2" using st(2,3) fr by (simp_all add: region_frame_def)
    moreover have "sfi_size (sv_i (vnode_heap ?s2 vn)) = max ?sz ?n" using sz1(1) by simp
    moreover have "\<forall>ino<2 ^ 31. \<forall>b<2 ^ 32. ino \<noteq> sv_ino (vnode_heap s vn) \<longrightarrow> cached ?s2 ino b = cached s ino b"
      using fr st(4) by (simp add: region_frame_def)
    ultimately have "write_post vn k u s r (u1, ?s2)"
      unfolding write_post_def using j(2) sz1 st(7-9) off
      by (intro exI [of _ j]) (simp add: Let_def)
    moreover have "sfs_io_out vn 0 r us = Some (r, u1, ?s2)"
      using us u1 n32 sz1(1) by (simp add: sfs_io_out_def bindP_def modP_def retP_def throwP_def split: sum.splits)
    ultimately show "wp (sfs_io_out vn 0 r) (write_post vn k u s) us" by (simp add: wp_def)
  qed
  then show ?thesis using rw by (simp add: sfs_io_def wp_bind wp_get wp_ret Let_def)
qed

text \<open>A file that shares neither blocks nor its inode number reads as before.\<close>

lemma other_ldata:
  assumes st: "file_step vn s s'" and w: "w \<noteq> vn" "file_ok s w" "set (owned s w) \<inter> set (owned s vn) = {}"
    and ino: "sv_ino (vnode_heap s w) < 2 ^ 31" "sv_ino (vnode_heap s w) \<noteq> sv_ino (vnode_heap s vn)"
    and c: "\<forall>ino<2 ^ 31. \<forall>b<2 ^ 32. ino \<noteq> sv_ino (vnode_heap s vn) \<longrightarrow> cached s' ino b = cached s ino b"
    and m: "m < SFS_NDIRECT + SFS_DBPERIDB" and ok: "fs_ok s"
  shows "ldata s' w m = ldata s w m"
proof -
  note o = file_step_other [OF st w]
  have h: "vnode_heap s' w = vnode_heap s w" using st w(1) by (simp add: file_step_def)
  have fb: "fblock s' w m = fblock s w m" using o(2) by (simp add: fblock_def)
  have "cached s' (sv_ino (vnode_heap s w)) (fblock s w m) = cached s (sv_ino (vnode_heap s w)) (fblock s w m)"
    using c ino fblock_bound [OF ok w(2) m] by simp
  then show ?thesis
    using o(4) [OF m] by (auto simp: ldata_def fdata_def fb h split: option.splits if_splits)
qed

section \<open>The cache when it is full, and whole blocks that are cached\<close>

text \<open>
  With no free slot and no slot for the block, \<open>sfs_partialio\<close> picks a victim, writes it back and
  loads the block over it, but leaves the victim's tags.
\<close>

lemma cache_scan_full:
  "\<forall>c\<in>set cs. \<not> slot_is ino b c \<and> inode_no c \<noteq> -1 \<Longrightarrow>
    cache_scan cs k (to_s32 ino) (to_s32 b) None = Inr None"
  by (induction cs arbitrary: k) (auto simp: slot_is_def)

lemma replace_run:
  assumes ok: "fs_ok s" "b < sp_nblocks (sfs_super s)" and rw: "us_rw u = UIO_READ"
    and v: "env_random s = r # rs" "sfs_rcache s ! (r mod BUFFER_SIZE) = c"
    and c: "length (cache c) = SFS_BLOCKSIZE" "to_u32 (block_no c) < sp_nblocks (sfs_super s)" "to_u32 (block_no c) \<noteq> b"
    and mv: "can_move len u" "skip + len \<le> SFS_BLOCKSIZE"
  shows "\<exists>s'. partial_replace skip len b (u, s) = Some (Inr (), advance len (drop skip (disk s b)) u, s') \<and>
    sfs_rcache s' = (sfs_rcache s)[r mod BUFFER_SIZE := c\<lparr>cache := disk s b\<rparr>]"
proof -
  let ?i = "r mod BUFFER_SIZE" and ?vb = "to_u32 (block_no c)"
  define s0 where "s0 = s\<lparr>env_random := rs\<rparr>"
  have ok0: "fs_ok s0" "disk s0 = disk s" "sfs_rcache s0 = sfs_rcache s" "sp_nblocks (sfs_super s0) = sp_nblocks (sfs_super s)"
    using ok(1) by (simp_all add: s0_def fs_ok_def)
  obtain d1 where w: "sfs_wblock (cache c) ?vb s0 = Some (Inr (), s0\<lparr>sfs_device := d1\<rparr>)" "dev_ok d1"
    "lh_sectors d1 = (disk s)(?vb := cache c)" "lh_d_blocks d1 = lh_d_blocks (sfs_device s0)"
    using wblock_run [of s0 ?vb "cache c"] fs_okD(1,4) [OF ok0(1)] ok0 c by auto
  define s1 where "s1 = s0\<lparr>sfs_device := d1\<rparr>"
  have ok1: "fs_ok s1" "disk s1 b = disk s b" "sfs_rcache s1 = sfs_rcache s" "b < sp_nblocks (sfs_super s1)"
    using ok0 w ok(2) c(3) by (simp_all add: s1_def fs_ok_def)
  have "wp (sfs_rblock b) (\<lambda>r s'. r = Inr (disk s1 b) \<and> touched s1 s') s1"
    by (rule wp_rblock_touched [OF ok1(1,4)]) simp
  then obtain s2 where r2: "sfs_rblock b s1 = Some (Inr (disk s b), s2)" "touched s1 s2"
    using ok1(2) by (auto simp: wp_def)
  note t2 = touched_sel [OF r2(2)]
  define s3 where "s3 = set_slot ?i (\<lambda>c. c\<lparr>cache := disk s b\<rparr>) s2"
  have ok3: "fs_ok s3" "disk s3 b = disk s b" "b < sp_nblocks (sfs_super s3)"
    "sfs_rcache s3 = (sfs_rcache s)[?i := c\<lparr>cache := disk s b\<rparr>]"
    using t2 ok1 v(2) by (simp_all add: s3_def same_rest_def)
  have "wp (sfs_rblock b) (\<lambda>r s'. r = Inr (disk s3 b) \<and> touched s3 s') s3"
    by (rule wp_rblock_touched [OF ok3(1,3)]) simp
  then obtain s4 where r4: "sfs_rblock b s3 = Some (Inr (disk s b), s4)" "touched s3 s4"
    using ok3(2) by (auto simp: wp_def)
  have l: "length (disk s b) = SFS_BLOCKSIZE" using fs_okD(1) [OF ok(1)] by (simp add: dev_ok_def lhd_inv_def)
  have "partial_replace skip len b (u, s) = Some (Inr (), advance len (drop skip (disk s b)) u, s4)"
    using v w(1) r2(1) r4(1) uiomove_at_run [OF mv(1), of skip "disk s b"] mv(2) l rw
    by (simp add: partial_replace_def next_random_def bindP_def getP_def modP_def retP_def tryP_def sndP_def zoomP_def
        s0_def [symmetric] s1_def [symmetric] s3_def [symmetric] Let_def)
  moreover have "sfs_rcache s4 = sfs_rcache s3" using touched_sel(2) [OF r4(2)] by (simp add: same_rest_def)
  ultimately show ?thesis using ok3(4) by simp
qed

lemma blockio_read_disk:
  assumes "ready vn s" "us_offset u = int (n * SFS_BLOCKSIZE)" "n < SFS_NDIRECT + SFS_DBPERIDB"
    and "can_move SFS_BLOCKSIZE u" "us_rw u = UIO_READ" "fblock s vn n = b" "b \<noteq> 0"
  shows "wp (sfs_blockio vn) (\<lambda>r us. r = Inr () \<and> fst us = advance SFS_BLOCKSIZE (disk s b) u \<and> touched s (snd us)) (u, s)"
    (is "wp _ ?Q _")
proof -
  have ok: "fs_ok s" "file_ok s vn" "sp_nblocks (sfs_super s) \<le> 2 ^ 23" using assms(1) by (simp_all add: ready_def)
  have blk: "off_block (us_offset u) = n" using assms(2,3) off_block_eq [of n 0] by simp
  have "wp (sndP (sfs_bmap vn n False)) (\<lambda>r us. fst us = u \<and> bmap_result vn n False s r (snd us)) (u, s)"
    by (rule wp_sndI, rule wp_mono [OF bmap_spec [OF ok(1,2) assms(3)]]) simp
  then have "wp (bindP (sndP (sfs_bmap vn n False)) whole_block) ?Q (u, s)"
  proof (rule wp_call)
    fix x us assume "fst us = u \<and> bmap_result vn n False s (Inr x) (snd us)"
    then obtain s1 where us: "us = (u, s1)" and t: "touched s s1" and x: "x = fblock s1 vn n"
      by (cases us) (auto simp: bmap_result_def bmap_effect_def)
    note sel = touched_sel [OF t]
    have xb: "x = b" using x assms(6) sel by simp
    have s1: "fs_ok s1" using sel ok by simp
    have bb: "b < sp_nblocks (sfs_super s1)" using fblock_ok(2) [OF ok(2) assms(3)] assms(6,7) sel by simp
    let ?u = "u\<lparr>us_offset := 512 * int b, us_resid := SFS_BLOCKSIZE\<rparr>"
    obtain s' where s': "sfs_rwblock (?u, s1) = Some (Inr (), advance SFS_BLOCKSIZE (disk s1 b) ?u, s')" "touched s1 s'"
      using rwblock_read [OF s1 bb, of ?u] assms(4,5) by (auto simp: can_move_def)
    have "b * SFS_BLOCKSIZE mod 2 ^ 32 = b * SFS_BLOCKSIZE" using bb ok(3) sel by simp
    moreover have "touched s s'" using t s'(2) by (auto simp: touched_def)
    ultimately show "wp (whole_block x) ?Q us"
      unfolding us xb using whole_block_run [OF assms(7,4) _ s'(1), where Q = ?Q] sel by simp
  qed (simp add: bmap_result_def bmap_effect_def)
  then show ?thesis using blk assms(5) by (simp add: sfs_blockio_def wp_bind [of "getP _"] wp_get Let_def)
qed

section \<open>An example state\<close>

text \<open>A file of 600 bytes in the blocks 1 and 2, and a stream at byte 500.\<close>

definition sfs1 :: sfs_fs where
  "sfs1 = (sfs0 (lhd0 []))\<lparr>vnode_heap := (\<lambda>_. \<lparr>vn_refcount = 1, vn_opencount = 1, vn_ops = sfs_fileops,
     sv_i = \<lparr>sfi_size = 600, sfi_type = 1, sfi_linkcount = 1, sfi_direct = [1, 2] @ replicate 13 0, sfi_indirect = 0,
       sfi_waste = replicate 440 0\<rparr>, sv_ino = 9, sv_dirty = False\<rparr>)\<rparr>"

lemma sfs1_blocks: "blocks sfs1 vn = [1, 2] @ replicate 141 0"
proof -
  have "replicate 13 0 @ replicate 128 0 = replicate 141 (0::nat)" by (simp only: replicate_add [symmetric]) simp
  then show ?thesis by (simp add: sfs1_def blocks_def id_entries_def)
qed

lemma sfs1_fblock [simp]: "fblock sfs1 vn 0 = 1" "fblock sfs1 vn (Suc 0) = 2" "fblock sfs1 vn 1 = 2"
  by (simp_all add: fblock_def sfs1_blocks)

lemma sfs1_cache: "sfs_rcache sfs1 = replicate 64 \<lparr>cache = replicate 512 0, inode_no = -1, block_no = -1\<rparr>"
  by (simp add: sfs1_def sfs0_def)

lemma sfs1_ready: "ready vn sfs1"
proof -
  have "fs_ok sfs1" using sfs0_ok by (simp add: sfs1_def fs_ok_def)
  moreover have "owned sfs1 vn = [1, 2]"
    by (simp add: owned_def cells_def sfs1_blocks) (simp add: sfs1_def)
  then have "file_ok sfs1 vn"
    by (simp add: file_ok_def) (simp add: sfs1_def sfs0_used inode_wf_def, simp add: sfs0_def)
  moreover have "cache_ok sfs1" by (simp add: cache_ok_def sfs1_cache)
  ultimately show ?thesis by (simp add: ready_def) (simp add: sfs1_def sfs0_def)
qed

lemma sfs1_cached: "cached sfs1 ino b = None \<longleftrightarrow> \<not> slot_is ino b \<lparr>cache = replicate 512 0, inode_no = -1, block_no = -1\<rparr>"
  by (simp add: cached_def sfs1_cache find_None_iff)

lemma sfs1_ldata: "ldata sfs1 vn 0 = replicate 512 1" "ldata sfs1 vn 1 = replicate 512 2"
proof -
  have ino: "sv_ino (vnode_heap sfs1 vn) = 9" by (simp add: sfs1_def)
  have "cached sfs1 9 b = None" for b by (simp add: sfs1_cached slot_is_def to_s32_def)
  then show "ldata sfs1 vn 0 = replicate 512 1" "ldata sfs1 vn 1 = replicate 512 2"
    by (simp_all add: ldata_def ino) (simp_all add: sfs1_def)
qed

lemma sfs1_room: "io_room vn off k sfs1"
proof -
  have "uncached vn m sfs1" for m
    by (simp add: uncached_def sfs1_cached slot_is_def to_s32_def) (simp add: sfs1_def)
  moreover have "free_slots sfs1 = 64" by (simp add: free_slots_def sfs1_cache)
  ultimately show ?thesis by (simp add: io_room_def has_room_def)
qed

section \<open>Properties\<close>

text \<open>
  C2: Reading. With the stream at offset \<open>off\<close> of a file, \<open>sfs_io\<close> delivers exactly the bytes of
  the file from there to the end of the request or the end of the file, whichever is first,
  over any number of partial, whole and unallocated blocks; it leaves the rest of the request in
  the residual count, and changes neither the file nor any block in use elsewhere. This holds
  while the cache has a slot for each partial block and does not hold the whole blocks.
\<close>

theorem sfs_io_read_correct:
  assumes "ready vn s" "us_rw u = UIO_READ" "us_offset u = int off"
    and "sfi_size (sv_i (vnode_heap s vn)) = sz" "sz \<le> SFS_MAXFILE" "0 < us_resid u" "us_resid u < 2 ^ 32"
    and "k = min (us_resid u) (sz - off)" "can_move k u" "off < sz \<longrightarrow> io_room vn off k s"
  shows "\<exists>u' s'. sfs_io vn (u, s) = Some (Inr (), u', s') \<and>
    us_bytes u' = us_bytes u @ map (fbyte s vn) [off..<off + k] \<and>
    us_offset u' = int (off + k) \<and> us_resid u' = us_resid u - k \<and>
    (\<forall>i<SFS_MAXFILE. fbyte s' vn i = fbyte s vn i) \<and> file_step vn s s' \<and>
    meta (vnode_heap s' vn) = meta (vnode_heap s vn)"
proof -
  obtain u' s' where "sfs_io vn (u, s) = Some (Inr (), u', s')" "region_frame vn s s'" "xfer vn k u s u' s'"
    using io_read_spec [OF assms] by (auto simp: wp_def)
  then show ?thesis
    using assms(2,3) by (auto simp: xfer_def Let_def advance_def region_frame_def)
qed

theorem sfs_io_read_correct_witness:
  "\<exists>u' s'. sfs_io 0 (uio_kinit_s [] 200 500 UIO_READ, sfs1) = Some (Inr (), u', s') \<and>
     us_bytes u' = replicate 12 1 @ replicate 88 2 \<and> us_resid u' = 100"
proof -
  let ?u = "uio_kinit_s [] 200 500 UIO_READ"
  have sz: "sfi_size (sv_i (vnode_heap sfs1 0)) = 600" by (simp add: sfs1_def)
  have "map (fbyte sfs1 0) [500..<500 + 100] = replicate 12 1 @ replicate 88 2"
  proof (rule nth_equalityI)
    fix i assume "i < length (map (fbyte sfs1 0) [500..<500 + 100])"
    then have i: "i < 100" by simp
    have m: "map (fbyte sfs1 0) [500..<500 + 100] ! i = fbyte sfs1 0 (500 + i)"
      using i by (simp del: upt_rec_numeral)
    show "map (fbyte sfs1 0) [500..<500 + 100] ! i = (replicate 12 1 @ replicate 88 2) ! i"
    proof (cases "i < 12")
      case True
      then show ?thesis unfolding m using sfs1_ldata(1) [of 0] by (simp add: fbyte_def nth_append)
    next
      case False
      then have "(500 + i) div 512 = 1" using i by simp
      then show ?thesis unfolding m using sfs1_ldata(2) [of 0] False i by (simp add: fbyte_def nth_append)
    qed
  qed simp
  then show ?thesis
    using sfs_io_read_correct [OF sfs1_ready, of ?u 500 0 600 100] sz sfs1_room [of 0 500 100]
    by (auto simp: uio_kinit_s_def can_move_def simp del: upt_rec_numeral)
qed

definition separate :: "nat \<Rightarrow> nat \<Rightarrow> sfs_fs \<Rightarrow> bool" where
  "separate vn w s \<longleftrightarrow> w \<noteq> vn \<and> file_ok s w \<and> set (owned s w) \<inter> set (owned s vn) = {} \<and>
     sv_ino (vnode_heap s w) < 2 ^ 31 \<and> sv_ino (vnode_heap s w) \<noteq> sv_ino (vnode_heap s vn)"

text \<open>
  C1: Writing. \<open>sfs_io\<close> stores the bytes of the stream in the file at the stream's offset and
  nowhere else, grows the file to the end of what was written, and allocates missing blocks.
  The only error is \<open>ENOSPC\<close>, after a prefix has been written and the last free block of the
  volume is used. File system and file stay well
  formed, and every byte of every other file is unchanged.
\<close>

theorem sfs_io_write_correct:
  assumes "ready vn s" "us_rw u = UIO_WRITE" "us_offset u = int off" "us_resid u = k" "0 < k"
    and "off + k \<le> SFS_MAXFILE" "can_move k u" "io_room vn off k s"
  shows "\<exists>r u' s'. sfs_io vn (u, s) = Some (r, u', s') \<and> write_post vn k u s r (u', s') \<and>
    (\<forall>w. separate vn w s \<longrightarrow> (\<forall>i<SFS_MAXFILE. fbyte s' w i = fbyte s w i))"
proof -
  obtain r u' s' where io: "sfs_io vn (u, s) = Some (r, u', s')" and p: "write_post vn k u s r (u', s')"
    using io_write_spec [OF assms] by (auto simp: wp_def)
  have "fbyte s' w i = fbyte s w i" if w: "separate vn w s" and i: "i < SFS_MAXFILE" for w i
  proof -
    have "file_step vn s s'" "\<forall>ino<2 ^ 31. \<forall>b<2 ^ 32. ino \<noteq> sv_ino (vnode_heap s vn) \<longrightarrow> cached s' ino b = cached s ino b"
      using p by (auto simp: write_post_def)
    then have "ldata s' w (i div SFS_BLOCKSIZE) = ldata s w (i div SFS_BLOCKSIZE)"
      using other_ldata [of vn s s' w "i div SFS_BLOCKSIZE"] w i assms(1) by (simp add: separate_def ready_def)
    then show ?thesis by (simp add: fbyte_def)
  qed
  then show ?thesis using io p by blast
qed

theorem sfs_io_write_correct_witness:
  "\<exists>r u' s'. sfs_io 0 (uio_kinit_s [7, 8, 9] 3 510 UIO_WRITE, sfs1) = Some (r, u', s') \<and>
     write_post 0 3 (uio_kinit_s [7, 8, 9] 3 510 UIO_WRITE) sfs1 r (u', s')"
proof -
  have "can_move 3 (uio_kinit_s [7, 8, 9] 3 510 UIO_WRITE)" by (simp add: can_move_def uio_kinit_s_def)
  then show ?thesis
    using sfs_io_write_correct [OF sfs1_ready _ _ _ _ _ _ sfs1_room, of "uio_kinit_s [7, 8, 9] 3 510 UIO_WRITE" 510 3 0]
    by (auto simp: uio_kinit_s_def)
qed

text \<open>
  C37: The cache in front of partial blocks is not coherent with whole blocks: a whole block is
  read from the disk even when the cache holds a newer copy. So bytes written by a partial write
  are not seen by a read that covers the whole block.
\<close>

theorem sfs_io_reads_stale:
  assumes "ready vn s" "us_rw u = UIO_READ" "us_offset u = int (n * SFS_BLOCKSIZE)" "us_resid u = SFS_BLOCKSIZE"
    and "can_move SFS_BLOCKSIZE u" "n < SFS_NDIRECT + SFS_DBPERIDB" "(n + 1) * SFS_BLOCKSIZE \<le> sfi_size (sv_i (vnode_heap s vn))"
    and "fblock s vn n \<noteq> 0"
  shows "\<exists>u' s'. sfs_io vn (u, s) = Some (Inr (), u', s') \<and> us_bytes u' = us_bytes u @ disk s (fblock s vn n)"
proof -
  let ?b = "fblock s vn n"
  have len: "length (disk s ?b) = SFS_BLOCKSIZE"
    using assms(1) by (simp add: ready_def fs_ok_def dev_ok_def lhd_inv_def)
  have "wp (sfs_io_aligned vn) (\<lambda>r us. r = Inr () \<and> fst us = advance SFS_BLOCKSIZE (disk s ?b) u) (u, s)"
    using blockio_read_disk [OF assms(1,3,6,5,2) refl assms(8)] assms(3,4)
    by (auto simp: sfs_io_aligned_def wp_bind wp_get wp_assert wp_ret upt_rec advance_def elim!: wp_mono)
  then have "wp (tryP (sfs_io_blocks vn) (sfs_io_out vn 0))
      (\<lambda>r us. r = Inr () \<and> us_bytes (fst us) = us_bytes u @ disk s ?b) (u, s)"
    using assms(2-4) len
    by (auto simp: sfs_io_blocks_def wp_try wp_bind wp_get wp_ret sfs_io_out_def wp_mod advance_def elim!: wp_mono)
  then show ?thesis
    using assms(2-4,7) by (auto simp: sfs_io_def wp_def bindP_def getP_def retP_def)
qed

text \<open>The example file with its first block cached, every byte of it overwritten with 7.\<close>

definition sfs2 :: sfs_fs where
  "sfs2 = sfs1\<lparr>sfs_rcache := \<lparr>cache = replicate 512 7, inode_no = 9, block_no = 1\<rparr> # tl (sfs_rcache sfs1)\<rparr>"

lemma sfs2_ready: "ready vn sfs2"
proof -
  have sel: "sfs_device sfs2 = sfs_device sfs1" "sfs_freemap sfs2 = sfs_freemap sfs1" "sfs_super sfs2 = sfs_super sfs1"
    "vnode_heap sfs2 = vnode_heap sfs1" by (simp_all add: sfs2_def)
  have "1 \<in> used (sfs_freemap sfs1)" by (simp add: sfs1_def sfs0_used)
  then have "cache_ok sfs2"
    using sel by (auto simp: cache_ok_def sfs2_def sfs1_cache to_s32_def intro!: bexI [of _ 1])
  moreover have "fs_ok sfs2 = fs_ok sfs1" by (simp add: fs_ok_def sel)
  moreover have "file_ok sfs2 vn = file_ok sfs1 vn"
    by (simp add: file_ok_def owned_def cells_def blocks_def id_entries_def sel)
  ultimately show ?thesis using sfs1_ready [of vn] by (simp add: ready_def sel)
qed

theorem sfs_io_reads_stale_witness:
  "ldata sfs2 0 0 = replicate 512 7 \<and>
   (\<exists>u' s'. sfs_io 0 (uio_kinit_s [] 512 0 UIO_READ, sfs2) = Some (Inr (), u', s') \<and> us_bytes u' = replicate 512 1)"
proof -
  have fb: "fblock sfs2 0 0 = 1" 
    by (simp add: sfs2_def sfs1_def fblock_def blocks_def id_entries_def)
  have "ldata sfs2 0 0 = replicate 512 7"
    by (simp add: ldata_def fb) (simp add: cached_def sfs2_def sfs1_def slot_is_def to_s32_def)
  moreover have "sfi_size (sv_i (vnode_heap sfs2 0)) = 600" "disk sfs2 1 = replicate 512 1"
    by (simp_all add: sfs2_def sfs1_def)
  ultimately show ?thesis
    using sfs_io_reads_stale [OF sfs2_ready, of "uio_kinit_s [] 512 0 UIO_READ" 0 0] fb
    by (auto simp: uio_kinit_s_def can_move_def)
qed

text \<open>
  C36: When the cache is full, a read of a partial block that is not cached returns the right
  bytes but spoils another block: the victim is written back and its slot is overwritten with
  the block just read, while the slot keeps the tags of the victim. From then on the cache
  answers for the victim's block with the contents of the other one.
\<close>

theorem sfs_cache_replacement_corrupts:
  assumes "ready vn s" "us_rw u = UIO_READ" "us_offset u = int (n * SFS_BLOCKSIZE + skip)" "skip < SFS_BLOCKSIZE"
    and "skip + len \<le> SFS_BLOCKSIZE" "can_move len u" "n < SFS_NDIRECT + SFS_DBPERIDB" "fblock s vn n = b" "b \<noteq> 0"
    and "\<forall>c\<in>set (sfs_rcache s). \<not> slot_is (sv_ino (vnode_heap s vn)) b c \<and> inode_no c \<noteq> -1"
    and "env_random s = r # rs" "slot_is ino' b' (sfs_rcache s ! (r mod BUFFER_SIZE))"
    and "\<forall>j<r mod BUFFER_SIZE. \<not> slot_is ino' b' (sfs_rcache s ! j)" "b' < sp_nblocks (sfs_super s)" "b' \<noteq> b"
  shows "\<exists>u' s'. sfs_partialio vn skip len (u, s) = Some (Inr (), u', s') \<and>
    us_bytes u' = us_bytes u @ take len (drop skip (disk s b)) \<and> cached s' ino' b' = Some (disk s b)"
proof -
  let ?i = "r mod BUFFER_SIZE"
  have ok: "fs_ok s" "file_ok s vn" "cache_ok s" using assms(1) by (simp_all add: ready_def)
  have blk: "off_block (us_offset u) = n" using assms(3,4,7) off_block_eq [of n skip] by simp
  have b: "b < sp_nblocks (sfs_super s)" using fblock_ok(2) [OF ok(2) assms(7)] assms(8,9) by simp
  have il: "?i < length (sfs_rcache s)" using ok(3) by (simp add: cache_ok_def)
  have b': "to_u32 (block_no (sfs_rcache s ! ?i)) = b'"
    using assms(12,14) fs_okD(6) [OF ok(1)] by (simp add: slot_is_def)
  have lc: "length (cache (sfs_rcache s ! ?i)) = SFS_BLOCKSIZE" using ok(3) il by (simp add: cache_ok_def)
  obtain q s1 where "sfs_bmap vn n False s = Some (q, s1)" "bmap_result vn n False s q s1"
    using bmap_spec [OF ok(1,2) assms(7), of False] by (auto simp: wp_def)
  then have m: "sfs_bmap vn n False s = Some (Inr b, s1)" "touched s s1"
    using assms(8) touched_sel(10) [of s s1] by (cases q; auto simp: bmap_result_def bmap_effect_def)+
  note sel = touched_sel [OF m(2)]
  have rc: "sfs_rcache s1 = sfs_rcache s" "env_random s1 = env_random s" using sel(2) by (simp_all add: same_rest_def)
  obtain s' where s': "partial_replace skip len b (u, s1) = Some (Inr (), advance len (drop skip (disk s1 b)) u, s')"
    "sfs_rcache s' = (sfs_rcache s)[?i := (sfs_rcache s ! ?i)\<lparr>cache := disk s1 b\<rparr>]"
    using replace_run [of s1 b u r rs "sfs_rcache s ! ?i" len skip] sel ok(1) b assms(2,5,6,11,14,15) rc lc b' by auto
  have "cache_scan (sfs_rcache s1) 0 (to_s32 (sv_ino (vnode_heap s1 vn))) (to_s32 b) None = Inr None"
    using cache_scan_full [OF assms(10)] sel rc by simp
  then have "sfs_partialio vn skip len (u, s) = Some (Inr (), advance len (drop skip (disk s b)) u, s')"
    using s'(1) m(1) blk assms(2,5,9) sel
    by (simp add: sfs_partialio_def partial_block_def bindP_def getP_def assertP_def retP_def sndP_def zoomP_def)
  moreover have "slot_is ino' b' ((sfs_rcache s ! ?i)\<lparr>cache := disk s1 b\<rparr>)"
    using assms(12) by (simp add: slot_is_def)
  then have "cached s' ino' b' = Some (disk s b)"
    using s'(2) find_update_first [OF il assms(13)] sel(1) by (simp add: cached_def)
  ultimately show ?thesis using assms(2) by (simp add: advance_def)
qed

text \<open>A cache that holds 64 blocks of other files.\<close>

definition sfs3 :: sfs_fs where
  "sfs3 = sfs1\<lparr>sfs_rcache := map (\<lambda>i. \<lparr>cache = replicate 512 (of_nat i), inode_no = 40 + int i, block_no = 2\<rparr>) [0..<64],
     env_random := [70]\<rparr>"

lemma sfs3_ready: "ready vn sfs3"
proof -
  have sel: "sfs_device sfs3 = sfs_device sfs1" "sfs_freemap sfs3 = sfs_freemap sfs1" "sfs_super sfs3 = sfs_super sfs1"
    "vnode_heap sfs3 = vnode_heap sfs1" by (simp_all add: sfs3_def)
  have "2 \<in> used (sfs_freemap sfs1)" by (simp add: sfs1_def sfs0_used)
  then have "cache_ok sfs3"
    using sel by (auto simp: cache_ok_def sfs3_def to_s32_def simp del: upt_rec_numeral intro!: bexI [of _ 2])
  moreover have "fs_ok sfs3 = fs_ok sfs1" by (simp add: fs_ok_def sel)
  moreover have "file_ok sfs3 vn = file_ok sfs1 vn"
    by (simp add: file_ok_def owned_def cells_def blocks_def id_entries_def sel)
  ultimately show ?thesis using sfs1_ready [of vn] by (simp add: ready_def sel)
qed

theorem sfs_cache_replacement_corrupts_witness:
  "cached sfs3 46 2 = Some (replicate 512 6) \<and>
   (\<exists>u' s'. sfs_partialio 0 0 4 (uio_kinit_s [] 4 0 UIO_READ, sfs3) = Some (Inr (), u', s') \<and>
      us_bytes u' = [1, 1, 1, 1] \<and> cached s' 46 2 = Some (replicate 512 1))"
proof -
  have fb: "fblock sfs3 0 0 = 1" 
    by (simp add: sfs3_def sfs1_def fblock_def blocks_def id_entries_def)
  have nth: "i < 64 \<Longrightarrow> sfs_rcache sfs3 ! i = \<lparr>cache = replicate 512 (of_nat i), inode_no = 40 + int i, block_no = 2\<rparr>" for i
    by (simp add: sfs3_def del: upt_rec_numeral)
  have full: "\<forall>c\<in>set (sfs_rcache sfs3). \<not> slot_is 9 1 c \<and> inode_no c \<noteq> -1"
    by (auto simp: sfs3_def slot_is_def to_s32_def simp del: upt_rec_numeral)
  have ino: "sv_ino (vnode_heap sfs3 0) = 9" "sp_nblocks (sfs_super sfs3) = 100" "disk sfs3 1 = replicate 512 1" "env_random sfs3 = [70]"
    by (simp_all add: sfs3_def sfs1_def, simp add: sfs0_def)
  have first: "slot_is 46 2 (sfs_rcache sfs3 ! 6)" "\<forall>j<6. \<not> slot_is 46 2 (sfs_rcache sfs3 ! j)"
    by (simp_all add: nth slot_is_def to_s32_def)
  have l: "length (sfs_rcache sfs3) = 64" by (simp add: sfs3_def del: upt_rec_numeral)
  have "List.find (slot_is 46 2) (sfs_rcache sfs3) = Some (sfs_rcache sfs3 ! 6)"
    using first l by (auto simp: find_Some_iff intro!: exI [of _ 6])
  then have "cached sfs3 46 2 = Some (replicate 512 6)" by (simp add: cached_def nth)
  moreover have "take 4 (drop 0 (replicate 512 (1::8 word))) = [1, 1, 1, 1]"
    by (simp add: eval_nat_numeral)
  ultimately show ?thesis
    using sfs_cache_replacement_corrupts [OF sfs3_ready, of "uio_kinit_s [] 4 0 UIO_READ" 0 0 4 0 1 70 "[]" 46 2]
      fb full ino first by (auto simp: uio_kinit_s_def can_move_def)
qed

end
