(* ===== verification/Libc_String.thy ===== *)
theory Libc_String
  imports Copyinout
begin

text \<open>
  The string and memory functions shared by kernel and user programs, \<open>src/common/libc\<close>:
  \<open>strlen\<close>, \<open>strcpy\<close>, \<open>strcat\<close>, \<open>strcmp\<close>, \<open>strchr\<close>, \<open>strrchr\<close>, \<open>strtok_r\<close>, \<open>atoi\<close>,
  \<open>memcpy\<close>, \<open>memmove\<close>, \<open>bzero\<close>.

  The string functions work on arrays, lists of bytes that contain a terminating zero; \<open>cstr\<close> is
  the string at the start of an array. Running past the end of an array is \<open>None\<close>. The memory
  functions work on memory by address.
\<close>

definition cstr :: "8 word list \<Rightarrow> 8 word list" where
  "cstr bs = takeWhile (\<lambda>b. b \<noteq> 0) bs"

section \<open>Strings\<close>

fun strlen :: "8 word list \<Rightarrow> nat option" where
  "strlen [] = None"
| "strlen (c # cs) = (if c \<noteq> 0 then map_option Suc (strlen cs) else Some 0)"

fun strcpy :: "8 word list \<Rightarrow> 8 word list \<Rightarrow> 8 word list option" where
  "strcpy (d # dest) (c # src) = (if c \<noteq> 0 then map_option (Cons c) (strcpy dest src) else Some (0 # dest))"
| "strcpy _ _ = None"

definition strcat :: "8 word list \<Rightarrow> 8 word list \<Rightarrow> 8 word list option" where
  "strcat dest src = do {
     offset \<leftarrow> strlen dest;
     tail \<leftarrow> strcpy (drop offset dest) src;
     Some (take offset dest @ tail)
   }"

fun strcmp :: "8 word list \<Rightarrow> 8 word list \<Rightarrow> int option" where
  "strcmp (a # as) (b # bs) =
     (if a \<noteq> 0 \<and> a = b then strcmp as bs
      else if a > b then Some 1 else if a = b then Some 0 else Some (-1))"
| "strcmp _ _ = None"

text \<open>A search returns the index of the character, \<open>Some None\<close> is the null pointer.\<close>

fun strchr :: "8 word list \<Rightarrow> 8 word \<Rightarrow> nat option option" where
  "strchr [] ch = None"
| "strchr (c # cs) ch =
     (if c \<noteq> 0 then (if c = ch then Some (Some 0) else map_option (map_option Suc) (strchr cs ch))
      else if c = ch then Some (Some 0) else Some None)"

fun rscan :: "8 word list \<Rightarrow> 8 word \<Rightarrow> nat \<Rightarrow> nat option" where
  "rscan s ch 0 = None"
| "rscan s ch (Suc i) = (if s ! i = ch then Some i else rscan s ch i)"

definition strrchr :: "8 word list \<Rightarrow> 8 word \<Rightarrow> nat option option" where
  "strrchr s ch = do { n \<leftarrow> strlen s; Some (rscan s ch (n + 1)) }"

section \<open>Tokens\<close>

text \<open>
  \<open>while (*head && strchr(seps, *head)) head++\<close> and the loop over the word: the first index from
  \<open>i\<close> on where the test fails. \<open>seps\<close> is the string of separators.
\<close>

function skip_while :: "(8 word \<Rightarrow> bool) \<Rightarrow> 8 word list \<Rightarrow> nat \<Rightarrow> nat option" where
  "skip_while P s i =
     (case aget s i of
        None \<Rightarrow> None
      | Some c \<Rightarrow> if c \<noteq> 0 \<and> P c then skip_while P s (i + 1) else Some i)"
  by pat_completeness auto
termination
  by (relation "measure (\<lambda>(P, s, i). length s - i)") (auto simp: aget_Some)

declare skip_while.simps [simp del]

definition is_sep :: "8 word list \<Rightarrow> 8 word \<Rightarrow> bool" where
  "is_sep seps c \<longleftrightarrow> strchr (seps @ [0]) c \<noteq> Some None"

text \<open>
  The string, the argument and the context are positions in one array. The result is the position
  of the word, the array with the word's terminator written, and the new context.
\<close>

definition strtok_r :: "8 word list \<Rightarrow> 8 word list \<Rightarrow> nat option \<Rightarrow> nat option \<Rightarrow>
    (nat option \<times> 8 word list \<times> nat option) option" where
  "strtok_r seps s string context =
     (let context = (if string \<noteq> None then string else context) in
      case context of
        None \<Rightarrow> Some (None, s, context)
      | Some h \<Rightarrow> do {
          head \<leftarrow> skip_while (is_sep seps) s h;
          c \<leftarrow> aget s head;
          if c = 0 then Some (None, s, None)
          else do {
            tail \<leftarrow> skip_while (\<lambda>c. \<not> is_sep seps c) s head;
            t \<leftarrow> aget s tail;
            if t = 0 then Some (Some head, s, None)
            else Some (Some head, s[tail := 0], Some (tail + 1))
          }
        })"

section \<open>Numbers\<close>

fun atoi_digits :: "8 word list \<Rightarrow> 32 word \<Rightarrow> 32 word option" where
  "atoi_digits [] val = None"
| "atoi_digits (c # cs) val =
     (if c = 0 then Some val
      else
        (case strchr (map of_nat [48..<58] @ [0]) c of
           None \<Rightarrow> None
         | Some None \<Rightarrow> Some val
         | Some (Some digit) \<Rightarrow> atoi_digits cs (val * 10 + of_nat digit)))"

definition atoi :: "8 word list \<Rightarrow> int option" where
  "atoi s = do {
     i \<leftarrow> skip_while (\<lambda>c. c = 32 \<or> c = 9) s 0;
     c \<leftarrow> aget s i;
     let neg = (c = 45);
     val \<leftarrow> atoi_digits (drop (if c = 45 \<or> c = 43 then i + 1 else i) s) 0;
     Some (sint (if neg then - val else val))
   }"

section \<open>Memory\<close>

text \<open>\<open>d[i] = s[i]\<close> for elements of \<open>k\<close> bytes at the addresses \<open>d\<close> and \<open>s\<close>.\<close>

definition move_unit :: "nat \<Rightarrow> addr \<Rightarrow> addr \<Rightarrow> memory \<Rightarrow> memory" where
  "move_unit k d s m = (\<lambda>a. if d \<le> a \<and> a < d + k then m (s + (a - d)) else m a)"

abbreviation (input) sizeof_long :: nat where "sizeof_long \<equiv> 4"

fun copy_up :: "nat \<Rightarrow> addr \<Rightarrow> addr \<Rightarrow> nat list \<Rightarrow> memory \<Rightarrow> memory" where
  "copy_up k d s [] m = m"
| "copy_up k d s (i # is) m = copy_up k d s is (move_unit k (d + k * i) (s + k * i) m)"

definition memcpy :: "addr \<Rightarrow> addr \<Rightarrow> nat \<Rightarrow> memory \<Rightarrow> memory" where
  "memcpy dst src len m =
     (if dst mod sizeof_long = 0 \<and> src mod sizeof_long = 0 \<and> len mod sizeof_long = 0
      then copy_up sizeof_long dst src [0..<len div sizeof_long] m
      else copy_up 1 dst src [0..<len] m)"

fun copy_down :: "nat \<Rightarrow> addr \<Rightarrow> addr \<Rightarrow> nat \<Rightarrow> memory \<Rightarrow> memory" where
  "copy_down k d s 0 m = m"
| "copy_down k d s (Suc i) m = copy_down k d s i (move_unit k (d + k * i) (s + k * i) m)"

definition memmove :: "addr \<Rightarrow> addr \<Rightarrow> nat \<Rightarrow> memory \<Rightarrow> memory" where
  "memmove dst src len m =
     (if dst < src then memcpy dst src len m
      else if dst mod sizeof_long = 0 \<and> src mod sizeof_long = 0 \<and> len mod sizeof_long = 0
      then copy_down sizeof_long dst src (len div sizeof_long) m
      else copy_down 1 dst src len m)"

definition zero_unit :: "nat \<Rightarrow> addr \<Rightarrow> memory \<Rightarrow> memory" where
  "zero_unit k d m = (\<lambda>a. if d \<le> a \<and> a < d + k then 0 else m a)"

fun zero_up :: "nat \<Rightarrow> addr \<Rightarrow> nat list \<Rightarrow> memory \<Rightarrow> memory" where
  "zero_up k d [] m = m"
| "zero_up k d (i # is) m = zero_up k d is (zero_unit k (d + k * i) m)"

definition bzero :: "addr \<Rightarrow> nat \<Rightarrow> memory \<Rightarrow> memory" where
  "bzero block len m =
     (if block mod sizeof_long = 0 \<and> len mod sizeof_long = 0
      then zero_up sizeof_long block [0..<len div sizeof_long] m
      else zero_up 1 block [0..<len] m)"

section \<open>Correctness of the string functions\<close>

lemma strlen_cstr: "0 \<in> set s \<Longrightarrow> strlen s = Some (length (cstr s))"
  by (induction s) (auto simp: cstr_def)

lemma strlen_None: "strlen s = None \<longleftrightarrow> 0 \<notin> set s"
  by (induction s) auto

lemma strcpy_spec:
  assumes "0 \<in> set src" "length (cstr src) < length dest"
  shows "strcpy dest src = Some (cstr src @ 0 # drop (length (cstr src) + 1) dest)"
  using assms
proof (induction dest src rule: strcpy.induct)
  case (1 d dest c src)
  then show ?case by (auto simp: cstr_def)
qed (auto simp: cstr_def)

lemma cstr_append [simp]: "0 \<notin> set s \<Longrightarrow> cstr (s @ 0 # t) = s"
  by (induction s) (auto simp: cstr_def)

lemma cstr_nonzero [simp]: "0 \<notin> set (cstr s)"
  by (induction s) (auto simp: cstr_def)

lemma cstr_split: "0 \<in> set s \<Longrightarrow> s = cstr s @ 0 # drop (length (cstr s) + 1) s"
  by (induction s) (auto simp: cstr_def)

lemma strcat_spec:
  assumes "0 \<in> set dest" "0 \<in> set src" "length (cstr dest) + length (cstr src) < length dest"
  shows "\<exists>dest'. strcat dest src = Some dest' \<and> cstr dest' = cstr dest @ cstr src \<and> 0 \<in> set dest' \<and>
    length dest' = length dest"
proof -
  let ?n = "length (cstr dest)"
  have "take ?n dest = cstr dest" by (metis append_eq_conv_conj cstr_split assms(1))
  then show ?thesis
    using strlen_cstr [OF assms(1)] strcpy_spec [OF assms(2), of "drop ?n dest"] assms(3)
      cstr_append [of "cstr dest @ cstr src"]
    by (auto simp: strcat_def)
qed

lemma strcmp_eq:
  assumes "0 \<in> set a" "0 \<in> set b"
  shows "\<exists>r. strcmp a b = Some r \<and> (r = 0 \<longleftrightarrow> cstr a = cstr b)"
  using assms
proof (induction a b rule: strcmp.induct)
  case (1 a as b bs)
  then show ?case by (auto simp: cstr_def)
qed auto

lemma is_sep_iff: "c \<noteq> 0 \<Longrightarrow> 0 \<notin> set seps \<Longrightarrow> is_sep seps c \<longleftrightarrow> c \<in> set seps"
  unfolding is_sep_def by (induction seps) auto

section \<open>Copying and clearing\<close>

lemma move_copied:
  assumes "d \<le> s \<or> s + n \<le> d" "k * i + k \<le> n"
  shows "move_unit k (d + k * i) (s + k * i) (copied m d s (k * i)) = copied m d s (k * i + k)"
proof
  fix a
  show "move_unit k (d + k * i) (s + k * i) (copied m d s (k * i)) a = copied m d s (k * i + k) a"
  proof (cases "d + k * i \<le> a \<and> a < d + k * i + k")
    case True
    define x where "x = s + k * i + (a - (d + k * i))"
    have x: "x = s + (a - d)" using True by (simp add: x_def)
    have "move_unit k (d + k * i) (s + k * i) (copied m d s (k * i)) a = copied m d s (k * i) x"
      using True by (simp add: move_unit_def x_def)
    also have "\<not> (d \<le> x \<and> x < d + k * i)" using True assms unfolding x by auto
    then have "copied m d s (k * i) x = m x" by (auto simp: copied_def)
    finally show ?thesis using True by (simp add: copied_def x)
  qed (auto simp: move_unit_def copied_def)
qed

lemma copy_up_spec:
  assumes "d \<le> s \<or> s + k * n \<le> d"
  shows "copy_up k d s [0..<n] m = copied m d s (k * n)"
proof -
  have "i \<le> n \<Longrightarrow> copy_up k d s [i..<n] (copied m d s (k * i)) = copied m d s (k * n)" for i
  proof (induction "n - i" arbitrary: i)
    case (Suc l)
    then have "k * Suc i \<le> k * n" by (intro mult_le_mono2) simp
    then have "copy_up k d s [i..<n] (copied m d s (k * i)) = copy_up k d s [Suc i..<n] (copied m d s (k * Suc i))"
      using move_copied [OF assms, of k i m] Suc by (simp add: upt_conv_Cons algebra_simps)
    then show ?case using Suc.hyps(1) [of "Suc i"] Suc.hyps(2) by simp
  qed simp
  moreover have "copied m d s 0 = m" by (auto simp: copied_def fun_eq_iff)
  ultimately show ?thesis by (metis mult_0_right zero_le)
qed

lemma memcpy_spec:
  assumes "dst \<le> src \<or> src + len \<le> dst"
  shows "memcpy dst src len m = copied m dst src len"
proof (cases "dst mod 4 = 0 \<and> src mod 4 = 0 \<and> len mod 4 = 0")
  case True
  then have "4 * (len div 4) = len" by auto
  then show ?thesis using True assms copy_up_spec [of dst src 4 "len div 4" m] by (simp add: memcpy_def)
next
  case False
  then show ?thesis using assms copy_up_spec [of dst src 1 len m] by (auto simp: memcpy_def)
qed

text \<open>The state of a backward copy once the elements from \<open>i\<close> on are done.\<close>

definition copied_from :: "memory \<Rightarrow> addr \<Rightarrow> addr \<Rightarrow> nat \<Rightarrow> nat \<Rightarrow> memory" where
  "copied_from m d s i n = (\<lambda>a. if d + i \<le> a \<and> a < d + n then m (s + (a - d)) else m a)"

lemma move_copied_from:
  assumes "s \<le> d" "k * i + k \<le> n"
  shows "move_unit k (d + k * i) (s + k * i) (copied_from m d s (k * i + k) n) = copied_from m d s (k * i) n"
proof
  fix a
  show "move_unit k (d + k * i) (s + k * i) (copied_from m d s (k * i + k) n) a = copied_from m d s (k * i) n a"
  proof (cases "d + k * i \<le> a \<and> a < d + k * i + k")
    case True
    define x where "x = s + k * i + (a - (d + k * i))"
    have x: "x = s + (a - d)" using True by (simp add: x_def)
    have "move_unit k (d + k * i) (s + k * i) (copied_from m d s (k * i + k) n) a = copied_from m d s (k * i + k) n x"
      using True by (simp add: move_unit_def x_def)
    also have "\<not> d + (k * i + k) \<le> x" using True assms(1) unfolding x by auto
    then have "copied_from m d s (k * i + k) n x = m x" by (simp add: copied_from_def)
    finally show ?thesis using True assms(2) by (simp add: copied_from_def x)
  qed (auto simp: move_unit_def copied_from_def)
qed

lemma copy_down_spec:
  assumes "s \<le> d"
  shows "copy_down k d s n m = copied m d s (k * n)"
proof -
  have "i \<le> n \<Longrightarrow> copy_down k d s i (copied_from m d s (k * i) (k * n)) = copied_from m d s 0 (k * n)" for i
  proof (induction i)
    case (Suc i)
    then have "k * Suc i \<le> k * n" by (intro mult_le_mono2) simp
    then show ?case
      using move_copied_from [OF assms, of k i "k * n" m] Suc by (simp add: algebra_simps)
  qed simp
  moreover have "copied_from m d s (k * n) (k * n) = m" "copied_from m d s 0 (k * n) = copied m d s (k * n)"
    by (auto simp: copied_from_def copied_def fun_eq_iff)
  ultimately show ?thesis by (metis order_refl)
qed

lemma zero_up_spec: "zero_up k d [0..<n] m = (\<lambda>a. if d \<le> a \<and> a < d + k * n then 0 else m a)"
proof -
  let ?z = "\<lambda>i a. if d \<le> a \<and> a < d + k * i then 0 else m a"
  have all: "i \<le> n \<Longrightarrow> zero_up k d [i..<n] (?z i) = ?z n" for i
  proof (induction "n - i" arbitrary: i)
    case (Suc l)
    have "zero_unit k (d + k * i) (?z i) = ?z (Suc i)" by (auto simp: zero_unit_def fun_eq_iff)
    then show ?case using Suc.hyps(1) [of "Suc i"] Suc.hyps(2) by (simp add: upt_conv_Cons)
  qed simp
  have z0: "?z 0 = m" by (auto simp: fun_eq_iff)
  show ?thesis using all [of 0] unfolding z0 by simp
qed

section \<open>Splitting a string into words\<close>

lemma skip_while_run:
  "\<lbrakk>\<And>c. c \<in> set a \<Longrightarrow> c \<noteq> 0 \<and> P c; x = 0 \<or> \<not> P x\<rbrakk> \<Longrightarrow>
     skip_while P (pre @ a @ x # rest) (length pre) = Some (length pre + length a)"
proof (induction a arbitrary: pre)
  case Nil
  then show ?case by (subst skip_while.simps) (auto simp: aget_def)
next
  case (Cons c a)
  have "skip_while P (pre @ (c # a) @ x # rest) (length pre) = skip_while P ((pre @ [c]) @ a @ x # rest) (length (pre @ [c]))"
    using Cons.prems(1) [of c] by (subst skip_while.simps) (simp add: aget_def)
  then show ?case using Cons.IH [of "pre @ [c]"] Cons.prems by simp
qed

text \<open>The reference: the maximal words without separators, from left to right.\<close>

function words :: "('a \<Rightarrow> bool) \<Rightarrow> 'a list \<Rightarrow> 'a list list" where
  "words P xs = (case dropWhile P xs of
     [] \<Rightarrow> []
   | y # ys \<Rightarrow> (y # takeWhile (\<lambda>c. \<not> P c) ys) # words P (dropWhile (\<lambda>c. \<not> P c) ys))"
  by pat_completeness auto
termination
proof (relation "measure (\<lambda>(P, xs). length xs)", goal_cases)
  case (2 P xs y ys)
  have "length (dropWhile (\<lambda>c. \<not> P c) ys) \<le> length ys" by (rule length_dropWhile_le)
  also have "\<dots> < length (dropWhile P xs)" using 2 by simp
  also have "\<dots> \<le> length xs" by (rule length_dropWhile_le)
  finally show ?case by simp
qed simp

declare words.simps [simp del]

text \<open>The loop of a caller that asks for one word after the other, at most \<open>n\<close> of them.\<close>

fun tokens :: "nat \<Rightarrow> 8 word list \<Rightarrow> 8 word list \<Rightarrow> nat option \<Rightarrow> nat option \<Rightarrow> 8 word list list option" where
  "tokens 0 seps s string context = Some []"
| "tokens (Suc n) seps s string context = do {
     (word, s, context) \<leftarrow> strtok_r seps s string context;
     (case word of
        None \<Rightarrow> Some []
      | Some h \<Rightarrow> map_option (Cons (cstr (drop h s))) (tokens n seps s None context))
   }"

lemma words_sep: "P c \<Longrightarrow> words P (c # xs) = words P xs"
  by (subst (1 2) words.simps) simp

text \<open>One call, by what is left of the string: separators only, a last word, a word before a separator.\<close>

lemma strtok_none:
  assumes "\<forall>c\<in>set a. c \<noteq> 0 \<and> is_sep seps c"
  shows "strtok_r seps (pre @ a @ 0 # rest) None (Some (length pre)) = Some (None, pre @ a @ 0 # rest, None)"
  using skip_while_run [of a "is_sep seps" 0 pre rest] assms by (simp add: strtok_r_def aget_def nth_append)

lemma strtok_word:
  assumes a: "\<forall>c\<in>set a. c \<noteq> 0 \<and> is_sep seps c" and w: "\<forall>c\<in>set w. c \<noteq> 0 \<and> \<not> is_sep seps c" "w \<noteq> []"
    and c: "c = 0 \<or> is_sep seps c"
  shows "strtok_r seps (pre @ a @ w @ c # rest) None (Some (length pre)) =
    Some (Some (length (pre @ a)), pre @ a @ w @ 0 # rest,
      if c = 0 then None else Some (length (pre @ a @ w @ [0])))"
proof -
  obtain y ys where y: "w = y # ys" "y \<noteq> 0" "\<not> is_sep seps y" using w by (cases w) auto
  have "skip_while (is_sep seps) (pre @ a @ w @ c # rest) (length pre) = Some (length (pre @ a))"
    using skip_while_run [of a "is_sep seps" y pre "ys @ c # rest"] a y by simp
  moreover have "skip_while (\<lambda>c. \<not> is_sep seps c) (pre @ a @ w @ c # rest) (length (pre @ a)) = Some (length (pre @ a @ w))"
    using skip_while_run [of w "\<lambda>c. \<not> is_sep seps c" c "pre @ a" rest] w c by simp
  moreover have "aget (pre @ a @ w @ c # rest) (length (pre @ a)) = Some y"
    using nth_append_length [of "pre @ a" y "ys @ c # rest"] by (simp add: aget_def y)
  moreover have "aget (pre @ a @ w @ c # rest) (length (pre @ a @ w)) = Some c"
    using nth_append_length [of "pre @ a @ w" c rest] by (simp add: aget_def)
  moreover have "(pre @ a @ w @ c # rest)[length (pre @ a @ w) := 0] = pre @ a @ w @ 0 # rest"
    using list_update_length [of "pre @ a @ w" c rest 0] by simp
  ultimately show ?thesis using y by (simp add: strtok_r_def)
qed

lemma tokens_spec:
  assumes "0 \<notin> set seps" "0 \<notin> set r" "length r < n"
  shows "tokens n seps (pre @ r @ 0 # rest) None (Some (length pre)) = Some (words (\<lambda>c. c \<in> set seps) r)"
  using assms
proof (induction n arbitrary: pre r)
  case (Suc n)
  let ?P = "\<lambda>c. c \<in> set seps" and ?s = "pre @ r @ 0 # rest"
  have sep: "is_sep seps c \<longleftrightarrow> ?P c" if "c \<in> set r" for c
    using is_sep_iff [OF _ Suc.prems(1), of c] that Suc.prems(2) by metis
  define a where "a = takeWhile ?P r"
  have a: "\<forall>c\<in>set a. c \<noteq> 0 \<and> is_sep seps c" using sep Suc.prems(2) by (auto simp: a_def dest: set_takeWhileD)
  show ?case
  proof (cases "dropWhile ?P r")
    case Nil
    then have "r = a" unfolding a_def by (metis append.right_neutral takeWhile_dropWhile_id)
    then have "strtok_r seps ?s None (Some (length pre)) = Some (None, ?s, None)" using strtok_none [OF a] by simp
    moreover have "words ?P r = []" by (subst words.simps) (simp only: Nil list.case)
    ultimately show ?thesis by simp
  next
    case (Cons y ys)
    define w d where "w = y # takeWhile (\<lambda>c. \<not> ?P c) ys" and "d = dropWhile (\<lambda>c. \<not> ?P c) ys"
    have r: "r = a @ w @ d"
      unfolding a_def w_def d_def by (metis Cons append_Cons takeWhile_dropWhile_id)
    have "set (y # ys) \<subseteq> set r" using Cons set_dropWhileD [of _ ?P r] by auto
    moreover have "\<not> ?P y" using Cons by (metis dropWhile_eq_Cons_conv)
    ultimately have w: "\<forall>c\<in>set w. c \<noteq> 0 \<and> \<not> is_sep seps c" "w \<noteq> []"
      using sep Suc.prems(2) by (auto simp: w_def dest: set_takeWhileD)
    have wr: "words ?P r = w # words ?P d"
      by (subst words.simps) (simp only: Cons list.case w_def d_def)
    have cw: "cstr (drop (length (pre @ a)) (pre @ a @ w @ 0 # x)) = w" for x
      using w cstr_append [of w x] by auto
    show ?thesis
    proof (cases d)
      case Nil
      then have "strtok_r seps ?s None (Some (length pre)) = Some (Some (length (pre @ a)), ?s, None)"
        using strtok_word [OF a w, of 0 pre rest] r by simp
      moreover have "tokens n seps ?s None None = Some []" by (cases n) (simp_all add: strtok_r_def)
      ultimately show ?thesis using Nil wr cw [of rest] r by (simp add: words.simps)
    next
      case (Cons c zs)
      have c: "?P c" using Cons unfolding d_def by (metis dropWhile_eq_Cons_conv)
      then have "c \<noteq> 0" using Suc.prems(1) by auto
      let ?s' = "pre @ a @ w @ 0 # zs @ 0 # rest"
      have "c \<in> set r" using r Cons by simp
      then have st: "strtok_r seps ?s None (Some (length pre)) =
          Some (Some (length (pre @ a)), ?s', Some (length (pre @ a @ w @ [0])))"
        using strtok_word [OF a w, of c pre "zs @ 0 # rest"] r Cons sep c \<open>c \<noteq> 0\<close> by simp
      have "length zs < n" "0 \<notin> set zs" using r Cons Suc.prems(2,3) by simp_all
      then have "tokens n seps ?s' None (Some (length (pre @ a @ w @ [0]))) = Some (words ?P zs)"
        using Suc.IH [OF Suc.prems(1), of zs "pre @ a @ w @ [0]"] by simp
      then show ?thesis using st wr Cons words_sep [of ?P c zs] c cw [of "zs @ 0 # rest"] by simp
    qed
  qed
qed simp

section \<open>Properties\<close>

text \<open>
  C12: \<open>memmove\<close> is the simultaneous copy: whatever the overlap and the alignment of the two
  regions, and whether it copies words or bytes, upwards or downwards, the destination ends up
  with the bytes the source had before, and no other byte changes.
\<close>
theorem memmove_correct: "memmove dst src len m = copied m dst src len"
proof (cases "dst < src")
  case True
  then show ?thesis using memcpy_spec [of dst src len m] by (simp add: memmove_def)
next
  case False
  then have le: "src \<le> dst" by simp
  show ?thesis
  proof (cases "dst mod 4 = 0 \<and> src mod 4 = 0 \<and> len mod 4 = 0")
    case True
    then have "4 * (len div 4) = len" by auto
    then show ?thesis using True False copy_down_spec [OF le, of 4 "len div 4" m] by (simp add: memmove_def)
  next
    case nal: False
    then show ?thesis using False copy_down_spec [OF le, of 1 len m] by (auto simp: memmove_def)
  qed
qed

text \<open>
  C30: Calling \<open>strtok_r\<close> until it returns null, with the string first and null afterwards, yields
  exactly the maximal words without separators, in order; as many calls as the string has bytes
  are enough.
\<close>
theorem strtok_r_words:
  assumes "0 \<notin> set seps" "0 \<in> set s"
  shows "tokens (length s) seps s (Some 0) None = Some (words (\<lambda>c. c \<in> set seps) (cstr s))"
proof -
  have s: "s = [] @ cstr s @ 0 # drop (length (cstr s) + 1) s" using cstr_split [OF assms(2)] by simp
  have "length (cstr s) < length s" using arg_cong [OF s, of length] by simp
  then have "tokens (length s) seps s None (Some 0) = Some (words (\<lambda>c. c \<in> set seps) (cstr s))"
    using tokens_spec [OF assms(1) cstr_nonzero, of s "length s" "[]" "drop (length (cstr s) + 1) s"] s by simp
  moreover have "strtok_r seps s (Some 0) None = strtok_r seps s None (Some 0)" by (simp add: strtok_r_def)
  ultimately show ?thesis by (cases "length s") simp_all
qed

theorem strtok_r_words_witness:
  "tokens 8 [32] [32, 97, 98, 32, 32, 99, 0, 7] (Some 0) None = Some [[97, 98], [99]]"
proof -
  have "words (\<lambda>c. c = 32) [32, 97, 98, 32, 32, 99 :: 8 word] = [[97, 98], [99]]" by (simp add: words.simps)
  moreover have n: "(8 :: nat) = Suc (Suc (Suc (Suc (Suc (Suc (Suc (Suc 0)))))))" by simp
  ultimately show ?thesis
    unfolding n using strtok_r_words [of "[32]" "[32, 97, 98, 32, 32, 99, 0, 7]"] by (simp add: cstr_def del: tokens.simps)
qed

end
