(* ===== verification/Sfs_Dir.thy ===== *)
theory Sfs_Dir
  imports Sfs_Io Libc_String
begin

text \<open>
  Directories of the Simple File System, \<open>kern/fs/sfs/sfs_vnode.c\<close>: reading and writing entries by
  slot, searching for a name, linking and unlinking.

  A name is the list of its bytes without the terminating zero. \<open>sfs_dir_findname\<close> reports the
  entry and an empty slot through pointers; here it returns both, and \<open>None\<close> for the entry is
  its return value \<open>ENOENT\<close>.

  \<open>dents\<close> is the specification view of a directory, the list of its entries.
\<close>

section \<open>Operations\<close>

abbreviation (input) DIRENT_SIZE :: nat where "DIRENT_SIZE \<equiv> 64"

type_synonym name = bytes

text \<open>The name of an entry, with the last byte taken as the terminator.\<close>

definition entry_name :: "sfs_dir \<Rightarrow> name" where
  "entry_name sd = cstr ((sfd_name sd)[SFS_NAMELEN - 1 := 0])"

definition sfs_readdir :: "nat \<Rightarrow> nat \<Rightarrow> (sfs_fs, sfs_dir) proc" where
  "sfs_readdir vn slot =
     bindP (localP (uio_kinit_s [] DIRENT_SIZE (int (wrap32 (slot * DIRENT_SIZE))) UIO_READ) (sfs_io vn)) (\<lambda>(_, ku).
     if us_resid ku > 0 then panicP else retP (dec_dir (us_bytes ku)))"

definition sfs_writedir :: "nat \<Rightarrow> sfs_dir \<Rightarrow> nat \<Rightarrow> (sfs_fs, unit) proc" where
  "sfs_writedir vn sd slot =
     bindP (localP (uio_kinit_s (enc_dir sd) DIRENT_SIZE (int (wrap32 (slot * DIRENT_SIZE))) UIO_WRITE) (sfs_io vn))
       (\<lambda>(_, ku). if us_resid ku > 0 then panicP else retP ())"

definition sfs_dir_nentries :: "nat \<Rightarrow> (sfs_fs, nat) proc" where
  "sfs_dir_nentries vn =
     bindP (getP (\<lambda>s. sv_i (vnode_heap s vn))) (\<lambda>i.
     bindP (assertP (sfi_type i = SFS_TYPE_DIR)) (\<lambda>_.
     if sfi_size i mod DIRENT_SIZE \<noteq> 0 then panicP else retP (sfi_size i div DIRENT_SIZE)))"

text \<open>The loop of \<open>sfs_dir_findname\<close>: the slots to go, the entry found and the last empty slot.\<close>

fun dir_scan :: "nat \<Rightarrow> name \<Rightarrow> nat list \<Rightarrow> (nat \<times> nat) option \<Rightarrow> nat option \<Rightarrow>
    (sfs_fs, (nat \<times> nat) option \<times> nat option) proc" where
  "dir_scan vn name [] found emptyslot = retP (found, emptyslot)"
| "dir_scan vn name (i # is) found emptyslot =
     bindP (sfs_readdir vn i) (\<lambda>tsd.
     if sfd_ino tsd = SFS_NOINO then dir_scan vn name is found (Some i)
     else if entry_name tsd = name then
       bindP (assertP (found = None)) (\<lambda>_. dir_scan vn name is (Some (sfd_ino tsd, i)) emptyslot)
     else dir_scan vn name is found emptyslot)"

definition sfs_dir_findname :: "nat \<Rightarrow> name \<Rightarrow> (sfs_fs, (nat \<times> nat) option \<times> nat option) proc" where
  "sfs_dir_findname vn name =
     bindP (sfs_dir_nentries vn) (\<lambda>nentries. dir_scan vn name [0..<nentries] None None)"

definition mk_dirent :: "nat \<Rightarrow> name \<Rightarrow> sfs_dir" where
  "mk_dirent ino name = \<lparr>sfd_ino = ino, sfd_name = name @ replicate (SFS_NAMELEN - length name) 0\<rparr>"

definition sfs_dir_link :: "nat \<Rightarrow> name \<Rightarrow> nat \<Rightarrow> (sfs_fs, nat) proc" where
  "sfs_dir_link vn name ino =
     bindP (sfs_dir_findname vn name) (\<lambda>(found, emptyslot).
     if found \<noteq> None then throwP EEXIST
     else if length name + 1 > SFS_NAMELEN then throwP ENAMETOOLONG
     else
       bindP (case emptyslot of Some e \<Rightarrow> retP e | None \<Rightarrow> sfs_dir_nentries vn) (\<lambda>slot.
       bindP (sfs_writedir vn (mk_dirent ino name) slot) (\<lambda>_. retP slot)))"

definition sfs_dir_unlink :: "nat \<Rightarrow> nat \<Rightarrow> (sfs_fs, unit) proc" where
  "sfs_dir_unlink vn slot = sfs_writedir vn (mk_dirent SFS_NOINO []) slot"

section \<open>The directory as a list of entries\<close>

definition dent :: "sfs_fs \<Rightarrow> nat \<Rightarrow> nat \<Rightarrow> sfs_dir" where
  "dent s vn i = dec_dir (map (fbyte s vn) [DIRENT_SIZE * i..<DIRENT_SIZE * i + DIRENT_SIZE])"

definition nentries :: "sfs_fs \<Rightarrow> nat \<Rightarrow> nat" where
  "nentries s vn = sfi_size (sv_i (vnode_heap s vn)) div DIRENT_SIZE"

definition dents :: "sfs_fs \<Rightarrow> nat \<Rightarrow> sfs_dir list" where
  "dents s vn = map (dent s vn) [0..<nentries s vn]"

text \<open>Searching, storing and removing a name in a list of entries.\<close>

definition is_hit :: "sfs_dir list \<Rightarrow> name \<Rightarrow> nat \<Rightarrow> bool" where
  "is_hit ds name i \<longleftrightarrow> sfd_ino (ds ! i) \<noteq> SFS_NOINO \<and> entry_name (ds ! i) = name"

definition is_free :: "sfs_dir list \<Rightarrow> nat \<Rightarrow> bool" where
  "is_free ds i \<longleftrightarrow> sfd_ino (ds ! i) = SFS_NOINO"

definition hits :: "sfs_dir list \<Rightarrow> name \<Rightarrow> nat list" where
  "hits ds name = filter (is_hit ds name) [0..<length ds]"

definition dir_lookup :: "sfs_dir list \<Rightarrow> name \<Rightarrow> (nat \<times> nat) option" where
  "dir_lookup ds name = (case hits ds name of [] \<Rightarrow> None | i # _ \<Rightarrow> Some (sfd_ino (ds ! i), i))"

definition frees :: "sfs_dir list \<Rightarrow> nat list" where
  "frees ds = filter (is_free ds) [0..<length ds]"

definition last_free :: "sfs_dir list \<Rightarrow> nat option" where
  "last_free ds = (if frees ds = [] then None else Some (last (frees ds)))"

definition unique_names :: "sfs_dir list \<Rightarrow> bool" where
  "unique_names ds \<longleftrightarrow> (\<forall>i<length ds. length (hits ds (entry_name (ds ! i))) \<le> 1)"

definition dir_put :: "sfs_dir list \<Rightarrow> nat \<Rightarrow> sfs_dir \<Rightarrow> sfs_dir list" where
  "dir_put ds slot sd = (if slot < length ds then ds[slot := sd] else ds @ [sd])"

section \<open>One entry\<close>

text \<open>An entry lies inside a block, so its transfer is one partial transfer.\<close>

definition single_post :: "nat \<Rightarrow> nat \<Rightarrow> nat \<Rightarrow> nat \<Rightarrow> ustream \<Rightarrow> sfs_fs \<Rightarrow> errno + unit \<Rightarrow> ustream \<times> sfs_fs \<Rightarrow> bool" where
  "single_post vn n skip k u s r us \<longleftrightarrow> io_post vn k u s r us \<and> part_post vn n skip k u s r us \<and>
     (r = Inr () \<longrightarrow> slot_use vn n s (snd us))"

lemma single_blocks:
  assumes rd: "ready vn s" and off: "us_offset u = int (n * SFS_BLOCKSIZE + skip)" and n: "n < SFS_NDIRECT + SFS_DBPERIDB"
    and k: "us_resid u = k" "0 < k" "k < SFS_BLOCKSIZE" "skip + k \<le> SFS_BLOCKSIZE" and mv: "can_move k u"
    and room: "has_room vn n s"
  shows "wp (sfs_io_blocks vn) (single_post vn n skip k u s) (u, s)"
proof -
  have sk: "skip < SFS_BLOCKSIZE" using k by simp
  have bo: "nat (us_offset u mod 512) = skip" using off sk by (simp add: nat_mod_as_int)
  have io: "wp (sfs_partialio vn skip k) (single_post vn n skip k u s) (u, s)"
    by (rule wp_mono [OF partial_step [OF rd off n sk k(4,2) mv room]]) (simp add: single_post_def)
  show ?thesis
  proof (cases "skip = 0")
    case True
    then show ?thesis
      using bo k off io
      by (simp add: sfs_io_blocks_def sfs_io_aligned_def wp_bind wp_get wp_ret wp_assert)
  next
    case False
    have len: "(if SFS_BLOCKSIZE - skip > us_resid u then us_resid u else SFS_BLOCKSIZE - skip) = k" using k by auto
    have "wp (bindP (sfs_partialio vn skip k) (\<lambda>_. sfs_io_aligned vn)) (single_post vn n skip k u s) (u, s)"
    proof (rule wp_call [OF io])
      fix x us assume p: "single_post vn n skip k u s (Inr x) us"
      then have "us_resid (fst us) = 0"
        using xfer_stream(2) [of vn k u s "fst us" "snd us"] k(1) by (simp add: single_post_def io_post_def)
      then show "wp (sfs_io_aligned vn) (single_post vn n skip k u s) us"
        using p by (simp add: sfs_io_aligned_def wp_bind wp_get wp_ret)
    qed
    then show ?thesis
      using False by (simp only: sfs_io_blocks_def wp_bind [of "getP _"] wp_get Let_def fst_conv bo sum.case simp_thms if_True len)
  qed
qed

lemma slot_block:
  assumes "64 * i + 64 \<le> SFS_MAXFILE"
  shows "i div 8 < SFS_NDIRECT + SFS_DBPERIDB" "64 * i = (i div 8) * SFS_BLOCKSIZE + i mod 8 * 64"
    "i mod 8 * 64 + 64 \<le> SFS_BLOCKSIZE"
proof -
  have im: "i = 8 * (i div 8) + i mod 8" "i mod 8 < 8" by simp_all
  show "64 * i = (i div 8) * SFS_BLOCKSIZE + i mod 8 * 64" using im(1) by linarith
  show "i mod 8 * 64 + 64 \<le> SFS_BLOCKSIZE" using im(2) by linarith
  show "i div 8 < SFS_NDIRECT + SFS_DBPERIDB" using assms by simp
qed

text \<open>Reading leaves the contents of the directory, and of everything else, as they are.\<close>

definition quiet :: "nat \<Rightarrow> nat \<Rightarrow> sfs_fs \<Rightarrow> sfs_fs \<Rightarrow> bool" where
  "quiet vn n s s' \<longleftrightarrow> io_frame vn n s s' \<and> slot_use vn n s s' \<and> same_space vn s s' \<and>
     (\<forall>i<SFS_MAXFILE. fbyte s' vn i = fbyte s vn i)"

lemma readdir_spec:
  assumes rd: "ready vn s" and i: "64 * i + 64 \<le> sfi_size (sv_i (vnode_heap s vn))"
    and sz: "sfi_size (sv_i (vnode_heap s vn)) \<le> SFS_MAXFILE" and room: "has_room vn (i div 8) s"
  shows "wp (sfs_readdir vn i) (\<lambda>r s'. r = Inr (dent s vn i) \<and> quiet vn (i div 8) s s') s"
proof -
  let ?u = "uio_kinit_s [] 64 (int (64 * i)) UIO_READ" and ?n = "i div 8"
  have mx: "64 * i + 64 \<le> SFS_MAXFILE" using i sz by simp
  note sb = slot_block [OF mx]
  have mv: "can_move 64 ?u" by (simp add: can_move_def uio_kinit_s_def)
  have "wp (sfs_io_blocks vn) (single_post vn ?n (i mod 8 * 64) 64 ?u s) (?u, s)"
    by (rule single_blocks [OF rd _ sb(1) _ _ _ sb(3) mv room]) (use sb(2) in \<open>simp_all add: uio_kinit_s_def\<close>)
  then have "wp (tryP (sfs_io_blocks vn) (sfs_io_out vn 0))
     (\<lambda>r us. r = Inr () \<and> xfer vn 64 ?u s (fst us) (snd us) \<and> quiet vn ?n s (snd us)) (?u, s)"
  proof (rule wp_call_try)
    fix r us assume p: "single_post vn ?n (i mod 8 * 64) 64 ?u s r us"
    obtain u1 s1 where us: "us = (u1, s1)" by (cases us)
    have r: "r = Inr ()" and x: "xfer vn 64 ?u s u1 s1"
      using p by (auto simp: single_post_def io_post_def us uio_kinit_s_def split: sum.splits)
    have u1: "us_rw u1 = UIO_READ" "us_resid u1 < 2 ^ 32" using xfer_stream(2,3) [OF x] by (simp_all add: uio_kinit_s_def)
    have "quiet vn ?n s s1" using p r x by (simp add: quiet_def single_post_def part_post_def us xfer_def Let_def uio_kinit_s_def)
    then show "wp (sfs_io_out vn 0 r) (\<lambda>r us. r = Inr () \<and> xfer vn 64 ?u s (fst us) (snd us) \<and> quiet vn ?n s (snd us)) us"
      using r us u1 x by (simp add: sfs_io_out_def wp_simps)
  qed
  then have "wp (sfs_io vn) (\<lambda>r us. r = Inr () \<and> xfer vn 64 ?u s (fst us) (snd us) \<and> quiet vn ?n s (snd us)) (?u, s)"
    using i by (simp add: sfs_io_def wp_bind wp_get wp_ret Let_def uio_kinit_s_def)
  moreover have w: "wrap32 (i * DIRENT_SIZE) = 64 * i" using mx by simp
  ultimately show ?thesis
    unfolding sfs_readdir_def wp_bind wp_local w
    by (elim wp_mono) (auto simp: xfer_def Let_def nat_mult_distrib advance_def uio_kinit_s_def dent_def wp_ret)
qed

text \<open>The effect of writing the entry \<open>sd\<close> in slot \<open>i\<close>.\<close>

definition set_size :: "nat \<Rightarrow> nat \<Rightarrow> sfs_fs \<Rightarrow> sfs_fs" where
  "set_size vn n s = (if sfi_size (sv_i (vnode_heap s vn)) < n then upd_inode vn (\<lambda>i. i\<lparr>sfi_size := n\<rparr>) s else s)"

definition wrote :: "nat \<Rightarrow> nat \<Rightarrow> sfs_dir \<Rightarrow> sfs_fs \<Rightarrow> sfs_fs \<Rightarrow> bool" where
  "wrote vn i sd s s' \<longleftrightarrow>
     space_for vn (i div 8) s \<and>
     (\<exists>s1. io_frame vn (i div 8) s s1 \<and> slot_use vn (i div 8) s s1 \<and> fblock s1 vn (i div 8) \<noteq> 0 \<and>
        (\<forall>j<SFS_MAXFILE. fbyte s1 vn j =
           (if 64 * i \<le> j \<and> j < 64 * i + 64 then enc_dir sd ! (j - 64 * i) else fbyte s vn j)) \<and>
        s' = set_size vn (64 * i + 64) s1)"

definition write_failed :: "nat \<Rightarrow> nat \<Rightarrow> sfs_fs \<Rightarrow> sfs_fs \<Rightarrow> bool" where
  "write_failed vn i s s' \<longleftrightarrow> fblock s vn (i div 8) = 0 \<and> \<not> space_for vn (i div 8) s \<and> io_frame vn (i div 8) s s' \<and>
     (\<forall>j<SFS_MAXFILE. fbyte s' vn j = fbyte s vn j)"

lemma writedir_spec:
  assumes rd: "ready vn s" and i: "64 * i \<le> sfi_size (sv_i (vnode_heap s vn))" "64 * i + 64 \<le> SFS_MAXFILE"
    and room: "has_room vn (i div 8) s" and sd: "length (sfd_name sd) = SFS_NAMELEN"
  shows "wp (sfs_writedir vn sd i)
    (\<lambda>r s'. case r of Inr _ \<Rightarrow> wrote vn i sd s s' | Inl e \<Rightarrow> e = ENOSPC \<and> write_failed vn i s s') s"
proof -
  let ?u = "uio_kinit_s (enc_dir sd) 64 (int (64 * i)) UIO_WRITE" and ?n = "i div 8" and ?k = "i mod 8 * 64"
  let ?P = "\<lambda>r us. case r of Inr _ \<Rightarrow> us_resid (fst us) = 0 \<and> wrote vn i sd s (snd us)
    | Inl e \<Rightarrow> e = ENOSPC \<and> write_failed vn i s (snd us)"
  note sb = slot_block [OF i(2)]
  have len: "length (enc_dir sd) = 64" using sd by (simp add: enc_dir_def)
  have u: "us_offset ?u = 64 * int i" "us_resid ?u = 64" "us_rw ?u = UIO_WRITE" "us_bytes ?u = enc_dir sd" "us_good ?u = 64"
    using len by (simp_all add: uio_kinit_s_def)
  have mv: "can_move 64 ?u" using u len by (simp add: can_move_def)
  have "wp (sfs_io_blocks vn) (single_post vn ?n ?k 64 ?u s) (?u, s)"
    by (rule single_blocks [OF rd _ sb(1) _ _ _ sb(3) mv room]) (use sb(2) u in simp_all)
  then have "wp (tryP (sfs_io_blocks vn) (sfs_io_out vn 0)) ?P (?u, s)"
  proof (rule wp_call_try)
    fix r us assume p: "single_post vn ?n ?k 64 ?u s r us"
    obtain u1 s1 where us: "us = (u1, s1)" by (cases us)
    have fr: "io_frame vn ?n s s1" using p by (simp add: single_post_def part_post_def us)
    then have sz: "sfi_size (sv_i (vnode_heap s1 vn)) = sfi_size (sv_i (vnode_heap s vn))"
      by (simp add: io_frame_def meta_def)
    show "wp (sfs_io_out vn 0 r) ?P us"
    proof (cases r)
      case (Inl e)
      then have e: "e = ENOSPC" "u1 = ?u" "fblock s vn ?n = 0" "\<not> space_for vn ?n s"
        "\<forall>m<SFS_NDIRECT + SFS_DBPERIDB. ldata s1 vn m = ldata s vn m"
        using p by (auto simp: single_post_def part_post_def us)
      then have "write_failed vn i s s1" using fr by (simp add: write_failed_def fbyte_def)
      moreover have "\<not> int (sfi_size (sv_i (vnode_heap s vn))) < 64 * int i" using i(1) by linarith
      ultimately show ?thesis
        using Inl us e u sz by (simp add: sfs_io_out_def wp_simps)
    next
      case (Inr x)
      then have x: "xfer vn 64 ?u s u1 s1" and su: "slot_use vn ?n s s1"
        and nz: "space_for vn ?n s" "fblock s1 vn ?n \<noteq> 0"
        using p by (auto simp: single_post_def part_post_def io_post_def us uio_kinit_s_def)
      have u1: "us_offset u1 = int (64 * i + 64)" "us_resid u1 = 0" "us_rw u1 = UIO_WRITE"
        using xfer_stream(1-3) [OF x] u by simp_all
      have eff: "fbyte s1 vn j = (if 64 * i \<le> j \<and> j < 64 * i + 64 then enc_dir sd ! (j - 64 * i) else fbyte s vn j)"
        if "j < SFS_MAXFILE" for j
        using x that u by (simp add: xfer_def Let_def nat_mult_distrib)
      have "wrote vn i sd s (set_size vn (64 * i + 64) s1)"
        unfolding wrote_def using fr su nz eff by blast
      moreover have "to_u32 (int (64 * i + 64)) = 64 * i + 64" using i(2) by (simp add: to_u32_def mod_pos_pos_trivial)
      moreover have "int (sfi_size (sv_i (vnode_heap s vn))) < 64 * int i + 64 \<longleftrightarrow>
          sfi_size (sv_i (vnode_heap s vn)) < 64 * i + 64" by linarith
      ultimately show ?thesis
        using Inr us u1 sz by (simp add: sfs_io_out_def wp_simps set_size_def split: if_splits)
    qed
  qed
  then have "wp (sfs_io vn) ?P (?u, s)"
    using u by (simp add: sfs_io_def wp_bind wp_get wp_ret Let_def)
  moreover have w: "wrap32 (i * DIRENT_SIZE) = 64 * i" using i(2) by simp
  ultimately show ?thesis
    unfolding sfs_writedir_def wp_bind wp_local w
    by (elim wp_mono) (auto simp: wp_ret split: sum.splits)
qed

section \<open>Well-formed directories\<close>

text \<open>A directory has no holes and a whole number of entries.\<close>

definition dblocks :: "nat \<Rightarrow> sfs_fs \<Rightarrow> nat" where
  "dblocks vn s = (nentries s vn + 7) div 8"

definition dir_ok :: "nat \<Rightarrow> sfs_fs \<Rightarrow> bool" where
  "dir_ok vn s \<longleftrightarrow> ready vn s \<and> sfi_type (sv_i (vnode_heap s vn)) = SFS_TYPE_DIR \<and>
     sfi_size (sv_i (vnode_heap s vn)) = 64 * nentries s vn \<and> 64 * nentries s vn \<le> SFS_MAXFILE \<and>
     (\<forall>m<dblocks vn s. fblock s vn m \<noteq> 0)"

text \<open>Enough free slots for the blocks of the directory that are not cached, and \<open>k\<close> to spare.\<close>

definition dir_room :: "nat \<Rightarrow> nat \<Rightarrow> sfs_fs \<Rightarrow> bool" where
  "dir_room k vn s \<longleftrightarrow> card {m \<in> {..<dblocks vn s}. \<not> warm vn m s} + k \<le> free_slots s"

lemma dir_room_has:
  assumes "dir_room k vn s" "n < dblocks vn s \<or> 0 < k"
  shows "has_room vn n s"
proof (cases "warm vn n s")
  case False
  then have "n < dblocks vn s \<Longrightarrow> {m \<in> {..<dblocks vn s}. \<not> warm vn m s} \<noteq> {}" by auto
  then have "0 < card {m \<in> {..<dblocks vn s}. \<not> warm vn m s} + k" using assms(2) by (auto simp: card_gt_0_iff)
  then have "0 < free_slots s" using assms(1) unfolding dir_room_def by linarith
  then show ?thesis by (simp add: has_room_def)
qed (auto simp: warm_def has_room_def)

lemma warm_frame:
  assumes fr: "io_frame vn n s s'" and m: "m < SFS_NDIRECT + SFS_DBPERIDB" "m \<noteq> n" and n: "n < SFS_NDIRECT + SFS_DBPERIDB"
    and ino: "sv_ino (vnode_heap s vn) < 2 ^ 31"
  shows "warm vn m s' \<longleftrightarrow> warm vn m s"
proof (cases "fblock s vn m = 0")
  case True
  then show ?thesis using io_frame_fblock [OF fr m(1)] m(2) by (simp add: warm_def)
next
  case False
  have s': "fs_ok s'" "file_ok s' vn" "sv_ino (vnode_heap s' vn) = sv_ino (vnode_heap s vn)"
    using fr by (simp_all add: io_frame_def file_step_def meta_def)
  have fb: "fblock s' vn m = fblock s vn m" using io_frame_fblock [OF fr m(1)] m(2) by simp
  moreover have "fblock s' vn m \<noteq> fblock s' vn n" using fblock_inj [OF s'(2) n m(1)] m(2) False fb by metis
  moreover have "fblock s' vn m < 2 ^ 32" by (rule fblock_bound [OF s'(1,2) m(1)])
  ultimately show ?thesis using fr ino s'(3) by (simp add: warm_def io_frame_def)
qed

text \<open>Working on one block keeps the room: the block that takes a slot is cached afterwards.\<close>

lemma room_step:
  assumes fr: "io_frame vn n s s'" and su: "slot_use vn n s s'" and nz: "fblock s' vn n \<noteq> 0"
    and N: "N \<le> N'" "N' \<le> SFS_NDIRECT + SFS_DBPERIDB" "n < N'" "N' = N \<or> N' = Suc n \<and> n = N \<and> 0 < k"
    and ino: "sv_ino (vnode_heap s vn) < 2 ^ 31" and room: "card {m \<in> {..<N}. \<not> warm vn m s} + k \<le> free_slots s"
  shows "card {m \<in> {..<N'}. \<not> warm vn m s'} + (if N' = N then k else k - 1) \<le> free_slots s'"
proof -
  have fr': "free_slots s \<le> Suc (free_slots s')" using fr by (simp add: io_frame_def)
  have w: "warm vn n s'" using su nz by (simp add: slot_use_def)
  have sub: "{m \<in> {..<N'}. \<not> warm vn m s'} \<subseteq> {m \<in> {..<N}. \<not> warm vn m s} - {n}"
  proof
    fix m assume "m \<in> {m \<in> {..<N'}. \<not> warm vn m s'}"
    then have m: "m < N'" "\<not> warm vn m s'" "m \<noteq> n" using w by auto
    moreover have "m < N" using m N(4) by auto
    ultimately show "m \<in> {m \<in> {..<N}. \<not> warm vn m s} - {n}"
      using warm_frame [OF fr _ m(3) _ ino] N by auto
  qed
  have fin: "finite {m \<in> {..<N}. \<not> warm vn m s}" by simp
  show ?thesis
  proof (cases "warm vn n s")
    case True
    then have "free_slots s' = free_slots s" using su by (simp add: slot_use_def)
    moreover have "card {m \<in> {..<N'}. \<not> warm vn m s'} \<le> card {m \<in> {..<N}. \<not> warm vn m s}"
      using card_mono [OF fin] sub by blast
    ultimately show ?thesis using room by auto
  next
    case False
    have c: "card {m \<in> {..<N'}. \<not> warm vn m s'} \<le> card ({m \<in> {..<N}. \<not> warm vn m s} - {n})"
      using card_mono [OF _ sub] fin by blast
    show ?thesis
    proof (cases "n < N")
      case True
      then have "n \<in> {m \<in> {..<N}. \<not> warm vn m s}" using False by simp
      then have "card ({m \<in> {..<N}. \<not> warm vn m s} - {n}) < card {m \<in> {..<N}. \<not> warm vn m s}"
        by (rule card_Diff1_less [OF fin])
      then show ?thesis using c room fr' by auto
    next
      case False
      then have "{m \<in> {..<N}. \<not> warm vn m s} - {n} = {m \<in> {..<N}. \<not> warm vn m s}" by auto
      then show ?thesis using c room fr' N False by auto
    qed
  qed
qed

text \<open>Looking at a directory.\<close>

definition looked :: "nat \<Rightarrow> nat \<Rightarrow> sfs_fs \<Rightarrow> sfs_fs \<Rightarrow> bool" where
  "looked k vn s s' \<longleftrightarrow> region_frame vn s s' \<and> dir_ok vn s' \<and> dir_room k vn s' \<and> nentries s' vn = nentries s vn \<and>
     dents s' vn = dents s vn \<and> same_space vn s s'"

lemma looked_refl: "dir_ok vn s \<Longrightarrow> dir_room k vn s \<Longrightarrow> looked k vn s s"
  using file_step_refl [of s vn] by (simp add: looked_def region_frame_def dir_ok_def ready_def)

lemma looked_trans: "looked k vn s s1 \<Longrightarrow> looked k vn s1 s2 \<Longrightarrow> looked k vn s s2"
  using region_frame_trans [of vn s s1 s2] same_space_trans [of vn s s1 s2] by (simp add: looked_def)

lemma dent_cong:
  "(\<And>j. 64 * i \<le> j \<Longrightarrow> j < 64 * i + 64 \<Longrightarrow> fbyte s' vn j = fbyte s vn j) \<Longrightarrow> dent s' vn i = dent s vn i"
  unfolding dent_def by (intro arg_cong [of _ _ dec_dir] map_cong) auto

lemma dblocks_bound:
  assumes "dir_ok vn s"
  shows "dblocks vn s \<le> SFS_NDIRECT + SFS_DBPERIDB" "i < nentries s vn \<Longrightarrow> i div 8 < dblocks vn s"
    "i < nentries s vn \<Longrightarrow> 64 * i + 64 \<le> SFS_MAXFILE"
proof -
  have "nentries s vn \<le> 1144" using assms by (simp add: dir_ok_def)
  then have "(nentries s vn + 7) div 8 \<le> (1144 + 7) div 8" by (intro div_le_mono) simp
  then show "dblocks vn s \<le> SFS_NDIRECT + SFS_DBPERIDB" by (simp add: dblocks_def)
  show "i < nentries s vn \<Longrightarrow> i div 8 < dblocks vn s" by (simp add: dblocks_def)
  show "i < nentries s vn \<Longrightarrow> 64 * i + 64 \<le> SFS_MAXFILE" using assms by (simp add: dir_ok_def)
qed

lemma quiet_looked:
  assumes d: "dir_ok vn s" and room: "dir_room k vn s" and q: "quiet vn n s s'" and n: "n < dblocks vn s"
  shows "looked k vn s s'"
proof -
  have fr: "io_frame vn n s s'" and su: "slot_use vn n s s'" using q by (simp_all add: quiet_def)
  have rd: "ready vn s" using d by (simp add: dir_ok_def)
  note rf = io_frame_region [OF fr]
  have sz: "sfi_size (sv_i (vnode_heap s' vn)) = sfi_size (sv_i (vnode_heap s vn))"
    "sfi_type (sv_i (vnode_heap s' vn)) = sfi_type (sv_i (vnode_heap s vn))"
    using fr by (simp_all add: io_frame_def meta_def)
  have ne: "nentries s' vn = nentries s vn" "dblocks vn s' = dblocks vn s" by (simp_all add: nentries_def dblocks_def sz)
  have fb: "fblock s' vn m = fblock s vn m" if "m < dblocks vn s" for m
    using io_frame_fblock [OF fr] that d dblocks_bound(1) [OF d] by (simp add: dir_ok_def)
  have "dir_ok vn s'" using d ready_frame [OF rd rf] ne sz fb by (simp add: dir_ok_def)
  moreover have "dir_room k vn s'"
    unfolding dir_room_def ne
    using room_step [OF fr su _ order_refl dblocks_bound(1) [OF d] n, of k] fb [OF n] d n rd room
    by (simp add: dir_ok_def ready_def dir_room_def)
  moreover have "dent s' vn i = dent s vn i" if "i < nentries s vn" for i
    by (rule dent_cong) (use q that dblocks_bound(3) [OF d that] in \<open>simp add: quiet_def\<close>)
  then have "dents s' vn = dents s vn" by (simp add: dents_def ne)
  ultimately show ?thesis using rf ne q by (simp add: looked_def quiet_def)
qed

lemma dents_nth [simp]: "i < nentries s vn \<Longrightarrow> dents s vn ! i = dent s vn i" "length (dents s vn) = nentries s vn"
  by (simp_all add: dents_def)

lemma readdir_looked:
  assumes "dir_ok vn s" "dir_room k vn s" "i < nentries s vn"
  shows "wp (sfs_readdir vn i) (\<lambda>r s'. r = Inr (dents s vn ! i) \<and> looked k vn s s') s"
proof -
  have i: "i div 8 < dblocks vn s" by (rule dblocks_bound(2) [OF assms(1,3)])
  show ?thesis
  proof (rule wp_mono [OF readdir_spec])
    show "ready vn s" "64 * i + 64 \<le> sfi_size (sv_i (vnode_heap s vn))" "sfi_size (sv_i (vnode_heap s vn)) \<le> SFS_MAXFILE"
      using assms by (simp_all add: dir_ok_def)
    show "has_room vn (i div 8) s" using dir_room_has [OF assms(2)] i by simp
    show "r = Inr (dents s vn ! i) \<and> looked k vn s s'" if "r = Inr (dent s vn i) \<and> quiet vn (i div 8) s s'" for r s'
      using that quiet_looked [OF assms(1,2) _ i] assms(3) by simp
  qed
qed

text \<open>The scan as a function on the list of entries.\<close>

definition pick :: "('a \<Rightarrow> 'b) \<Rightarrow> 'a list \<Rightarrow> 'b option \<Rightarrow> 'b option" where
  "pick f is z = (if is = [] then z else Some (f (last is)))"

lemma pick_simps [simp]: "pick f [] z = z" "pick f (x # xs) z = pick f xs (Some (f x))"
  by (simp_all add: pick_def)

lemma dir_scan_spec:
  assumes "dir_ok vn s" "dir_room k vn s" "set is \<subseteq> {..<nentries s vn}"
    and "length (filter (is_hit (dents s vn) name) is) \<le> (if found = None then 1 else 0)"
  shows "wp (dir_scan vn name is found e) (\<lambda>r s'. r = Inr
      (pick (\<lambda>i. (sfd_ino (dents s vn ! i), i)) (filter (is_hit (dents s vn) name) is) found,
       pick (\<lambda>i. i) (filter (is_free (dents s vn)) is) e) \<and> looked k vn s s') s"
  using assms
proof (induction "is" arbitrary: s found e)
  case Nil
  then show ?case by (simp add: wp_ret looked_refl)
next
  case (Cons i "is")
  let ?ds = "dents s vn"
  have i: "i < nentries s vn" using Cons.prems(3) by simp
  show ?case
    unfolding dir_scan.simps
  proof (rule wp_call [OF readdir_looked [OF Cons.prems(1,2) i]])
    fix tsd s1 assume "Inr tsd = Inr (?ds ! i) \<and> looked k vn s s1"
    then have tsd: "tsd = ?ds ! i" and lk: "looked k vn s s1" by simp_all
    have s1: "dir_ok vn s1" "dir_room k vn s1" "nentries s1 vn = nentries s vn" "dents s1 vn = ?ds"
      using lk by (simp_all add: looked_def)
    have step: "wp (dir_scan vn name is found' e') (\<lambda>r s'. r = Inr
        (pick (\<lambda>i. (sfd_ino (?ds ! i), i)) (filter (is_hit ?ds name) is) found',
         pick (\<lambda>i. i) (filter (is_free ?ds) is) e') \<and> looked k vn s s') s1"
      if "length (filter (is_hit ?ds name) is) \<le> (if found' = None then 1 else 0)" for found' e'
      by (rule wp_mono [OF Cons.IH [OF s1(1,2)]])
        (use s1 that Cons.prems(3) looked_trans [OF lk] in auto)
    consider "is_free ?ds i" | "is_hit ?ds name i" | "\<not> is_free ?ds i" "\<not> is_hit ?ds name i" by blast
    then show "wp (if sfd_ino tsd = SFS_NOINO then dir_scan vn name is found (Some i)
       else if entry_name tsd = name then
         bindP (assertP (found = None)) (\<lambda>_. dir_scan vn name is (Some (sfd_ino tsd, i)) e)
       else dir_scan vn name is found e) (\<lambda>r s'. r = Inr
        (pick (\<lambda>i. (sfd_ino (?ds ! i), i)) (filter (is_hit ?ds name) (i # is)) found,
         pick (\<lambda>i. i) (filter (is_free ?ds) (i # is)) e) \<and> looked k vn s s') s1"
    proof cases
      case 1
      then have "\<not> is_hit ?ds name i" by (simp add: is_free_def is_hit_def)
      then show ?thesis
        using 1 step [of found "Some i"] Cons.prems(4) tsd by (simp add: is_free_def [of _ i])
    next
      case 2
      then have "\<not> is_free ?ds i" by (simp add: is_free_def is_hit_def)
      moreover have "found = None" "filter (is_hit ?ds name) is = []"
        using 2 Cons.prems(4) by (auto split: if_splits)
      ultimately show ?thesis
        using 2 step [of "Some (sfd_ino tsd, i)" e] tsd by (simp add: is_hit_def [of _ _ i] wp_bind wp_assert)
    next
      case 3
      then show ?thesis
        using step [of found e] Cons.prems(4) tsd by (auto simp: is_free_def [of _ i] is_hit_def [of _ _ i])
    qed
  qed simp
qed

section \<open>Names\<close>

lemma in_hits: "i \<in> set (hits ds name) \<longleftrightarrow> i < length ds \<and> is_hit ds name i"
  by (auto simp: hits_def)

lemma unique_hits:
  assumes "unique_names ds"
  shows "length (hits ds name) \<le> 1"
proof (cases "hits ds name")
  case (Cons i r)
  then have "i < length ds" "is_hit ds name i" using in_hits [of i ds name] by auto
  then show ?thesis using assms by (auto simp: unique_names_def is_hit_def)
qed simp

lemma unique_namesI: "(\<And>name. length (hits ds name) \<le> 1) \<Longrightarrow> unique_names ds"
  by (simp add: unique_names_def)

lemma hits_single:
  assumes "unique_names ds" "i < length ds" "is_hit ds name i"
  shows "hits ds name = [i]"
  using unique_hits [OF assms(1), of name] in_hits [of i ds name] assms(2,3)
  by (cases "hits ds name") auto

lemma lookup_None: "dir_lookup ds name = None \<longleftrightarrow> hits ds name = []"
  by (simp add: dir_lookup_def split: list.split)

lemma lookup_Some:
  assumes "unique_names ds"
  shows "dir_lookup ds name = Some (ino, i) \<longleftrightarrow> i < length ds \<and> is_hit ds name i \<and> sfd_ino (ds ! i) = ino"
proof
  assume "dir_lookup ds name = Some (ino, i)"
  then show "i < length ds \<and> is_hit ds name i \<and> sfd_ino (ds ! i) = ino"
    using in_hits [of i ds name] by (auto simp: dir_lookup_def split: list.splits)
next
  assume "i < length ds \<and> is_hit ds name i \<and> sfd_ino (ds ! i) = ino"
  then show "dir_lookup ds name = Some (ino, i)" using hits_single [OF assms, of i name] by (simp add: dir_lookup_def)
qed

lemma lookup_hit:
  assumes "unique_names ds" "i \<in> set (hits ds name)"
  shows "dir_lookup ds name = Some (sfd_ino (ds ! i), i)"
  using assms by (simp add: lookup_Some in_hits)

text \<open>A name that fits an entry.\<close>

definition good_name :: "name \<Rightarrow> bool" where
  "good_name name \<longleftrightarrow> length name < SFS_NAMELEN \<and> 0 \<notin> set name"

lemma takeWhile_zeros: "0 \<notin> set name \<Longrightarrow> takeWhile (\<lambda>b. b \<noteq> 0) (name @ 0 # xs) = (name :: bytes)"
  by (induction name) auto

lemma entry_name_mk: "good_name name \<Longrightarrow> entry_name (mk_dirent ino name) = name"
proof -
  assume g: "good_name name"
  let ?k = "SFS_NAMELEN - length name"
  have k: "0 < ?k" using g by (simp add: good_name_def)
  then obtain z where z: "replicate ?k (0 :: 8 word) = 0 # z" by (metis Suc_pred replicate_Suc)
  have "(name @ replicate ?k 0)[SFS_NAMELEN - 1 := 0] = name @ replicate ?k 0"
    using k by (intro nth_equalityI) (auto simp: nth_list_update nth_append)
  then show ?thesis
    using takeWhile_zeros [of name z] g z by (simp add: entry_name_def mk_dirent_def cstr_def good_name_def)
qed

lemma hits_put:
  assumes "slot \<le> length ds" "slot < length ds \<longrightarrow> is_free ds slot" "sfd_ino sd \<noteq> SFS_NOINO" "hits ds (entry_name sd) = []"
  shows "i \<in> set (hits (dir_put ds slot sd) name) \<longleftrightarrow>
    (if name = entry_name sd then i = slot else i \<in> set (hits ds name))"
  using assms in_hits [of i ds "entry_name sd"] in_hits [of slot ds name]
  by (auto simp: in_hits dir_put_def is_hit_def is_free_def nth_list_update nth_append less_Suc_eq split: if_splits)

lemma distinct_hits: "distinct (hits ds name)"
  by (simp add: hits_def)

lemma length_le_1I: "distinct xs \<Longrightarrow> (\<And>x y. x \<in> set xs \<Longrightarrow> y \<in> set xs \<Longrightarrow> x = y) \<Longrightarrow> length xs \<le> 1"
proof (rule ccontr)
  assume d: "distinct xs" and e: "\<And>x y. x \<in> set xs \<Longrightarrow> y \<in> set xs \<Longrightarrow> x = y" and c: "\<not> length xs \<le> 1"
  from c have l: "0 < length xs" "1 < length xs" by linarith+
  then have "xs ! 0 = xs ! 1" by (intro e nth_mem)
  then show False using nth_eq_iff_index_eq [OF d l] by simp
qed

lemma unique_same:
  assumes "unique_names ds" "x \<in> set (hits ds name)" "y \<in> set (hits ds name)"
  shows "x = y"
  using hits_single [OF assms(1), of x name] assms(2,3) in_hits [of x ds name] by auto

text \<open>
  The interface a directory offers: a finite map from names to inode numbers and slots, with the
  laws for entering and removing a name.
\<close>

locale name_store =
  fixes lookup :: "'d \<Rightarrow> name \<Rightarrow> (nat \<times> nat) option"
    and enter :: "'d \<Rightarrow> nat \<Rightarrow> nat \<Rightarrow> name \<Rightarrow> 'd"
    and remove :: "'d \<Rightarrow> nat \<Rightarrow> 'd"
    and inv :: "'d \<Rightarrow> bool"
    and slot_ok :: "'d \<Rightarrow> nat \<Rightarrow> bool"
  assumes lookup_enter: "inv d \<Longrightarrow> slot_ok d slot \<Longrightarrow> lookup d name = None \<Longrightarrow> good_name name \<Longrightarrow> 0 < ino \<Longrightarrow>
      lookup (enter d slot ino name) = (lookup d)(name := Some (ino, slot))"
    and inv_enter: "inv d \<Longrightarrow> slot_ok d slot \<Longrightarrow> lookup d name = None \<Longrightarrow> good_name name \<Longrightarrow> 0 < ino \<Longrightarrow>
      inv (enter d slot ino name)"
    and lookup_remove: "inv d \<Longrightarrow> lookup d name = Some (ino, slot) \<Longrightarrow> lookup (remove d slot) = (lookup d)(name := None)"
    and inv_remove: "inv d \<Longrightarrow> lookup d name = Some (ino, slot) \<Longrightarrow> inv (remove d slot)"
begin

text \<open>Entering a name and removing it again gives back the old map.\<close>

lemma enter_remove:
  assumes "inv d" "slot_ok d slot" "lookup d name = None" "good_name name" "0 < ino"
  shows "lookup (remove (enter d slot ino name) slot) = lookup d"
  using lookup_remove [OF inv_enter [OF assms], of name ino slot] lookup_enter [OF assms] assms(3)
  by (simp add: fun_eq_iff)

lemma enter_other: "inv d \<Longrightarrow> slot_ok d slot \<Longrightarrow> lookup d name = None \<Longrightarrow> good_name name \<Longrightarrow> 0 < ino \<Longrightarrow>
    other \<noteq> name \<Longrightarrow> lookup (enter d slot ino name) other = lookup d other"
  by (simp add: lookup_enter)

end

definition dir_enter :: "sfs_dir list \<Rightarrow> nat \<Rightarrow> nat \<Rightarrow> name \<Rightarrow> sfs_dir list" where
  "dir_enter ds slot ino name = dir_put ds slot (mk_dirent ino name)"

definition dir_remove :: "sfs_dir list \<Rightarrow> nat \<Rightarrow> sfs_dir list" where
  "dir_remove ds slot = dir_put ds slot (mk_dirent SFS_NOINO [])"

definition dir_slot :: "sfs_dir list \<Rightarrow> nat \<Rightarrow> bool" where
  "dir_slot ds slot \<longleftrightarrow> slot \<le> length ds \<and> (slot < length ds \<longrightarrow> is_free ds slot)"

lemma mk_dirent_ino [simp]: "sfd_ino (mk_dirent ino name) = ino"
  by (simp add: mk_dirent_def)

lemma lookup_put:
  assumes u: "unique_names ds" and s: "dir_slot ds slot" and n: "dir_lookup ds name = None" "good_name name" "0 < ino"
  shows "dir_lookup (dir_enter ds slot ino name) = (dir_lookup ds)(name := Some (ino, slot))"
    "unique_names (dir_enter ds slot ino name)"
proof -
  let ?sd = "mk_dirent ino name" and ?ds = "dir_enter ds slot ino name"
  have en: "entry_name ?sd = name" by (rule entry_name_mk [OF n(2)])
  have h: "i \<in> set (hits ?ds other) \<longleftrightarrow> (if other = name then i = slot else i \<in> set (hits ds other))" for i other
    using hits_put [of slot ds ?sd i other] s n(1,3) en by (simp add: dir_enter_def dir_slot_def lookup_None)
  show un: "unique_names ?ds"
  proof (rule unique_namesI, rule length_le_1I [OF distinct_hits])
    show "x = y" if "x \<in> set (hits ?ds other)" "y \<in> set (hits ?ds other)" for x y other
      using that h unique_same [OF u] by (auto split: if_splits)
  qed
  have nth: "?ds ! i = (if i = slot then ?sd else ds ! i)" if "i < length ?ds" for i
    using that s by (auto simp: dir_enter_def dir_put_def dir_slot_def nth_append nth_list_update)
  have len: "length ?ds = max (length ds) (Suc slot)" using s by (simp add: dir_enter_def dir_put_def dir_slot_def)
  have nslot: "\<not> (i = slot \<and> i \<in> set (hits ds other))" for i other
    using s in_hits [of i ds other] by (auto simp: dir_slot_def is_hit_def is_free_def)
  show "dir_lookup ?ds = (dir_lookup ds)(name := Some (ino, slot))"
  proof
    fix other
    show "dir_lookup ?ds other = ((dir_lookup ds)(name := Some (ino, slot))) other"
    proof (cases "other = name")
      case True
      then have "slot \<in> set (hits ?ds name)" using h by simp
      then have "dir_lookup ?ds name = Some (sfd_ino (?ds ! slot), slot)"
        by (rule lookup_hit [OF un])
      then show ?thesis using True nth [of slot] len by simp
    next
      case False
      show ?thesis
      proof (cases "dir_lookup ds other")
        case None
        then have "i \<notin> set (hits ?ds other)" for i using h False by (simp add: lookup_None)
        then have "hits ?ds other = []" by (cases "hits ?ds other") auto
        then have "dir_lookup ?ds other = None" by (simp add: lookup_None)
        then show ?thesis using None False by simp
      next
        case (Some p)
        obtain j i where p: "p = (j, i)" by (cases p)
        then have i: "i < length ds" "is_hit ds other i" "sfd_ino (ds ! i) = j" using lookup_Some [OF u] Some by auto
        then have "i \<in> set (hits ?ds other)" using h False in_hits by auto
        moreover have "i \<noteq> slot" using nslot [of i other] i in_hits by auto
        ultimately have "dir_lookup ?ds other = Some (j, i)"
          using lookup_Some [OF un] in_hits nth [of i] i(3) by auto
        then show ?thesis using False Some p by simp
      qed
    qed
  qed
qed

lemma lookup_clear:
  assumes u: "unique_names ds" and l: "dir_lookup ds name = Some (ino, slot)"
  shows "dir_lookup (dir_remove ds slot) = (dir_lookup ds)(name := None)" "unique_names (dir_remove ds slot)"
proof -
  let ?ds = "dir_remove ds slot"
  have s: "slot < length ds" "is_hit ds name slot" using l lookup_Some [OF u] by auto
  then have ds: "?ds = ds[slot := mk_dirent 0 []]" by (simp add: dir_remove_def dir_put_def)
  have h: "i \<in> set (hits ?ds other) \<longleftrightarrow> i \<noteq> slot \<and> i \<in> set (hits ds other)" for i other
    using s(1) by (cases "i = slot") (simp_all add: in_hits ds is_hit_def)
  show un: "unique_names ?ds"
  proof (rule unique_namesI, rule length_le_1I [OF distinct_hits])
    show "x = y" if "x \<in> set (hits ?ds other)" "y \<in> set (hits ?ds other)" for x y other
      using that h unique_same [OF u] by auto
  qed
  show "dir_lookup ?ds = (dir_lookup ds)(name := None)"
  proof
    fix other
    show "dir_lookup ?ds other = ((dir_lookup ds)(name := None)) other"
    proof (cases "\<exists>i. i \<noteq> slot \<and> i \<in> set (hits ds other)")
      case True
      then obtain i where i: "i \<noteq> slot" "i \<in> set (hits ds other)" by blast
      then have "other \<noteq> name" using unique_same [OF u, of i name slot] in_hits [of slot ds name] s by auto
      moreover have "dir_lookup ds other = Some (sfd_ino (ds ! i), i)" by (rule lookup_hit [OF u i(2)])
      moreover have "dir_lookup ?ds other = Some (sfd_ino (?ds ! i), i)" using h i by (intro lookup_hit [OF un]) simp
      ultimately show ?thesis using i(1) by (simp add: ds)
    next
      case False
      then have "i \<notin> set (hits ?ds other)" for i using h by auto
      then have "hits ?ds other = []" by (cases "hits ?ds other") auto
      then have "dir_lookup ?ds other = None" by (simp add: lookup_None)
      moreover have "dir_lookup ds other = None" if "other \<noteq> name"
      proof -
        have "slot \<notin> set (hits ds other)" using in_hits [of slot ds other] s that by (auto simp: is_hit_def)
        then have "hits ds other = []" using False by (cases "hits ds other") auto
        then show ?thesis by (simp add: lookup_None)
      qed
      ultimately show ?thesis by simp
    qed
  qed
qed

interpretation dirs: name_store dir_lookup dir_enter dir_remove unique_names dir_slot
  by unfold_locales (use lookup_put lookup_clear in blast)+

section \<open>Searching, linking and unlinking\<close>

lemma wp_bind_run: "m s = Some (Inr x, s') \<Longrightarrow> wp (bindP m f) Q s = wp (f x) Q s'"
  by (simp add: wp_def bindP_def)

lemma nentries_spec: "dir_ok vn s \<Longrightarrow> sfs_dir_nentries vn s = Some (Inr (nentries s vn), s)"
  by (simp add: sfs_dir_nentries_def dir_ok_def bindP_def getP_def assertP_def retP_def)

lemma last_single: "length xs \<le> 1 \<Longrightarrow> xs \<noteq> [] \<Longrightarrow> last xs = hd xs"
  by (cases xs) auto

lemma findname_spec:
  assumes "dir_ok vn s" "dir_room k vn s" "unique_names (dents s vn)"
  shows "wp (sfs_dir_findname vn name)
    (\<lambda>r s'. r = Inr (dir_lookup (dents s vn) name, last_free (dents s vn)) \<and> looked k vn s s') s"
proof -
  let ?ds = "dents s vn"
  have h: "length (hits ?ds name) \<le> 1" by (rule unique_hits [OF assms(3)])
  have "pick (\<lambda>i. (sfd_ino (?ds ! i), i)) (hits ?ds name) None = dir_lookup ?ds name"
    using last_single [OF h] by (simp add: pick_def dir_lookup_def split: list.split)
  moreover have "pick (\<lambda>i. i) (frees ?ds) None = last_free ?ds" by (simp add: pick_def last_free_def)
  moreover have "wp (dir_scan vn name [0..<nentries s vn] None None) (\<lambda>r s'. r = Inr
      (pick (\<lambda>i. (sfd_ino (?ds ! i), i)) (filter (is_hit ?ds name) [0..<nentries s vn]) None,
       pick (\<lambda>i. i) (filter (is_free ?ds) [0..<nentries s vn]) None) \<and> looked k vn s s') s"
    by (rule dir_scan_spec [OF assms(1,2)]) (use h in \<open>auto simp: hits_def\<close>)
  ultimately show ?thesis
    using nentries_spec [OF assms(1)]
    by (simp add: sfs_dir_findname_def wp_def bindP_def hits_def frees_def)
qed

text \<open>What an update of a directory keeps of the rest.\<close>

definition dir_step :: "nat \<Rightarrow> sfs_fs \<Rightarrow> sfs_fs \<Rightarrow> bool" where
  "dir_step vn s s' \<longleftrightarrow> file_step vn s s' \<and> cache_ok s' \<and>
     sfi_type (sv_i (vnode_heap s' vn)) = sfi_type (sv_i (vnode_heap s vn)) \<and>
     sfi_linkcount (sv_i (vnode_heap s' vn)) = sfi_linkcount (sv_i (vnode_heap s vn)) \<and>
     sv_ino (vnode_heap s' vn) = sv_ino (vnode_heap s vn) \<and>
     (\<forall>ino<2 ^ 31. \<forall>b<2 ^ 32. ino \<noteq> sv_ino (vnode_heap s vn) \<longrightarrow> cached s' ino b = cached s ino b)"

lemma region_dir_step: "region_frame vn s s' \<Longrightarrow> dir_step vn s s'"
  by (simp add: dir_step_def region_frame_def meta_def)

lemma dir_step_trans: "dir_step vn s s1 \<Longrightarrow> dir_step vn s1 s2 \<Longrightarrow> dir_step vn s s2"
  using file_step_trans [of vn s s1 s2] by (simp add: dir_step_def)

lemma set_size_step:
  assumes "region_frame vn s s1" "n < 2 ^ 32"
  defines "s2 \<equiv> set_size vn n s1"
  shows "fbyte s2 vn = fbyte s1 vn" "dir_step vn s s2" "fblock s2 vn = fblock s1 vn" "warm vn m s2 = warm vn m s1"
    "free_slots s2 = free_slots s1" "sfi_size (sv_i (vnode_heap s2 vn)) = max (sfi_size (sv_i (vnode_heap s1 vn))) n"
proof -
  note st = size_step [OF assms(1,2)]
  have b: "blocks s2 vn = blocks s1 vn" "cached s2 = cached s1" "sv_ino (vnode_heap s2 vn) = sv_ino (vnode_heap s1 vn)"
    using st by (simp_all add: s2_def set_size_def)
  show "fbyte s2 vn = fbyte s1 vn" "free_slots s2 = free_slots s1" using st by (simp_all add: s2_def set_size_def)
  show "fblock s2 vn = fblock s1 vn" "warm vn m s2 = warm vn m s1" using b by (simp_all add: fblock_def warm_def fun_eq_iff)
  show "dir_step vn s s2"
    using st b assms(1) by (simp add: dir_step_def region_frame_def meta_def) (simp add: s2_def set_size_def)
  show "sfi_size (sv_i (vnode_heap s2 vn)) = max (sfi_size (sv_i (vnode_heap s1 vn))) n"
    by (simp add: s2_def set_size_def)
qed

lemma dent_written:
  assumes "\<And>j. 64 * i \<le> j \<Longrightarrow> j < 64 * i + 64 \<Longrightarrow> fbyte s vn j = enc_dir sd ! (j - 64 * i)"
    and "sfd_ino sd < 2 ^ 32" "length (sfd_name sd) = SFS_NAMELEN"
  shows "dent s vn i = sd"
proof -
  have "map (fbyte s vn) [64 * i..<64 * i + 64] = enc_dir sd"
    by (rule nth_equalityI) (use assms in \<open>simp_all add: enc_dir_def\<close>)
  then show ?thesis using dec_enc_dir [OF assms(2,3)] by (simp add: dent_def)
qed

lemma wrote_dents:
  assumes d: "dir_ok vn s" and room: "dir_room k vn s" and slot: "slot \<le> nentries s vn" "64 * slot + 64 \<le> SFS_MAXFILE"
    and k: "slot = nentries s vn \<longrightarrow> 0 < k" and sd: "sfd_ino sd < 2 ^ 32" "length (sfd_name sd) = SFS_NAMELEN"
    and w: "wrote vn slot sd s s'"
  shows "dir_ok vn s' \<and> dir_room (k - 1) vn s' \<and> dents s' vn = dir_put (dents s vn) slot sd \<and> dir_step vn s s'"
proof -
  let ?n = "slot div 8" and ?e = "nentries s vn"
  obtain s1 where fr: "io_frame vn ?n s s1" and su: "slot_use vn ?n s s1" and nz: "fblock s1 vn ?n \<noteq> 0"
    and eff: "\<And>j. j < SFS_MAXFILE \<Longrightarrow> fbyte s1 vn j =
        (if 64 * slot \<le> j \<and> j < 64 * slot + 64 then enc_dir sd ! (j - 64 * slot) else fbyte s vn j)"
    and s': "s' = set_size vn (64 * slot + 64) s1"
    using w by (auto simp: wrote_def)
  have rd: "ready vn s" and sz0: "sfi_size (sv_i (vnode_heap s vn)) = 64 * ?e" and mx: "64 * ?e \<le> SFS_MAXFILE"
    using d by (simp_all add: dir_ok_def)
  have n32: "64 * slot + 64 < 2 ^ 32" using slot(2) by simp
  note st = set_size_step [OF io_frame_region [OF fr] n32, folded s']
  have sz1: "sfi_size (sv_i (vnode_heap s1 vn)) = 64 * ?e" "sv_ino (vnode_heap s1 vn) = sv_ino (vnode_heap s vn)"
    using fr sz0 by (simp_all add: io_frame_def meta_def)
  have ne: "nentries s' vn = max ?e (Suc slot)" using st(6) sz1(1) slot(1) by (simp add: nentries_def max_def)
  have sz: "sfi_size (sv_i (vnode_heap s' vn)) = 64 * nentries s' vn" using st(6) sz1(1) ne by (simp add: max_def)
  have n143: "?n < SFS_NDIRECT + SFS_DBPERIDB" by (rule slot_block(1) [OF slot(2)])
  have N: "dblocks vn s \<le> dblocks vn s'" "?n < dblocks vn s'"
    "dblocks vn s' = dblocks vn s \<or> dblocks vn s' = Suc ?n \<and> ?n = dblocks vn s \<and> 0 < k"
    using ne slot(1) k by (auto simp: dblocks_def max_def div_le_mono)
  have Nmax: "dblocks vn s' \<le> SFS_NDIRECT + SFS_DBPERIDB"
    using N(3) n143 dblocks_bound(1) [OF d] by auto
  have fb: "fblock s' vn m \<noteq> 0" if "m < dblocks vn s'" for m
  proof (cases "m = ?n")
    case True
    then show ?thesis using nz st(3) by simp
  next
    case False
    then have "m < dblocks vn s" "m < SFS_NDIRECT + SFS_DBPERIDB" using that N(3) Nmax by auto
    then show ?thesis using io_frame_fblock [OF fr] False st(3) d by (simp add: dir_ok_def)
  qed
  have "ready vn s'" using rd st(2) by (simp add: ready_def dir_step_def file_step_def)
  then have dok: "dir_ok vn s'"
    using d st(2) sz ne slot(2) mx fb by (simp add: dir_ok_def dir_step_def)
  have ino: "sv_ino (vnode_heap s vn) < 2 ^ 31" using rd by (simp add: ready_def)
  have "card {m \<in> {..<dblocks vn s'}. \<not> warm vn m s1} + (if dblocks vn s' = dblocks vn s then k else k - 1) \<le> free_slots s1"
    by (rule room_step [OF fr su nz N(1) Nmax N(2) N(3) ino]) (use room in \<open>simp add: dir_room_def\<close>)
  then have room': "dir_room (k - 1) vn s'" by (simp add: dir_room_def st(4,5) split: if_splits)
  have dent: "dent s' vn i = (if i = slot then sd else dent s vn i)" if "i < nentries s' vn" for i
  proof (cases "i = slot")
    case True
    then show ?thesis using eff slot(2) sd by (auto simp: st(1) intro!: dent_written)
  next
    case False
    have "64 * i + 64 \<le> SFS_MAXFILE" using that sz dok by (simp add: dir_ok_def)
    then show ?thesis using False eff by (auto simp: st(1) intro!: dent_cong)
  qed
  have "dents s' vn = dir_put (dents s vn) slot sd"
  proof (rule nth_equalityI)
    show "length (dents s' vn) = length (dir_put (dents s vn) slot sd)" using ne slot(1) by (auto simp: dir_put_def max_def)
    fix i assume "i < length (dents s' vn)"
    then show "dents s' vn ! i = dir_put (dents s vn) slot sd ! i"
      using dent [of i] ne slot(1)
      by (cases "slot < ?e") (auto simp: dir_put_def nth_append nth_list_update max_def split: if_splits)
  qed
  then show ?thesis using dok room' st(2) by simp
qed

text \<open>Linking: the entry goes to the last free slot, or to the end.\<close>

definition link_slot :: "sfs_dir list \<Rightarrow> nat" where
  "link_slot ds = (case last_free ds of Some e \<Rightarrow> e | None \<Rightarrow> length ds)"

lemma last_free_bound: "last_free ds = Some e \<Longrightarrow> e < length ds \<and> is_free ds e"
  using last_in_set [of "frees ds"] by (auto simp: last_free_def frees_def split: if_splits)

lemma link_slot_ok: "dir_slot ds (link_slot ds)"
  using last_free_bound [of ds] by (auto simp: link_slot_def dir_slot_def split: option.split)

lemma length_mk_dirent: "length name \<le> SFS_NAMELEN \<Longrightarrow> length (sfd_name (mk_dirent ino name)) = SFS_NAMELEN"
  by (simp add: mk_dirent_def)

lemma write_failed_looked:
  assumes d: "dir_ok vn s" and room: "dir_room k vn s" and w: "write_failed vn slot s s'" and slot: "slot \<le> nentries s vn"
    and mx: "64 * slot + 64 \<le> SFS_MAXFILE"
  shows "dir_ok vn s' \<and> dents s' vn = dents s vn \<and> dir_step vn s s'"
proof -
  let ?n = "slot div 8"
  have fr: "io_frame vn ?n s s'" and z: "fblock s vn ?n = 0"
    and eff: "\<And>j. j < SFS_MAXFILE \<Longrightarrow> fbyte s' vn j = fbyte s vn j"
    using w by (auto simp: write_failed_def)
  have rd: "ready vn s" using d by (simp add: dir_ok_def)
  note rf = io_frame_region [OF fr]
  have sz: "sfi_size (sv_i (vnode_heap s' vn)) = sfi_size (sv_i (vnode_heap s vn))"
    "sfi_type (sv_i (vnode_heap s' vn)) = sfi_type (sv_i (vnode_heap s vn))"
    using fr by (simp_all add: io_frame_def meta_def)
  have ne: "nentries s' vn = nentries s vn" "dblocks vn s' = dblocks vn s" by (simp_all add: nentries_def dblocks_def sz)
  have fb: "fblock s' vn m = fblock s vn m" if "m < dblocks vn s" for m
    using io_frame_fblock [OF fr] that d dblocks_bound(1) [OF d] by (simp add: dir_ok_def)
  have "dir_ok vn s'" using d ready_frame [OF rd rf] ne sz fb by (simp add: dir_ok_def)
  moreover have "dent s' vn i = dent s vn i" if "i < nentries s vn" for i
    by (rule dent_cong) (use eff dblocks_bound(3) [OF d that] in simp)
  then have "dents s' vn = dents s vn" by (simp add: dents_def ne)
  ultimately show ?thesis using region_dir_step [OF rf] by simp
qed

lemma writedir_dents:
  assumes d: "dir_ok vn s" and room: "dir_room k vn s" and slot: "slot \<le> nentries s vn" "64 * slot + 64 \<le> SFS_MAXFILE"
    and k: "slot = nentries s vn \<longrightarrow> 0 < k" and sd: "sfd_ino sd < 2 ^ 32" "length (sfd_name sd) = SFS_NAMELEN"
  shows "wp (sfs_writedir vn sd slot) (\<lambda>r s'. dir_ok vn s' \<and> dir_step vn s s' \<and>
    (case r of
       Inr _ \<Rightarrow> space_for vn (slot div 8) s \<and> dir_room (k - 1) vn s' \<and> dents s' vn = dir_put (dents s vn) slot sd
     | Inl e \<Rightarrow> e = ENOSPC \<and> slot = nentries s vn \<and> \<not> space_for vn (slot div 8) s \<and> dents s' vn = dents s vn)) s"
proof -
  have rd: "ready vn s" "sfi_size (sv_i (vnode_heap s vn)) = 64 * nentries s vn" using d by (simp_all add: dir_ok_def)
  have hr: "has_room vn (slot div 8) s"
    using dir_room_has [OF room] slot(1) k dblocks_bound(2) [OF d, of slot] by (cases "slot = nentries s vn") auto
  have full: "slot = nentries s vn \<and> \<not> space_for vn (slot div 8) s" if "write_failed vn slot s s'" for s'
    using that slot(1) d dblocks_bound(2) [OF d, of slot] by (force simp: write_failed_def dir_ok_def)
  show ?thesis
    by (rule wp_mono [OF writedir_spec [OF rd(1) _ slot(2) hr sd(2)]])
      (use rd(2) slot(1) wrote_dents [OF d room slot k sd] wrote_def [of vn slot sd s] write_failed_looked [OF d room _ slot] full
        in \<open>auto split: sum.splits\<close>)
qed

lemma looked_step: "looked k vn s s' \<Longrightarrow> dir_step vn s s'"
  by (simp add: looked_def region_dir_step)

lemma link_spec:
  assumes d: "dir_ok vn s" and room: "dir_room 1 vn s" and u: "unique_names (dents s vn)"
    and mx: "64 * nentries s vn + 64 \<le> SFS_MAXFILE" and ino: "ino < 2 ^ 32"
  shows "wp (sfs_dir_link vn name ino) (\<lambda>r s'. dir_ok vn s' \<and> dir_step vn s s' \<and>
    (case r of
       Inr slot \<Rightarrow> dir_lookup (dents s vn) name = None \<and> length name < SFS_NAMELEN \<and> slot = link_slot (dents s vn) \<and>
         space_for vn (slot div 8) s \<and>
         dents s' vn = dir_enter (dents s vn) slot ino name
     | Inl e \<Rightarrow> dents s' vn = dents s vn \<and>
         (if dir_lookup (dents s vn) name \<noteq> None then e = EEXIST
          else if length name \<ge> SFS_NAMELEN then e = ENAMETOOLONG
          else e = ENOSPC \<and> last_free (dents s vn) = None \<and> \<not> space_for vn (nentries s vn div 8) s))) s" (is "wp _ ?Q s")
  unfolding sfs_dir_link_def
proof (rule wp_call [OF findname_spec [OF d room u]])
  let ?ds = "dents s vn"
  fix x s1 assume "Inr x = Inr (dir_lookup ?ds name, last_free ?ds) \<and> looked 1 vn s s1"
  then have x: "x = (dir_lookup ?ds name, last_free ?ds)" and lk: "looked 1 vn s s1" by simp_all
  have s1: "dir_ok vn s1" "dir_room 1 vn s1" "nentries s1 vn = nentries s vn" "dents s1 vn = ?ds"
    using lk by (simp_all add: looked_def)
  have sp: "space_for vn n s1 = space_for vn n s" for n
    using lk same_space_for by (auto simp: looked_def)
  note st = looked_step [OF lk]
  let ?w = "\<lambda>slot. bindP (sfs_writedir vn (mk_dirent ino name) slot) (\<lambda>_. retP slot)"
  show "wp (case x of (found, emptyslot) \<Rightarrow>
     if found \<noteq> None then throwP EEXIST
     else if length name + 1 > SFS_NAMELEN then throwP ENAMETOOLONG
     else bindP (case emptyslot of Some e \<Rightarrow> retP e | None \<Rightarrow> sfs_dir_nentries vn) ?w) ?Q s1"
  proof (cases "dir_lookup ?ds name \<noteq> None \<or> length name + 1 > SFS_NAMELEN")
    case True
    then show ?thesis using x s1 st by (auto simp: wp_throw)
  next
    case False
    then have F: "dir_lookup ?ds name = None" "length name < SFS_NAMELEN" by (blast, linarith)
    let ?slot = "link_slot ?ds"
    have sl: "?slot \<le> nentries s1 vn" using link_slot_ok [of ?ds] s1(3) by (simp add: dir_slot_def)
    have slm: "64 * ?slot + 64 \<le> SFS_MAXFILE" using sl mx s1(3) by simp
    have sd: "sfd_ino (mk_dirent ino name) < 2 ^ 32" "length (sfd_name (mk_dirent ino name)) = SFS_NAMELEN"
      using ino False length_mk_dirent by (simp_all add: mk_dirent_def)
    have "wp (?w ?slot) ?Q s1"
    proof (rule wp_call [OF writedir_dents [OF s1(1,2) sl slm _ sd]])
      fix e s2 assume "dir_ok vn s2 \<and> dir_step vn s1 s2 \<and>
        (case Inl e of
           Inr _ \<Rightarrow> space_for vn (?slot div 8) s1 \<and> dir_room (1 - 1) vn s2 \<and>
             dents s2 vn = dir_put (dents s1 vn) ?slot (mk_dirent ino name)
         | Inl e \<Rightarrow> e = ENOSPC \<and> ?slot = nentries s1 vn \<and> \<not> space_for vn (?slot div 8) s1 \<and> dents s2 vn = dents s1 vn)"
      moreover have "last_free ?ds = None" if "?slot = nentries s1 vn"
        using that last_free_bound [of ?ds] s1(3) by (auto simp: link_slot_def split: option.splits)
      ultimately show "?Q (Inl e) s2" using F s1(3,4) sp dir_step_trans [OF st] by auto
    next
      fix y s2 assume "dir_ok vn s2 \<and> dir_step vn s1 s2 \<and>
        (case Inr y of
           Inr _ \<Rightarrow> space_for vn (?slot div 8) s1 \<and> dir_room (1 - 1) vn s2 \<and>
             dents s2 vn = dir_put (dents s1 vn) ?slot (mk_dirent ino name)
         | Inl e \<Rightarrow> e = ENOSPC \<and> ?slot = nentries s1 vn \<and> \<not> space_for vn (?slot div 8) s1 \<and> dents s2 vn = dents s1 vn)"
      then show "wp (retP ?slot) ?Q s2"
        using F s1(4) sp dir_step_trans [OF st] by (auto simp: wp_ret dir_enter_def)
    qed simp
    moreover have "(case last_free ?ds of Some e \<Rightarrow> retP e | None \<Rightarrow> sfs_dir_nentries vn) s1 = Some (Inr ?slot, s1)"
      using nentries_spec [OF s1(1)] s1(3) by (simp add: link_slot_def retP_def split: option.split)
    ultimately have "wp (bindP (case last_free ?ds of Some e \<Rightarrow> retP e | None \<Rightarrow> sfs_dir_nentries vn) ?w) ?Q s1"
      by (simp only: wp_bind_run)
    then show ?thesis using F by (simp only: x prod.case if_False not_less simp_thms) simp
  qed
qed simp

lemma unlink_spec:
  assumes d: "dir_ok vn s" and room: "dir_room k vn s" and slot: "slot < nentries s vn"
  shows "wp (sfs_dir_unlink vn slot) (\<lambda>r s'. r = Inr () \<and> dir_ok vn s' \<and> dir_step vn s s' \<and> dir_room (k - 1) vn s' \<and>
    dents s' vn = dir_remove (dents s vn) slot) s"
proof -
  have mx: "64 * slot + 64 \<le> SFS_MAXFILE" by (rule dblocks_bound(3) [OF d slot])
  have sd: "sfd_ino (mk_dirent SFS_NOINO []) < 2 ^ 32" "length (sfd_name (mk_dirent SFS_NOINO [])) = SFS_NAMELEN"
    by (simp_all add: mk_dirent_def)
  show ?thesis
    unfolding sfs_dir_unlink_def
    by (rule wp_mono [OF writedir_dents [OF d room _ mx _ sd]])
      (use slot in \<open>auto simp: dir_remove_def split: sum.splits\<close>)
qed

section \<open>An example directory\<close>

text \<open>A directory in block 1 with two slots: the name \<open>a\<close> for inode 7, and a free one.\<close>

definition dir_sector :: bytes where
  "dir_sector = enc_dir (mk_dirent 7 [97]) @ enc_dir (mk_dirent 0 []) @ replicate 384 0"

definition sfsd :: sfs_fs where
  "sfsd = sfs1\<lparr>sfs_device := (sfs_device sfs1)\<lparr>lh_sectors := (disk sfs1)(1 := dir_sector)\<rparr>,
     vnode_heap := (\<lambda>_. \<lparr>vn_refcount = 1, vn_opencount = 1, vn_ops = sfs_dirops,
       sv_i = \<lparr>sfi_size = 128, sfi_type = 2, sfi_linkcount = 2, sfi_direct = 1 # replicate 14 0, sfi_indirect = 0,
         sfi_waste = replicate 440 0\<rparr>, sv_ino = 2, sv_dirty = False\<rparr>)\<rparr>"

lemma length_dir_sector: "length dir_sector = 512"
  by (simp add: dir_sector_def enc_dir_def mk_dirent_def)

lemma sfsd_blocks: "blocks sfsd vn = 1 # replicate 142 0"
proof -
  have "replicate 14 0 @ replicate 128 0 = replicate 142 (0::nat)" by (simp only: replicate_add [symmetric]) simp
  then show ?thesis by (simp add: sfsd_def blocks_def id_entries_def)
qed

lemma sfsd_ready: "ready vn sfsd"
proof -
  have "fs_ok sfs1" using sfs1_ready [of 0] by (simp add: ready_def)
  then have "fs_ok sfsd" using length_dir_sector by (simp add: sfsd_def fs_ok_def dev_ok_def lhd_inv_def)
  moreover have "owned sfsd vn = [1]" by (simp add: owned_def cells_def sfsd_blocks) (simp add: sfsd_def)
  then have "file_ok sfsd vn"
    by (simp add: file_ok_def) (simp add: sfsd_def sfs1_def sfs0_used inode_wf_def, simp add: sfs0_def)
  moreover have "sfs_rcache sfsd = sfs_rcache sfs1" "sfs_freemap sfsd = sfs_freemap sfs1" "sfs_super sfsd = sfs_super sfs1"
    by (simp_all add: sfsd_def)
  ultimately show ?thesis using sfs1_ready [of vn] by (simp add: ready_def cache_ok_def) (simp add: sfsd_def)
qed

lemma sfsd_ldata: "ldata sfsd vn 0 = dir_sector"
proof -
  have "cached sfsd 2 b = None" for b
    using sfs1_cached [of 2 b] by (simp add: cached_def sfsd_def slot_is_def to_s32_def)
  moreover have "fblock sfsd vn 0 = 1" by (simp add: fblock_def sfsd_blocks)
  moreover have "sv_ino (vnode_heap sfsd vn) = 2" "disk sfsd 1 = dir_sector" by (simp_all add: sfsd_def)
  ultimately show ?thesis by (simp add: ldata_def)
qed

lemma dent_ldata:
  assumes "fs_ok s" "cache_ok s" "i < 8"
  shows "dent s vn i = dec_dir (take 64 (drop (64 * i) (ldata s vn 0)))"
proof -
  have l: "length (ldata s vn 0) = 512" by (rule length_ldata [OF assms(1,2)])
  have "map (fbyte s vn) [64 * i..<64 * i + 64] = take 64 (drop (64 * i) (ldata s vn 0))"
    by (rule nth_equalityI) (use assms(3) l in \<open>auto simp: fbyte_def\<close>)
  then show ?thesis by (simp add: dent_def)
qed

lemma sfsd_dents: "dents sfsd vn = [mk_dirent 7 [97], mk_dirent 0 []]"
proof -
  have ok: "fs_ok sfsd" "cache_ok sfsd" using sfsd_ready [of vn] by (simp_all add: ready_def)
  have l: "length (enc_dir (mk_dirent 7 [97])) = 64" "length (enc_dir (mk_dirent 0 [])) = 64"
    by (simp_all add: enc_dir_def mk_dirent_def)
  have "dent sfsd vn 0 = mk_dirent 7 [97]"
    using dent_ldata [OF ok, of 0 vn] l dec_enc_dir [of "mk_dirent 7 [97]"]
    by (simp add: sfsd_ldata dir_sector_def mk_dirent_def)
  moreover have "dent sfsd vn 1 = mk_dirent 0 []"
    using dent_ldata [OF ok, of 1 vn] l dec_enc_dir [of "mk_dirent 0 []"]
    by (simp add: sfsd_ldata dir_sector_def mk_dirent_def)
  moreover have "nentries sfsd vn = 2" by (simp add: nentries_def sfsd_def)
  ultimately show ?thesis by (simp add: dents_def upt_rec)
qed

lemma sfsd_unique: "unique_names (dents sfsd vn)"
  by (simp add: sfsd_dents unique_names_def hits_def is_hit_def upt_rec)

lemma sfsd_lookup:
  "dir_lookup (dents sfsd vn) [97] = Some (7, 0)" "dir_lookup (dents sfsd vn) [98] = None" "last_free (dents sfsd vn) = Some 1"
proof -
  have "entry_name (mk_dirent 7 [97]) = [97]" by (rule entry_name_mk) (simp add: good_name_def)
  then show "dir_lookup (dents sfsd vn) [97] = Some (7, 0)" "dir_lookup (dents sfsd vn) [98] = None"
    "last_free (dents sfsd vn) = Some 1"
    by (simp_all add: sfsd_dents dir_lookup_def hits_def is_hit_def last_free_def frees_def is_free_def upt_rec)
qed

lemma sfsd_dir: "dir_ok vn sfsd" "dir_room 1 vn sfsd" "nentries sfsd vn = 2"
proof -
  show ne: "nentries sfsd vn = 2" by (simp add: nentries_def sfsd_def)
  then have db: "dblocks vn sfsd = 1" by (simp add: dblocks_def)
  have "fblock sfsd vn 0 = 1" by (simp add: fblock_def sfsd_blocks)
  then show "dir_ok vn sfsd" using sfsd_ready ne db by (simp add: dir_ok_def) (simp add: sfsd_def)
  have "free_slots sfsd = 64" by (simp add: free_slots_def sfsd_def sfs1_cache)
  moreover have "card {m \<in> {..<1::nat}. \<not> warm vn m sfsd} \<le> card {..<1::nat}" by (rule card_mono) auto
  ultimately show "dir_room 1 vn sfsd" by (simp add: dir_room_def db)
qed

text \<open>An empty directory on a volume without a free block.\<close>

definition sfsd_full :: sfs_fs where
  "sfsd_full = sfsd\<lparr>sfs_freemap := \<lparr>nbits = 4096, v = replicate 512 0xff\<rparr>,
     vnode_heap := (\<lambda>_. \<lparr>vn_refcount = 1, vn_opencount = 1, vn_ops = sfs_dirops,
       sv_i = \<lparr>sfi_size = 0, sfi_type = 2, sfi_linkcount = 2, sfi_direct = replicate 15 0, sfi_indirect = 0,
         sfi_waste = replicate 440 0\<rparr>, sv_ino = 2, sv_dirty = False\<rparr>)\<rparr>"

lemma full_map_used: "used \<lparr>nbits = 4096, v = replicate 512 0xff\<rparr> = {..<4096}"
proof -
  have "nth_bit \<lparr>nbits = 4096, v = replicate 512 0xff\<rparr> i" if "i < 4096" for i
  proof -
    have "i mod 8 \<in> {0, 1, 2, 3, 4, 5, 6, 7}" using lt8 [of "i mod 8"] by simp
    then show ?thesis using that by (auto simp: nth_bit_def)
  qed
  then show ?thesis by (auto simp: used_def)
qed

lemma sfsd_full_ready: "ready vn sfsd_full"
proof -
  have b: "blocks sfsd_full vn = replicate 143 0"
  proof -
    have "replicate 15 0 @ replicate 128 0 = replicate 143 (0::nat)" by (simp only: replicate_add [symmetric]) simp
    then show ?thesis by (simp add: sfsd_full_def blocks_def id_entries_def)
  qed
  have "bitmap_inv \<lparr>nbits = 4096, v = replicate 512 0xff\<rparr>" by (simp add: bitmap_inv_def DIVROUNDUP_def)
  then have "fs_ok sfsd_full"
    using sfsd_ready [of vn] full_map_used by (auto simp: ready_def fs_ok_def sfsd_full_def sfsd_def sfs1_def sfs0_def)
  moreover have "owned sfsd_full vn = []" by (simp add: owned_def cells_def b) (simp add: sfsd_full_def)
  then have "file_ok sfsd_full vn"
    by (simp add: file_ok_def) (simp add: sfsd_full_def inode_wf_def)
  moreover have "cache_ok sfsd_full" by (simp add: cache_ok_def sfsd_full_def sfsd_def sfs1_cache)
  moreover have "sfs_super sfsd_full = sfs_super sfsd" by (simp add: sfsd_full_def)
  ultimately show ?thesis using sfsd_ready [of vn] by (simp add: ready_def) (simp add: sfsd_full_def)
qed

lemma sfsd_full_dir:
  "dir_ok vn sfsd_full" "dir_room 1 vn sfsd_full" "unique_names (dents sfsd_full vn)" "nentries sfsd_full vn = 0"
  "dents sfsd_full vn = []" "\<not> space_for vn 0 sfsd_full"
proof -
  show ne: "nentries sfsd_full vn = 0" by (simp add: nentries_def sfsd_full_def)
  then show de: "dents sfsd_full vn = []" by (simp add: dents_def)
  show "unique_names (dents sfsd_full vn)" by (simp add: de unique_names_def hits_def)
  have db: "dblocks vn sfsd_full = 0" by (simp add: dblocks_def ne)
  show "dir_ok vn sfsd_full" using sfsd_full_ready ne db by (simp add: dir_ok_def) (simp add: sfsd_full_def)
  have "free_slots sfsd_full = 64" by (simp add: free_slots_def sfsd_full_def sfsd_def sfs1_cache)
  then show "dir_room 1 vn sfsd_full" by (simp add: dir_room_def db)
  have "free_blocks sfsd_full = {}"
    by (simp add: free_blocks_def sfsd_full_def full_map_used) (simp add: sfsd_def sfs1_def sfs0_def)
  moreover have "fblock sfsd_full vn 0 = 0" by (simp add: fblock_def blocks_def sfsd_full_def nth_append)
  ultimately show "\<not> space_for vn 0 sfsd_full" by (simp add: space_for_def blocks_needed_def)
qed

section \<open>Properties\<close>

text \<open>
  C15: Searching a directory. \<open>sfs_dir_findname\<close> returns the inode number and slot of the entry
  with the name, or nothing exactly when no used entry has it, together with the last free
  slot. It never stops the kernel on a well-formed directory, and changes neither the directory
  nor anything else on the volume.
\<close>

theorem sfs_dir_findname_correct:
  assumes "dir_ok vn s" "dir_room k vn s" "unique_names (dents s vn)"
  shows "\<exists>s'. sfs_dir_findname vn name s = Some (Inr (dir_lookup (dents s vn) name, last_free (dents s vn)), s') \<and>
    looked k vn s s'"
  using findname_spec [OF assms] by (auto simp: wp_def)

theorem sfs_dir_findname_correct_witness:
  "(\<exists>s'. sfs_dir_findname 0 [97] sfsd = Some (Inr (Some (7, 0), Some 1), s')) \<and>
   (\<exists>s'. sfs_dir_findname 0 [98] sfsd = Some (Inr (None, Some 1), s'))"
  using sfs_dir_findname_correct [OF sfsd_dir(1,2) sfsd_unique, of 0 "[97]"]
    sfs_dir_findname_correct [OF sfsd_dir(1,2) sfsd_unique, of 0 "[98]"] by (auto simp: sfsd_lookup)

text \<open>
  C13: Linking. \<open>sfs_dir_link\<close> of a new name makes the directory map the name to the inode and
  changes no other name. It fails with \<open>EEXIST\<close> exactly when the name is there, with
  \<open>ENAMETOOLONG\<close> exactly when a new name does not fit, and with \<open>ENOSPC\<close> exactly when a new name
  that fits finds no free slot and the volume has fewer free blocks than the next slot needs
  (none inside the last block, one for a new block, two when the indirect block is new as well);
  in every other case it succeeds. A failure leaves the directory as it was. Names stay unique,
  and no other file changes.
\<close>

theorem sfs_dir_link_correct:
  assumes "dir_ok vn s" "dir_room 1 vn s" "unique_names (dents s vn)"
    and "64 * nentries s vn + 64 \<le> SFS_MAXFILE" "0 < ino" "ino < 2 ^ 32" "0 \<notin> set name"
  shows "\<exists>r s'. sfs_dir_link vn name ino s = Some (r, s') \<and> dir_ok vn s' \<and> dir_step vn s s' \<and> unique_names (dents s' vn) \<and>
    dir_lookup (dents s' vn) = (case r of
        Inr slot \<Rightarrow> (dir_lookup (dents s vn))(name := Some (ino, slot))
      | Inl _ \<Rightarrow> dir_lookup (dents s vn)) \<and>
    (r = Inl EEXIST \<longleftrightarrow> dir_lookup (dents s vn) name \<noteq> None) \<and>
    (r = Inl ENAMETOOLONG \<longleftrightarrow> dir_lookup (dents s vn) name = None \<and> SFS_NAMELEN \<le> length name) \<and>
    (\<forall>e. r = Inl e \<longrightarrow> e \<in> {EEXIST, ENAMETOOLONG, ENOSPC}) \<and>
    (r = Inl ENOSPC \<longleftrightarrow> dir_lookup (dents s vn) name = None \<and> length name < SFS_NAMELEN \<and>
       last_free (dents s vn) = None \<and> \<not> space_for vn (nentries s vn div 8) s)"
proof -
  let ?ds = "dents s vn"
  obtain r s' where run: "sfs_dir_link vn name ino s = Some (r, s')" and ok: "dir_ok vn s'" "dir_step vn s s'"
    and res: "case r of
       Inr slot \<Rightarrow> dir_lookup ?ds name = None \<and> length name < SFS_NAMELEN \<and> slot = link_slot ?ds \<and>
         space_for vn (slot div 8) s \<and>
         dents s' vn = dir_enter ?ds slot ino name
     | Inl e \<Rightarrow> dents s' vn = ?ds \<and>
         (if dir_lookup ?ds name \<noteq> None then e = EEXIST
          else if length name \<ge> SFS_NAMELEN then e = ENAMETOOLONG
          else e = ENOSPC \<and> last_free ?ds = None \<and> \<not> space_for vn (nentries s vn div 8) s)"
    using link_spec [OF assms(1-4,6), of name] by (auto simp: wp_def)
  show ?thesis
  proof (cases r)
    case (Inr slot)
    then have p: "dir_lookup ?ds name = None" "good_name name" "slot = link_slot ?ds" "dents s' vn = dir_enter ?ds slot ino name"
      using res assms(7) by (auto simp: good_name_def)
    moreover have "last_free ?ds \<noteq> None \<or> space_for vn (nentries s vn div 8) s"
      using res Inr by (cases "last_free ?ds") (auto simp: link_slot_def)
    ultimately show ?thesis
      using run ok Inr dirs.lookup_enter [OF assms(3) link_slot_ok p(1,2) assms(5)]
        dirs.inv_enter [OF assms(3) link_slot_ok p(1,2) assms(5)] res by simp
  next
    case (Inl e)
    then show ?thesis
      using run ok res assms(3) by (cases "dir_lookup ?ds name") (auto split: if_splits)
  qed
qed

theorem sfs_dir_link_correct_witness:
  "(\<exists>slot s'. sfs_dir_link 0 [98] 5 sfsd = Some (Inr slot, s') \<and> dir_lookup (dents s' 0) [98] = Some (5, slot)) \<and>
   (\<exists>s'. sfs_dir_link 0 [97] 5 sfsd = Some (Inl EEXIST, s')) \<and>
   (\<exists>s'. sfs_dir_link 0 [98] 5 sfsd_full = Some (Inl ENOSPC, s'))"
proof (intro conjI)
  have mx: "64 * nentries sfsd 0 + 64 \<le> 73216" by (simp add: sfsd_dir(3))
  note linked = sfs_dir_link_correct [OF sfsd_dir(1,2) sfsd_unique, of 0 5]
  obtain r s' where r: "sfs_dir_link 0 [98] 5 sfsd = Some (r, s')" "r \<notin> Inl ` {EEXIST, ENAMETOOLONG, ENOSPC}"
    "\<forall>e. r = Inl e \<longrightarrow> e \<in> {EEXIST, ENAMETOOLONG, ENOSPC}"
    "dir_lookup (dents s' 0) = (case r of
        Inr slot \<Rightarrow> (dir_lookup (dents sfsd 0))([98] := Some (5, slot)) | Inl _ \<Rightarrow> dir_lookup (dents sfsd 0))"
    using linked [of "[98]"] mx by (auto simp: sfsd_lookup)
  then show "\<exists>slot s'. sfs_dir_link 0 [98] 5 sfsd = Some (Inr slot, s') \<and> dir_lookup (dents s' 0) [98] = Some (5, slot)"
    by (cases r) auto
  show "\<exists>s'. sfs_dir_link 0 [97] 5 sfsd = Some (Inl EEXIST, s')"
    using linked [of "[97]"] mx by (auto simp: sfsd_lookup)
  have "dir_lookup [] [98] = None" "last_free [] = None"
    by (simp_all add: dir_lookup_def hits_def last_free_def frees_def)
  then show "\<exists>s'. sfs_dir_link 0 [98] 5 sfsd_full = Some (Inl ENOSPC, s')"
    using sfs_dir_link_correct [OF sfsd_full_dir(1-3), of 0 5 "[98]"] by (auto simp: sfsd_full_dir)
qed

text \<open>
  C14: Unlinking. Clearing the slot at which a name was found removes exactly that name from
  the directory; it cannot fail, and no other file changes.
\<close>

theorem sfs_dir_unlink_correct:
  assumes "dir_ok vn s" "dir_room k vn s" "unique_names (dents s vn)" "dir_lookup (dents s vn) name = Some (ino, slot)"
  shows "\<exists>s'. sfs_dir_unlink vn slot s = Some (Inr (), s') \<and> dir_ok vn s' \<and> dir_step vn s s' \<and> unique_names (dents s' vn) \<and>
    dir_lookup (dents s' vn) = (dir_lookup (dents s vn))(name := None)"
proof -
  have slot: "slot < nentries s vn" using assms(4) lookup_Some [OF assms(3)] by simp
  obtain s' where "sfs_dir_unlink vn slot s = Some (Inr (), s')" "dir_ok vn s'" "dir_step vn s s'"
    "dents s' vn = dir_remove (dents s vn) slot"
    using unlink_spec [OF assms(1,2) slot] by (auto simp: wp_def)
  then show ?thesis
    using dirs.lookup_remove [OF assms(3,4)] dirs.inv_remove [OF assms(3,4)] by simp
qed

theorem sfs_dir_unlink_correct_witness:
  "\<exists>s'. sfs_dir_unlink 0 0 sfsd = Some (Inr (), s') \<and> dir_lookup (dents s' 0) [97] = None"
  using sfs_dir_unlink_correct [OF sfsd_dir(1,2) sfsd_unique sfsd_lookup(1), of 0] by auto

end
