(* ===== verification/Sfs_Inode.thy ===== *)
theory Sfs_Inode
  imports Sfs_Dir
begin

text \<open>
  Vnodes of the Simple File System: the reference and open counts of \<open>kern/vfs/vnode.c\<close>, and from
  \<open>kern/fs/sfs/sfs_vnode.c\<close> loading an inode into the table of vnodes, creating an object,
  truncating a file and reclaiming a vnode.

  \<open>vnode_heap\<close> stands for kernel memory: \<open>kmalloc(sizeof(struct sfs_vnode))\<close> hands out an address
  that no vnode of the table has. Each allocation consumes one outcome of \<open>env_malloc\<close>; the
  allocations inside \<open>lock_create\<close> and \<open>vnodearray_add\<close> count as one each.
\<close>

section \<open>Allocation of kernel memory\<close>

definition kmallocP :: "(sfs_fs, bool) proc" where
  "kmallocP =
     bindP (getP (\<lambda>s. case env_malloc s of [] \<Rightarrow> True | ok # _ \<Rightarrow> ok)) (\<lambda>ok.
     bindP (modP (\<lambda>s. s\<lparr>env_malloc := tl (env_malloc s)\<rparr>)) (\<lambda>_. retP ok))"

definition vnode_ptr :: "sfs_fs \<Rightarrow> nat" where
  "vnode_ptr s = Suc (foldr max (sfs_vnodes s) 0)"

section \<open>Counts\<close>

definition vnode_check :: "nat \<Rightarrow> string \<Rightarrow> (sfs_fs, unit) proc" where
  "vnode_check vn opstr =
     bindP (getP (\<lambda>s. vn_refcount (vnode_heap s vn))) (\<lambda>refcount.
     if refcount = 0 \<and> opstr \<noteq> ''reclaim'' then panicP else retP ())"

definition vnode_init :: "nat \<Rightarrow> sfs_ops \<Rightarrow> (sfs_fs, unit) proc" where
  "vnode_init vn ops =
     bindP (modP (upd_vnode vn (\<lambda>sv. sv\<lparr>vn_ops := ops, vn_refcount := 1, vn_opencount := 0\<rparr>))) (\<lambda>_.
     bindP kmallocP (\<lambda>rwlock. if \<not> rwlock then throwP ENOMEM else
     bindP kmallocP (\<lambda>createlock. if \<not> createlock then throwP ENOMEM else
     bindP kmallocP (\<lambda>countlock. if \<not> countlock then throwP ENOMEM else
     retP ()))))"

definition vnode_cleanup :: "nat \<Rightarrow> (sfs_fs, unit) proc" where
  "vnode_cleanup vn =
     bindP (getP (\<lambda>s. vnode_heap s vn)) (\<lambda>sv.
     bindP (assertP (vn_refcount sv = 1)) (\<lambda>_.
     bindP (assertP (vn_opencount sv = 0)) (\<lambda>_.
     modP (upd_vnode vn (\<lambda>sv. sv\<lparr>vn_refcount := 0, vn_opencount := 0\<rparr>)))))"

definition vnode_incref :: "nat \<Rightarrow> (sfs_fs, unit) proc" where
  "vnode_incref vn = modP (upd_vnode vn (\<lambda>sv. sv\<lparr>vn_refcount := vn_refcount sv + 1\<rparr>))"

definition vnode_incopen :: "nat \<Rightarrow> (sfs_fs, unit) proc" where
  "vnode_incopen vn = modP (upd_vnode vn (\<lambda>sv. sv\<lparr>vn_opencount := vn_opencount sv + 1\<rparr>))"

section \<open>Loading\<close>

text \<open>The search of the table.\<close>

fun load_scan :: "nat \<Rightarrow> nat list \<Rightarrow> (sfs_fs, nat option) proc" where
  "load_scan ino [] = retP None"
| "load_scan ino (vn # vs) =
     bindP (getP (\<lambda>s. sv_ino (vnode_heap s vn))) (\<lambda>i.
     bindP (sfs_bused i) (\<lambda>used.
     if \<not> used then panicP
     else if i = ino then retP (Some vn)
     else load_scan ino vs))"

text \<open>The function table for an inode type; other types stop the kernel.\<close>

definition type_ops :: "nat \<Rightarrow> sfs_ops option" where
  "type_ops t = (if t = SFS_TYPE_FILE then Some sfs_fileops
     else if t = SFS_TYPE_DIR then Some sfs_dirops else None)"

text \<open>
  The rest of \<open>sfs_loadvnode\<close>, for an inode that is not in the table: reading it, and from
  \<open>VOP_INIT\<close> on entering it into the table.
\<close>

definition load_enter :: "nat \<Rightarrow> nat \<Rightarrow> sfs_ops \<Rightarrow> (sfs_fs, nat) proc" where
  "load_enter ino sv ops =
     bindP (vnode_init sv ops) (\<lambda>_.
     bindP (modP (upd_vnode sv (\<lambda>v. v\<lparr>sv_ino := ino\<rparr>))) (\<lambda>_.
     bindP kmallocP (\<lambda>ok.
     if \<not> ok then bindP (vnode_cleanup sv) (\<lambda>_. throwP ENOMEM)
     else
       bindP (modP (\<lambda>s. s\<lparr>sfs_vnodes := sfs_vnodes s @ [sv]\<rparr>)) (\<lambda>_.
       retP sv))))"

definition load_new :: "nat \<Rightarrow> nat \<Rightarrow> (sfs_fs, nat) proc" where
  "load_new ino forcetype =
     bindP kmallocP (\<lambda>ok. if \<not> ok then throwP ENOMEM else
     bindP (getP vnode_ptr) (\<lambda>sv.
     bindP (sfs_bused ino) (\<lambda>used. if \<not> used then panicP else
     bindP (sfs_rblock ino) (\<lambda>blk.
     bindP (modP (upd_vnode sv (\<lambda>v. v\<lparr>sv_i := dec_inode blk, sv_dirty := False\<rparr>))) (\<lambda>_.
     bindP (if forcetype \<noteq> SFS_TYPE_INVAL then
              bindP (assertP (sfi_type (dec_inode blk) = SFS_TYPE_INVAL)) (\<lambda>_.
              modP (upd_inode sv (\<lambda>i. i\<lparr>sfi_type := forcetype\<rparr>)))
            else retP ()) (\<lambda>_.
     bindP (getP (\<lambda>s. sfi_type (sv_i (vnode_heap s sv)))) (\<lambda>type.
     bindP (optP (type_ops type)) (\<lambda>ops.
     load_enter ino sv ops))))))))"

definition sfs_loadvnode :: "nat \<Rightarrow> nat \<Rightarrow> (sfs_fs, nat) proc" where
  "sfs_loadvnode ino forcetype =
     bindP (getP sfs_vnodes) (\<lambda>vs.
     bindP (load_scan ino vs) (\<lambda>found.
     case found of
       Some vn \<Rightarrow>
         bindP (assertP (forcetype = SFS_TYPE_INVAL)) (\<lambda>_.
         bindP (vnode_incref vn) (\<lambda>_. retP vn))
     | None \<Rightarrow> load_new ino forcetype))"

definition sfs_makeobj :: "nat \<Rightarrow> (sfs_fs, nat) proc" where
  "sfs_makeobj type = bindP sfs_balloc (\<lambda>ino. sfs_loadvnode ino type)"

definition sfs_lookonce :: "nat \<Rightarrow> name \<Rightarrow> (sfs_fs, nat \<times> nat) proc" where
  "sfs_lookonce vn name =
     bindP (sfs_dir_findname vn name) (\<lambda>(found, _).
     case found of
       None \<Rightarrow> throwP ENOENT
     | Some (ino, slot) \<Rightarrow>
         bindP (sfs_loadvnode ino SFS_TYPE_INVAL) (\<lambda>v.
         bindP (getP (\<lambda>s. sfi_linkcount (sv_i (vnode_heap s v)))) (\<lambda>linkcount.
         if linkcount = 0 then panicP else retP (v, slot))))"

definition sfs_getroot :: "(sfs_fs, nat) proc" where
  "sfs_getroot = tryP (sfs_loadvnode SFS_ROOT_LOCATION SFS_TYPE_INVAL) (\<lambda>result.
     case result of Inl _ \<Rightarrow> panicP | Inr vn \<Rightarrow> retP vn)"

section \<open>Truncating\<close>

text \<open>The quotient of C's division, which rounds towards zero, as a \<open>uint32_t\<close>.\<close>

definition trunc_blocklen :: "int \<Rightarrow> nat" where
  "trunc_blocklen len =
     (let n = len + 511 in to_u32 (if n < 0 then - (- n div 512) else n div 512))"

definition trunc_direct :: "nat \<Rightarrow> nat \<Rightarrow> nat \<Rightarrow> (sfs_fs, unit) proc" where
  "trunc_direct vn blocklen i =
     bindP (getP (\<lambda>s. sfi_direct (sv_i (vnode_heap s vn)))) (\<lambda>direct.
     bindP (optP (aget direct i)) (\<lambda>block.
     if i \<ge> blocklen \<and> block \<noteq> 0 then
       bindP (sfs_bfree block) (\<lambda>_.
       modP (upd_inode vn (\<lambda>inode. inode\<lparr>sfi_direct := (sfi_direct inode)[i := 0]\<rparr>)))
     else retP ()))"

text \<open>The loop over the indirect block: the buffer, \<open>hasnonzero\<close> and \<open>iddirty\<close>.\<close>

fun trunc_scan :: "nat \<Rightarrow> nat list \<Rightarrow> nat list \<Rightarrow> bool \<Rightarrow> bool \<Rightarrow>
    (sfs_fs, nat list \<times> bool \<times> bool) proc" where
  "trunc_scan blocklen [] idbuf hasnonzero iddirty = retP (idbuf, hasnonzero, iddirty)"
| "trunc_scan blocklen (j # js) idbuf hasnonzero iddirty =
     bindP (optP (aget idbuf j)) (\<lambda>block.
     if blocklen < SFS_NDIRECT + j \<and> block \<noteq> 0 then
       bindP (sfs_bfree block) (\<lambda>_. trunc_scan blocklen js (idbuf[j := 0]) hasnonzero True)
     else trunc_scan blocklen js idbuf (hasnonzero \<or> block \<noteq> 0) iddirty)"

text \<open>What happens to the indirect block after the loop.\<close>

definition trunc_finish :: "nat \<Rightarrow> nat \<Rightarrow> nat list \<times> bool \<times> bool \<Rightarrow> (sfs_fs, unit) proc" where
  "trunc_finish vn idblock = (\<lambda>(idbuf, hasnonzero, iddirty).
     if \<not> hasnonzero then
       bindP (sfs_bfree idblock) (\<lambda>_.
       modP (upd_inode vn (\<lambda>i. i\<lparr>sfi_indirect := 0\<rparr>)))
     else if iddirty then sfs_wblock (enc_words idbuf) idblock
     else retP ())"

definition trunc_indirect :: "nat \<Rightarrow> nat \<Rightarrow> (sfs_fs, unit) proc" where
  "trunc_indirect vn blocklen =
     bindP (getP (\<lambda>s. sfi_indirect (sv_i (vnode_heap s vn)))) (\<lambda>idblock.
     let highblock = SFS_NDIRECT + SFS_DBPERIDB - 1 in
     if blocklen < highblock \<and> idblock \<noteq> 0 then
       bindP (sfs_rblock idblock) (\<lambda>blk.
       bindP (trunc_scan blocklen [0..<SFS_DBPERIDB] (dec_words SFS_DBPERIDB blk) False False)
         (trunc_finish vn idblock))
     else retP ())"

definition sfs_truncate :: "nat \<Rightarrow> int \<Rightarrow> (sfs_fs, unit) proc" where
  "sfs_truncate vn len =
     (let blocklen = trunc_blocklen len in
      bindP (forP [0..<SFS_NDIRECT] (trunc_direct vn blocklen)) (\<lambda>_.
      bindP (trunc_indirect vn blocklen) (\<lambda>_.
      modP (upd_inode vn (\<lambda>i. i\<lparr>sfi_size := to_u32 len\<rparr>)))))"

section \<open>Reclaiming\<close>

text \<open>\<open>VOP_TRUNCATE\<close> and \<open>VOP_FSYNC\<close> through the function tables.\<close>

definition vop_truncate :: "nat \<Rightarrow> int \<Rightarrow> (sfs_fs, unit) proc" where
  "vop_truncate vn len =
     bindP (vnode_check vn ''truncate'') (\<lambda>_.
     bindP (getP (\<lambda>s. vn_ops (vnode_heap s vn))) (\<lambda>ops.
     case ops of sfs_fileops \<Rightarrow> sfs_truncate vn len | sfs_dirops \<Rightarrow> throwP EISDIR))"

definition sfs_fsync :: "nat \<Rightarrow> (sfs_fs, unit) proc" where
  "sfs_fsync vn = sfs_sync_inode vn"

definition vop_fsync :: "nat \<Rightarrow> (sfs_fs, unit) proc" where
  "vop_fsync vn = bindP (vnode_check vn ''fsync'') (\<lambda>_. sfs_fsync vn)"

definition sfs_close :: "nat \<Rightarrow> (sfs_fs, unit) proc" where
  "sfs_close vn = vop_fsync vn"

text \<open>The end of \<open>sfs_reclaim\<close>, from the release of the inode on.\<close>

definition reclaim_discard :: "nat \<Rightarrow> (sfs_fs, unit) proc" where
  "reclaim_discard vn =
     bindP (getP (\<lambda>s. vnode_heap s vn)) (\<lambda>sv.
     bindP (if sfi_linkcount (sv_i sv) = 0 then sfs_bfree (sv_ino sv) else retP ()) (\<lambda>_.
     bindP (getP sfs_vnodes) (\<lambda>vs.
     if vn \<notin> set vs then panicP
     else
       bindP (modP (\<lambda>s. s\<lparr>sfs_vnodes := remove1 vn vs\<rparr>)) (\<lambda>_.
       vnode_cleanup vn))))"

definition sfs_reclaim :: "nat \<Rightarrow> (sfs_fs, unit) proc" where
  "sfs_reclaim vn =
     bindP (getP (\<lambda>s. vnode_heap s vn)) (\<lambda>sv.
     if vn_refcount sv \<noteq> 1 then
       bindP (assertP (vn_refcount sv > 1)) (\<lambda>_.
       bindP (modP (upd_vnode vn (\<lambda>sv. sv\<lparr>vn_refcount := vn_refcount sv - 1\<rparr>))) (\<lambda>_.
       throwP EBUSY))
     else
       bindP (if sfi_linkcount (sv_i sv) = 0 then vop_truncate vn 0 else retP ()) (\<lambda>_.
       bindP (sfs_sync_inode vn) (\<lambda>_.
       reclaim_discard vn)))"

definition vnode_decref :: "nat \<Rightarrow> (sfs_fs, unit) proc" where
  "vnode_decref vn =
     bindP (getP (\<lambda>s. vn_refcount (vnode_heap s vn))) (\<lambda>refcount.
     bindP (assertP (refcount > 0)) (\<lambda>_.
     if refcount > 1 then modP (upd_vnode vn (\<lambda>sv. sv\<lparr>vn_refcount := vn_refcount sv - 1\<rparr>))
     else
       bindP (vnode_check vn ''reclaim'') (\<lambda>_.
       tryP (sfs_reclaim vn) (\<lambda>result. retP ()))))"

definition vnode_decopen :: "nat \<Rightarrow> (sfs_fs, unit) proc" where
  "vnode_decopen vn =
     bindP (getP (\<lambda>s. vn_opencount (vnode_heap s vn))) (\<lambda>opencount.
     bindP (assertP (opencount > 0)) (\<lambda>_.
     bindP (modP (upd_vnode vn (\<lambda>sv. sv\<lparr>vn_opencount := vn_opencount sv - 1\<rparr>))) (\<lambda>_.
     if opencount - 1 > 0 then retP ()
     else
       bindP (vnode_check vn ''close'') (\<lambda>_.
       tryP (sfs_close vn) (\<lambda>result. retP ())))))"

section \<open>Truncation gives blocks back\<close>

lemma bind_run:
  "bindP (getP f) g s = g (f s) s" "bindP (modP h) g' s = g' () (h s)" "bindP (retP x) k s = k x s"
  by (simp_all add: bindP_def getP_def modP_def retP_def)

text \<open>
  A step that only takes blocks away from file \<open>vn\<close>: each block pointer stays or becomes 0, the
  blocks whose pointers are gone are free, and nothing else changes.
\<close>

definition nonzero :: "nat list \<Rightarrow> nat list" where
  "nonzero xs = filter (\<lambda>b. b \<noteq> 0) xs"

definition fewer :: "nat list \<Rightarrow> nat list \<Rightarrow> bool" where
  "fewer = list_all2 (\<lambda>x y. y = x \<or> y = 0)"

lemma fewer_refl [simp]: "fewer xs xs"
  by (simp add: fewer_def list_all2_refl)

lemma fewer_trans: "fewer xs ys \<Longrightarrow> fewer ys zs \<Longrightarrow> fewer xs zs"
  unfolding fewer_def
  by (rule list_all2_trans [of "\<lambda>x y. y = x \<or> y = 0" "\<lambda>x y. y = x \<or> y = 0"]) auto

lemma fewer_update: "fewer xs (xs[k := 0])"
  by (cases "k < length xs") (auto simp: fewer_def list_all2_conv_all_nth nth_list_update)

lemma fewer_map: "(\<And>x. f x = x \<or> f x = 0) \<Longrightarrow> fewer xs (map f xs)"
  by (simp add: fewer_def list_all2_conv_all_nth)

lemma fewer_nonzero:
  assumes "fewer xs ys"
  shows "set (nonzero ys) \<subseteq> set (nonzero xs)" "distinct (nonzero xs) \<Longrightarrow> distinct (nonzero ys)"
  using assms unfolding fewer_def
  by (induction rule: list_all2_induct) (auto simp: nonzero_def split: if_splits)

definition trunc_step :: "nat \<Rightarrow> sfs_fs \<Rightarrow> sfs_fs \<Rightarrow> bool" where
  "trunc_step vn s s' \<longleftrightarrow> fs_ok s' \<and> file_ok s' vn \<and> same_rest s s' \<and>
     (\<forall>w. w \<noteq> vn \<longrightarrow> vnode_heap s' w = vnode_heap s w) \<and>
     meta (vnode_heap s' vn) = meta (vnode_heap s vn) \<and>
     fewer (cells s vn) (cells s' vn) \<and>
     used (sfs_freemap s') = used (sfs_freemap s) - (set (owned s vn) - set (owned s' vn)) \<and>
     (\<forall>c. c \<notin> set (owned s vn) \<longrightarrow> disk s' c = disk s c)"

lemma owned_nonzero: "owned s vn = nonzero (cells s vn)"
  by (simp add: owned_def nonzero_def)

lemma trunc_step_owned: "trunc_step vn s s' \<Longrightarrow> set (owned s' vn) \<subseteq> set (owned s vn)"
  using fewer_nonzero(1) by (simp add: trunc_step_def owned_nonzero)

lemma trunc_step_refl: "fs_ok s \<Longrightarrow> file_ok s vn \<Longrightarrow> trunc_step vn s s"
  by (simp add: trunc_step_def)

lemma trunc_step_trans:
  assumes "trunc_step vn s s'" "trunc_step vn s' s''"
  shows "trunc_step vn s s''"
proof -
  have o: "set (owned s' vn) \<subseteq> set (owned s vn)" "set (owned s'' vn) \<subseteq> set (owned s' vn)"
    using assms trunc_step_owned by blast+
  have "used (sfs_freemap s'') = used (sfs_freemap s) - (set (owned s vn) - set (owned s'' vn))"
    using assms o unfolding trunc_step_def by blast
  moreover have "disk s'' c = disk s c" if "c \<notin> set (owned s vn)" for c
    using assms o(1) that unfolding trunc_step_def by (metis subsetD)
  ultimately show ?thesis
    using assms fewer_trans same_rest_trans [of s s' s''] by (simp add: trunc_step_def) blast
qed

lemma file_ok_fewer:
  assumes "file_ok s vn" "fewer (cells s vn) (cells s' vn)" "inode_wf (sv_i (vnode_heap s' vn))"
    and "used (sfs_freemap s') = used (sfs_freemap s) - (set (owned s vn) - set (owned s' vn))"
    and "sfs_super s' = sfs_super s"
  shows "file_ok s' vn"
  using assms fewer_nonzero [OF assms(2)] unfolding file_ok_def owned_nonzero by auto

text \<open>Only the free map has changed, and exactly the blocks of \<open>X\<close> have become free.\<close>

definition freed :: "nat set \<Rightarrow> sfs_fs \<Rightarrow> sfs_fs \<Rightarrow> bool" where
  "freed X s s' \<longleftrightarrow> fs_ok s' \<and> used (sfs_freemap s') = used (sfs_freemap s) - X \<and>
     (\<exists>fm fd. s' = s\<lparr>sfs_freemap := fm, sfs_freemapdirty := fd\<rparr>)"

lemma freed_refl: "fs_ok s \<Longrightarrow> freed {} s s"
  by (cases s) (auto simp: freed_def)

lemma freed_trans: "freed X s s' \<Longrightarrow> freed Y s' s'' \<Longrightarrow> freed (X \<union> Y) s s''"
  by (auto simp: freed_def) blast

lemma freed_sel:
  assumes "freed X s s'"
  shows "disk s' = disk s" "sfs_device s' = sfs_device s" "vnode_heap s' = vnode_heap s" "sfs_super s' = sfs_super s"
    "same_rest s s'" "fs_ok s'" "used (sfs_freemap s') = used (sfs_freemap s) - X"
    "id_entries s' = id_entries s" "blocks s' = blocks s" "cells s' = cells s" "owned s' = owned s"
  using assms by (auto simp: freed_def same_rest_def id_entries_def blocks_def cells_def owned_def fun_eq_iff Let_def)

lemma bfree_freed:
  assumes "fs_ok s" "b \<in> used (sfs_freemap s)" "b \<noteq> 0" "b < sp_nblocks (sfs_super s)"
  shows "wp (sfs_bfree b) (\<lambda>r s'. r = Inr () \<and> freed {b} s s') s"
  using bfree_spec [OF assms] by (auto simp: wp_def freed_def) blast

lemma direct_nth:
  assumes "file_ok s vn" "i < SFS_NDIRECT" "sfi_direct (sv_i (vnode_heap s vn)) ! i = b" "b \<noteq> 0"
  shows "b \<in> used (sfs_freemap s)" "b < sp_nblocks (sfs_super s)" "b \<in> set (owned s vn)"
proof -
  have "b \<in> set (cells s vn)"
    using assms length_cells(3) [OF assms(1)] by (auto simp: cells_def blocks_def)
  then show "b \<in> used (sfs_freemap s)" "b < sp_nblocks (sfs_super s)" "b \<in> set (owned s vn)"
    using cell_ok [OF assms(1) _ assms(4)] assms(4) by (simp_all add: owned_cells)
qed

lemma nonzero_update:
  assumes "distinct (nonzero xs)" "k < length xs" "xs ! k \<noteq> 0"
  shows "set (nonzero (xs[k := 0])) = set (nonzero xs) - {xs ! k}"
proof -
  have "nonzero xs = nonzero (take k xs) @ xs ! k # nonzero (drop (Suc k) xs)"
    using arg_cong [OF id_take_nth_drop [OF assms(2)], of nonzero] assms(3) by (simp add: nonzero_def)
  moreover have "nonzero (xs[k := 0]) = nonzero (take k xs) @ nonzero (drop (Suc k) xs)"
    using upd_conv_take_nth_drop [OF assms(2)] by (simp add: nonzero_def)
  ultimately show ?thesis using assms(1) by auto
qed

text \<open>The indirect block and its entries are untouched.\<close>

definition same_indirect :: "nat \<Rightarrow> sfs_fs \<Rightarrow> sfs_fs \<Rightarrow> bool" where
  "same_indirect vn s s' \<longleftrightarrow> sfi_indirect (sv_i (vnode_heap s' vn)) = sfi_indirect (sv_i (vnode_heap s vn)) \<and>
     disk s' = disk s"

lemma trunc_direct_spec:
  assumes ok: "fs_ok s" "file_ok s vn" and i: "i < SFS_NDIRECT"
  shows "wp (trunc_direct vn bl i) (\<lambda>r s'. r = Inr () \<and> trunc_step vn s s' \<and> same_indirect vn s s' \<and>
    sfi_direct (sv_i (vnode_heap s' vn)) =
      (if bl \<le> i then (sfi_direct (sv_i (vnode_heap s vn)))[i := 0] else sfi_direct (sv_i (vnode_heap s vn)))) s"
proof -
  let ?dir = "sfi_direct (sv_i (vnode_heap s vn))"
  have len: "length ?dir = SFS_NDIRECT" by (rule length_cells(3) [OF ok(2)])
  show ?thesis
  proof (cases "bl \<le> i \<and> ?dir ! i \<noteq> 0")
    case False
    then have "bl \<le> i \<Longrightarrow> ?dir[i := 0] = ?dir" using list_update_id [of ?dir i] by auto
    with False show ?thesis
      using len i trunc_step_refl [OF ok] by (simp add: trunc_direct_def wp_simps same_indirect_def)
  next
    case True
    have b: "?dir ! i \<in> used (sfs_freemap s)" "?dir ! i < sp_nblocks (sfs_super s)" "?dir ! i \<noteq> 0"
      "?dir ! i \<in> set (owned s vn)"
      using direct_nth [OF ok(2) i refl] True by blast+
    have post: "trunc_step vn s s'" "same_indirect vn s s'" "sfi_direct (sv_i (vnode_heap s' vn)) = ?dir[i := 0]"
      if fr: "freed {?dir ! i} s s1"
        and s': "s' = upd_inode vn (\<lambda>inode. inode\<lparr>sfi_direct := (sfi_direct inode)[i := 0]\<rparr>) s1" for s1 s'
    proof -
      note f = freed_sel [OF fr]
      have ie: "id_entries s' vn = id_entries s vn" unfolding s' using f by (simp add: id_entries_def Let_def)
      have c: "cells s' vn = (cells s vn)[Suc i := 0]"
        using ie len i f(3) unfolding cells_def blocks_def s' by (simp add: list_update_append)
      have own: "set (owned s' vn) = set (owned s vn) - {?dir ! i}"
        using nonzero_update [of "cells s vn" "Suc i"] ok(2) i True length_cells(2) [OF ok(2)] len
        unfolding owned_nonzero c file_ok_def by (simp add: cells_def blocks_def nth_append)
      have u: "used (sfs_freemap s') = used (sfs_freemap s) - (set (owned s vn) - set (owned s' vn))"
        unfolding s' using f(7) own b(4) unfolding s' by auto
      have "inode_wf (sv_i (vnode_heap s' vn))"
        using ok(2) f(3) unfolding s' by (auto simp: file_ok_def inode_wf_def dest: set_update_subset_insert [THEN subsetD])
      then have "file_ok s' vn"
        using file_ok_fewer [OF ok(2) _ _ u] c fewer_update f(4) unfolding s' by simp
      then show "trunc_step vn s s'"
        using f c u fewer_update unfolding trunc_step_def s' by simp
      show "same_indirect vn s s'" "sfi_direct (sv_i (vnode_heap s' vn)) = ?dir[i := 0]"
        using f by (simp_all add: same_indirect_def s')
    qed
    show ?thesis
      using len i True post
      by (auto simp: trunc_direct_def wp_simps intro!: wp_mono [OF bfree_freed [OF ok(1) b(1,3,2)]])
  qed
qed

lemma trunc_direct_loop:
  assumes ok: "fs_ok s" "file_ok s vn"
  shows "wp (forP [0..<SFS_NDIRECT] (trunc_direct vn bl)) (\<lambda>r s'. r = Inr () \<and> trunc_step vn s s' \<and>
    same_indirect vn s s' \<and> (\<forall>n<SFS_NDIRECT. sfi_direct (sv_i (vnode_heap s' vn)) ! n =
      (if bl \<le> n then 0 else sfi_direct (sv_i (vnode_heap s vn)) ! n))) s"
proof -
  let ?I = "\<lambda>pre s'. trunc_step vn s s' \<and> same_indirect vn s s' \<and>
    (\<forall>n<SFS_NDIRECT. sfi_direct (sv_i (vnode_heap s' vn)) ! n =
      (if n \<in> set pre \<and> bl \<le> n then 0 else sfi_direct (sv_i (vnode_heap s vn)) ! n))"
  have "wp (forP [0..<SFS_NDIRECT] (trunc_direct vn bl))
      (\<lambda>r s'. case r of Inl e \<Rightarrow> False | Inr _ \<Rightarrow> ?I [0..<SFS_NDIRECT] s') s"
  proof (rule wp_for)
    show "?I [] s" using trunc_step_refl [OF ok] by (simp add: same_indirect_def)
    fix pre i rest s1 assume upt: "[0..<SFS_NDIRECT] = pre @ i # rest" and I: "?I pre s1"
    have "i \<in> set [0..<SFS_NDIRECT]" unfolding upt by simp
    then have i: "i < SFS_NDIRECT" by simp
    have ok1: "fs_ok s1" "file_ok s1 vn" using I by (simp_all add: trunc_step_def)
    show "wp (trunc_direct vn bl i) (\<lambda>r s'. case r of Inl e \<Rightarrow> False | Inr _ \<Rightarrow> ?I (pre @ [i]) s') s1"
    proof (rule wp_mono [OF trunc_direct_spec [OF ok1 i, of bl]], elim conjE)
      fix r s'
      assume r: "r = Inr ()" and st: "trunc_step vn s1 s'" "same_indirect vn s1 s'"
        and d: "sfi_direct (sv_i (vnode_heap s' vn)) = (if bl \<le> i then (sfi_direct (sv_i (vnode_heap s1 vn)))[i := 0]
          else sfi_direct (sv_i (vnode_heap s1 vn)))"
      have "trunc_step vn s s'" using I st(1) trunc_step_trans by blast
      moreover have "same_indirect vn s s'" using I st(2) by (simp add: same_indirect_def)
      moreover have "\<forall>n<SFS_NDIRECT. sfi_direct (sv_i (vnode_heap s' vn)) ! n =
          (if n \<in> set (pre @ [i]) \<and> bl \<le> n then 0 else sfi_direct (sv_i (vnode_heap s vn)) ! n)"
        using I d i length_cells(3) [OF ok1(2)] by (auto simp: nth_list_update)
      ultimately show "case r of Inl e \<Rightarrow> False | Inr _ \<Rightarrow> ?I (pre @ [i]) s'" using r by simp
    qed
  qed
  then show ?thesis by (rule wp_mono) (auto split: sum.splits)
qed

text \<open>The outcome of the loop over the entries \<open>js\<close> of the indirect block.\<close>

definition cut :: "nat \<Rightarrow> nat \<Rightarrow> bool" where
  "cut bl j \<longleftrightarrow> bl < SFS_NDIRECT + j"

definition cut_blocks :: "nat \<Rightarrow> nat list \<Rightarrow> nat list \<Rightarrow> nat set" where
  "cut_blocks bl js idbuf = (\<lambda>j. idbuf ! j) ` {j \<in> set js. cut bl j} - {0}"

definition scan_ok :: "nat list \<Rightarrow> nat list \<Rightarrow> sfs_fs \<Rightarrow> bool" where
  "scan_ok js idbuf s \<longleftrightarrow> fs_ok s \<and> distinct js \<and> (\<forall>j\<in>set js. j < length idbuf \<and>
     (idbuf ! j \<noteq> 0 \<longrightarrow> idbuf ! j \<in> used (sfs_freemap s) \<and> idbuf ! j < sp_nblocks (sfs_super s) \<and>
        (\<forall>i\<in>set js. idbuf ! i = idbuf ! j \<longrightarrow> i = j)))"

definition scan_post :: "nat \<Rightarrow> nat list \<Rightarrow> nat list \<Rightarrow> bool \<Rightarrow> bool \<Rightarrow> sfs_fs \<Rightarrow>
    errno + nat list \<times> bool \<times> bool \<Rightarrow> sfs_fs \<Rightarrow> bool" where
  "scan_post bl js idbuf h d s r s' \<longleftrightarrow>
     (\<exists>idbuf'. r = Inr (idbuf', h \<or> (\<exists>j\<in>set js. \<not> cut bl j \<and> idbuf ! j \<noteq> 0),
                                d \<or> (\<exists>j\<in>set js. cut bl j \<and> idbuf ! j \<noteq> 0)) \<and>
        freed (cut_blocks bl js idbuf) s s' \<and> length idbuf' = length idbuf \<and>
        (\<forall>j<length idbuf. idbuf' ! j = (if j \<in> set js \<and> cut bl j then 0 else idbuf ! j)))"

lemma scan_postI:
  assumes "r = Inr (idbuf', h', d')" "h' \<longleftrightarrow> h \<or> (\<exists>j\<in>set js. \<not> cut bl j \<and> idbuf ! j \<noteq> 0)"
    and "d' \<longleftrightarrow> d \<or> (\<exists>j\<in>set js. cut bl j \<and> idbuf ! j \<noteq> 0)" "freed X s s'" "X = cut_blocks bl js idbuf"
    and "length idbuf' = length idbuf"
    and "\<And>j. j < length idbuf \<Longrightarrow> idbuf' ! j = (if j \<in> set js \<and> cut bl j then 0 else idbuf ! j)"
  shows "scan_post bl js idbuf h d s r s'"
  using assms unfolding scan_post_def by blast

lemma scan_postE:
  assumes "scan_post bl js idbuf h d s r s'"
  obtains idbuf' where
    "r = Inr (idbuf', h \<or> (\<exists>j\<in>set js. \<not> cut bl j \<and> idbuf ! j \<noteq> 0), d \<or> (\<exists>j\<in>set js. cut bl j \<and> idbuf ! j \<noteq> 0))"
    "freed (cut_blocks bl js idbuf) s s'" "length idbuf' = length idbuf"
    "\<And>j. j < length idbuf \<Longrightarrow> idbuf' ! j = (if j \<in> set js \<and> cut bl j then 0 else idbuf ! j)"
  using assms unfolding scan_post_def by blast

lemma scan_post_keep:
  assumes "scan_post bl js idbuf (h \<or> idbuf ! j \<noteq> 0) d s r s'" "cut bl j \<longrightarrow> idbuf ! j = 0"
  shows "scan_post bl (j # js) idbuf h d s r s'"
  using assms(1)
proof (rule scan_postE)
  fix idbuf' assume r: "r = Inr (idbuf', (h \<or> idbuf ! j \<noteq> 0) \<or> (\<exists>j\<in>set js. \<not> cut bl j \<and> idbuf ! j \<noteq> 0),
      d \<or> (\<exists>j\<in>set js. cut bl j \<and> idbuf ! j \<noteq> 0))"
    and p: "freed (cut_blocks bl js idbuf) s s'" "length idbuf' = length idbuf"
    and nth: "\<And>j. j < length idbuf \<Longrightarrow> idbuf' ! j = (if j \<in> set js \<and> cut bl j then 0 else idbuf ! j)"
  show ?thesis
  proof (rule scan_postI [OF r _ _ p(1) _ p(2)])
    fix i assume "i < length idbuf"
    then show "idbuf' ! i = (if i \<in> set (j # js) \<and> cut bl i then 0 else idbuf ! i)"
      using nth assms(2) by auto
  qed (use assms(2) in \<open>auto simp: cut_blocks_def\<close>)
qed

lemma scan_post_cut:
  assumes fr: "freed {idbuf ! j} s s1" and post: "scan_post bl js (idbuf[j := 0]) h True s1 r s'"
    and j: "j \<notin> set js" "cut bl j" "idbuf ! j \<noteq> 0" "j < length idbuf"
  shows "scan_post bl (j # js) idbuf h d s r s'"
  using post
proof (rule scan_postE)
  let ?new = "idbuf[j := 0]"
  have same: "?new ! i = idbuf ! i" if "i \<in> set js" for i using that j(1) by (cases "i = j") auto
  fix idbuf' assume r: "r = Inr (idbuf', h \<or> (\<exists>j\<in>set js. \<not> cut bl j \<and> ?new ! j \<noteq> 0),
      True \<or> (\<exists>j\<in>set js. cut bl j \<and> ?new ! j \<noteq> 0))"
    and p: "freed (cut_blocks bl js ?new) s1 s'" "length idbuf' = length ?new"
    and nth: "\<And>j. j < length ?new \<Longrightarrow> idbuf' ! j = (if j \<in> set js \<and> cut bl j then 0 else ?new ! j)"
  show ?thesis
  proof (rule scan_postI [OF r _ _ freed_trans [OF fr p(1)]])
    show "{idbuf ! j} \<union> cut_blocks bl js ?new = cut_blocks bl (j # js) idbuf"
      using same j by (auto simp: cut_blocks_def)
    show "length idbuf' = length idbuf" using p(2) by simp
    fix i assume "i < length idbuf"
    then show "idbuf' ! i = (if i \<in> set (j # js) \<and> cut bl i then 0 else idbuf ! i)"
      using nth [of i] j same by (cases "i = j") auto
  qed (use same j in auto)
qed

lemma scan_ok_cut:
  assumes "scan_ok (j # js) idbuf s" "freed {idbuf ! j} s s1" "idbuf ! j \<noteq> 0"
  shows "scan_ok js (idbuf[j := 0]) s1"
proof -
  note f = freed_sel [OF assms(2)]
  have j: "j \<notin> set js" using assms(1) by (simp add: scan_ok_def)
  have same: "idbuf[j := 0] ! i = idbuf ! i" if "i \<in> set js" for i using that j by (cases "i = j") auto
  have ne: "idbuf ! i \<noteq> idbuf ! j" if "i \<in> set js" for i
    using assms(1,3) that j unfolding scan_ok_def by auto
  show ?thesis unfolding scan_ok_def
    using f(6) assms(1) same ne f(4,7) unfolding scan_ok_def by auto
qed

lemma trunc_scan_spec:
  assumes "scan_ok js idbuf s"
  shows "wp (trunc_scan bl js idbuf h d) (scan_post bl js idbuf h d s) s"
  using assms
proof (induction js arbitrary: idbuf h d s)
  case Nil
  then show ?case using freed_refl [of s] by (simp add: wp_simps scan_post_def cut_blocks_def scan_ok_def)
next
  case (Cons j js)
  have j: "j < length idbuf" "fs_ok s" "j \<notin> set js" using Cons.prems by (simp_all add: scan_ok_def)
  show ?case
  proof (cases "cut bl j \<and> idbuf ! j \<noteq> 0")
    case False
    have "scan_ok js idbuf s" using Cons.prems by (simp add: scan_ok_def)
    then have "wp (trunc_scan bl js idbuf (h \<or> idbuf ! j \<noteq> 0) d) (scan_post bl (j # js) idbuf h d s) s"
      using False by (intro wp_mono [OF Cons.IH] scan_post_keep) auto
    moreover have "trunc_scan bl (j # js) idbuf h d = trunc_scan bl js idbuf (h \<or> idbuf ! j \<noteq> 0) d"
      using False j(1) by (auto simp: optP_def bindP_def retP_def cut_def)
    ultimately show ?thesis by simp
  next
    case True
    then have b: "idbuf ! j \<in> used (sfs_freemap s)" "idbuf ! j \<noteq> 0" "idbuf ! j < sp_nblocks (sfs_super s)"
      using Cons.prems by (simp_all add: scan_ok_def)
    have eq: "trunc_scan bl (j # js) idbuf h d =
        bindP (sfs_bfree (idbuf ! j)) (\<lambda>_. trunc_scan bl js (idbuf[j := 0]) h True)"
      using True j(1) by (auto simp: optP_def bindP_def retP_def cut_def)
    show ?thesis unfolding eq
    proof (rule wp_call [OF bfree_freed [OF j(2) b]])
      fix x s1 assume "Inr x = Inr () \<and> freed {idbuf ! j} s s1"
      then have fr: "freed {idbuf ! j} s s1" by simp
      show "wp (trunc_scan bl js (idbuf[j := 0]) h True) (scan_post bl (j # js) idbuf h d s) s1"
        using True b(2) j by (intro wp_mono [OF Cons.IH] scan_ok_cut [OF Cons.prems fr] scan_post_cut [OF fr]) auto
    qed simp
  qed
qed

lemma nonzero_inj:
  assumes "distinct (nonzero xs)" "i < length xs" "j < length xs" "xs ! i = xs ! j" "xs ! j \<noteq> 0"
  shows "i = j"
proof (rule ccontr)
  assume "i \<noteq> j"
  then consider "i < j" | "j < i" by linarith
  then show False
    using filter_dup [of i j xs "\<lambda>b. b \<noteq> 0"] filter_dup [of j i xs "\<lambda>b. b \<noteq> 0"] assms
    by cases (simp_all add: nonzero_def)
qed

lemma fewer_gone:
  assumes "fewer xs ys" "distinct (nonzero xs)"
  shows "set (nonzero xs) - set (nonzero ys) = {b. \<exists>k<length xs. b = xs ! k \<and> b \<noteq> 0 \<and> ys ! k = 0}" (is "?L = ?R")
proof
  have nth: "length ys = length xs" "\<And>k. k < length xs \<Longrightarrow> ys ! k = xs ! k \<or> ys ! k = 0"
    using assms(1) by (simp_all add: fewer_def list_all2_conv_all_nth)
  show "?L \<subseteq> ?R"
  proof
    fix b assume b: "b \<in> ?L"
    then obtain k where k: "k < length xs" "b = xs ! k" "b \<noteq> 0" by (auto simp: nonzero_def in_set_conv_nth)
    have "ys ! k \<in> set ys" using k(1) nth(1) by simp
    then have "ys ! k = 0" using b k nth(2) [OF k(1)] by (auto simp: nonzero_def)
    with k show "b \<in> ?R" by blast
  qed
  show "?R \<subseteq> ?L"
  proof
    fix b assume "b \<in> ?R"
    then obtain k where k: "k < length xs" "b = xs ! k" "b \<noteq> 0" "ys ! k = 0" by blast
    have "b \<notin> set (nonzero ys)"
    proof
      assume "b \<in> set (nonzero ys)"
      then obtain j where j: "j < length xs" "b = ys ! j" by (auto simp: nonzero_def in_set_conv_nth nth(1))
      then have "xs ! j = xs ! k" using nth(2) [OF j(1)] k by auto
      then have "j = k" using nonzero_inj [OF assms(2) j(1) k(1)] k by simp
      then show False using j k by simp
    qed
    then show "b \<in> ?L" using k by (auto simp: nonzero_def)
  qed
qed

lemma trunc_stepI:
  assumes ok: "file_ok s vn" and st: "fs_ok s'" "same_rest s s'" "\<forall>w. w \<noteq> vn \<longrightarrow> vnode_heap s' w = vnode_heap s w"
    "meta (vnode_heap s' vn) = meta (vnode_heap s vn)" "inode_wf (sv_i (vnode_heap s' vn))"
    "\<forall>c. c \<notin> set (owned s vn) \<longrightarrow> disk s' c = disk s c"
    and c: "fewer (cells s vn) (cells s' vn)"
    and u: "used (sfs_freemap s') = used (sfs_freemap s) -
      {b. \<exists>k<length (cells s vn). b = cells s vn ! k \<and> b \<noteq> 0 \<and> cells s' vn ! k = 0}"
  shows "trunc_step vn s s'"
proof -
  have "distinct (nonzero (cells s vn))" using ok by (simp add: file_ok_def owned_nonzero)
  then have u': "used (sfs_freemap s') = used (sfs_freemap s) - (set (owned s vn) - set (owned s' vn))"
    using u fewer_gone [OF c] by (simp add: owned_nonzero)
  have "sfs_super s' = sfs_super s" using st(2) by (simp add: same_rest_def)
  then have "file_ok s' vn" using file_ok_fewer [OF ok c st(5) u'] by simp
  then show ?thesis using st c u' by (simp add: trunc_step_def)
qed

lemma id_entries_scan:
  assumes ok: "fs_ok s" "file_ok s vn" and t: "touched s s1"
  shows "scan_ok [0..<SFS_DBPERIDB] (id_entries s vn) s1"
proof -
  note t' = touched_sel [OF t]
  have d: "distinct (nonzero (id_entries s vn))"
    using ok(2) by (simp add: file_ok_def owned_nonzero cells_def blocks_def nonzero_def split: if_splits)
  have inj: "i = j" if "i < SFS_DBPERIDB" "j < SFS_DBPERIDB" "id_entries s vn ! j \<noteq> 0"
      "id_entries s vn ! i = id_entries s vn ! j" for i j
    using nonzero_inj [OF d, of i j] that length_cells(4) [OF ok(2)] by simp
  have "id_entries s vn ! j \<in> set (cells s vn)" if "j < SFS_DBPERIDB" for j
    using that length_cells(4) [OF ok(2)] by (simp add: cells_def blocks_def)
  then show ?thesis
    using cell_ok [OF ok(2)] inj t'(4,6,11) ok length_cells(4) [OF ok(2)] by (auto simp: scan_ok_def)
qed

lemma cells_nth:
  assumes "file_ok s vn"
  shows "cells s vn ! 0 = sfi_indirect (sv_i (vnode_heap s vn))"
    "n < SFS_NDIRECT \<Longrightarrow> cells s vn ! Suc n = sfi_direct (sv_i (vnode_heap s vn)) ! n"
    "j < SFS_DBPERIDB \<Longrightarrow> cells s vn ! (16 + j) = id_entries s vn ! j"
  using length_cells [OF assms] by (simp_all add: cells_def blocks_def nth_append)

lemma cells_split:
  assumes "k < 144"
  obtains "k = 0" | n where "k = Suc n" "n < SFS_NDIRECT" | j where "k = 16 + j" "j < SFS_DBPERIDB"
proof (cases k)
  case (Suc n)
  show thesis
  proof (cases "n < SFS_NDIRECT")
    case False
    then have "k = 16 + (k - 16)" "k - 16 < SFS_DBPERIDB" using assms Suc by simp_all
    then show thesis by (rule that(3))
  qed (use Suc that(2) in blast)
qed (use that(1) in blast)

text \<open>A step that cuts entries off the indirect block, and drops that block when none is left.\<close>

lemma trunc_step_indirect:
  assumes ok: "fs_ok s" "file_ok s vn" and ib: "sfi_indirect (sv_i (vnode_heap s vn)) = ib" "ib \<noteq> 0"
    and st: "fs_ok s'" "same_rest s s'" "\<forall>w. w \<noteq> vn \<longrightarrow> vnode_heap s' w = vnode_heap s w"
      "meta (vnode_heap s' vn) = meta (vnode_heap s vn)" "inode_wf (sv_i (vnode_heap s' vn))"
      "\<forall>c. c \<noteq> ib \<longrightarrow> disk s' c = disk s c"
    and dir: "sfi_direct (sv_i (vnode_heap s' vn)) = sfi_direct (sv_i (vnode_heap s vn))"
    and ib': "sfi_indirect (sv_i (vnode_heap s' vn)) = (if gone then 0 else ib)"
    and ents: "\<forall>j<SFS_DBPERIDB. id_entries s' vn ! j = (if cut bl j then 0 else id_entries s vn ! j)"
    and u: "used (sfs_freemap s') = used (sfs_freemap s) - cut_blocks bl [0..<SFS_DBPERIDB] (id_entries s vn) -
      (if gone then {ib} else {})"
  shows "trunc_step vn s s'"
proof (rule trunc_stepI [OF ok(2) st(1-5)])
  note len = length_cells [OF ok(2)]
  have len': "length (cells s' vn) = 144"
    using st(5) by (simp add: cells_def blocks_def inode_wf_def id_entries_def Let_def)
  have c': "cells s' vn ! 0 = (if gone then 0 else ib)"
    "n < SFS_NDIRECT \<Longrightarrow> cells s' vn ! Suc n = cells s vn ! Suc n"
    "j < SFS_DBPERIDB \<Longrightarrow> cells s' vn ! (16 + j) = (if cut bl j then 0 else id_entries s vn ! j)" for n j
    using ib' ents dir len(3) cells_nth [OF ok(2)] by (auto simp: cells_def blocks_def nth_append)
  have pt: "cells s' vn ! k = cells s vn ! k \<or> cells s' vn ! k = 0" if "k < 144" for k
    using that
  proof (cases rule: cells_split)
    case 1 then show ?thesis using c'(1) cells_nth(1) [OF ok(2)] ib by auto
  next
    case 2 then show ?thesis using c'(2) by auto
  next
    case 3 then show ?thesis using c'(3) cells_nth(3) [OF ok(2)] by auto
  qed
  then show "fewer (cells s vn) (cells s' vn)"
    using len(2) len' by (simp add: fewer_def list_all2_conv_all_nth)
  show "\<forall>c. c \<notin> set (owned s vn) \<longrightarrow> disk s' c = disk s c"
    using st(6) ib by (auto simp: owned_cells cells_def)
  have "(b \<in> cut_blocks bl [0..<SFS_DBPERIDB] (id_entries s vn) \<or> gone \<and> b = ib) \<longleftrightarrow>
      (\<exists>k<144. b = cells s vn ! k \<and> b \<noteq> 0 \<and> cells s' vn ! k = 0)" for b
  proof
    assume "b \<in> cut_blocks bl [0..<SFS_DBPERIDB] (id_entries s vn) \<or> gone \<and> b = ib"
    then consider j where "j < SFS_DBPERIDB" "cut bl j" "b = id_entries s vn ! j" "b \<noteq> 0" | "gone" "b = ib"
      by (auto simp: cut_blocks_def)
    then show "\<exists>k<144. b = cells s vn ! k \<and> b \<noteq> 0 \<and> cells s' vn ! k = 0"
    proof cases
      case 1 then show ?thesis using c'(3) cells_nth(3) [OF ok(2)] by (intro exI [of _ "16 + j"]) simp
    next
      case 2 then show ?thesis using c'(1) cells_nth(1) [OF ok(2)] ib by (intro exI [of _ 0]) simp
    qed
  next
    assume "\<exists>k<144. b = cells s vn ! k \<and> b \<noteq> 0 \<and> cells s' vn ! k = 0"
    then obtain k where k: "k < 144" "b = cells s vn ! k" "b \<noteq> 0" "cells s' vn ! k = 0" by blast
    from k(1) show "b \<in> cut_blocks bl [0..<SFS_DBPERIDB] (id_entries s vn) \<or> gone \<and> b = ib"
    proof (cases rule: cells_split)
      case 1 then show ?thesis using k c'(1) cells_nth(1) [OF ok(2)] ib by (auto split: if_splits)
    next
      case 2 then show ?thesis using k c'(2) by auto
    next
      case (3 j) then show ?thesis using k c'(3) cells_nth(3) [OF ok(2)] by (auto simp: cut_blocks_def split: if_splits)
    qed
  qed
  then show "used (sfs_freemap s') = used (sfs_freemap s) -
      {b. \<exists>k<length (cells s vn). b = cells s vn ! k \<and> b \<noteq> 0 \<and> cells s' vn ! k = 0}"
    unfolding u len(2) by auto
qed

definition cut_post :: "nat \<Rightarrow> nat \<Rightarrow> sfs_fs \<Rightarrow> sfs_fs \<Rightarrow> bool" where
  "cut_post vn bl s s' \<longleftrightarrow> trunc_step vn s s' \<and>
     sfi_direct (sv_i (vnode_heap s' vn)) = sfi_direct (sv_i (vnode_heap s vn)) \<and>
     (\<forall>j<SFS_DBPERIDB. id_entries s' vn ! j = (if cut bl j then 0 else id_entries s vn ! j)) \<and>
     (bl < SFS_NDIRECT \<longrightarrow> sfi_indirect (sv_i (vnode_heap s' vn)) = 0)"

lemma cut_post_drop:
  assumes ok: "fs_ok s" "file_ok s vn" and ib: "sfi_indirect (sv_i (vnode_heap s vn)) = ib" "ib \<noteq> 0"
    and t: "touched s s1" and f1: "freed (cut_blocks bl [0..<SFS_DBPERIDB] (id_entries s vn)) s1 s2"
    and none: "\<forall>j<SFS_DBPERIDB. cut bl j \<or> id_entries s vn ! j = 0" and f2: "freed {ib} s2 s3"
  shows "cut_post vn bl s (upd_inode vn (\<lambda>i. i\<lparr>sfi_indirect := 0\<rparr>) s3)" (is "cut_post vn bl s ?s")
proof -
  note f1' = freed_sel [OF f1] and f2' = freed_sel [OF f2] and t' = touched_sel [OF t]
  have h: "vnode_heap s3 = vnode_heap s" using f1' f2' t' by simp
  have rest: "same_rest s s3" using same_rest_trans f1'(5) f2'(5) t'(2) by blast
  have e: "\<forall>j<SFS_DBPERIDB. id_entries ?s vn ! j = (if cut bl j then 0 else id_entries s vn ! j)"
    using none by (auto simp: id_entries_def)
  have "inode_wf (sv_i (vnode_heap ?s vn))" using ok(2) h by (simp add: file_ok_def inode_wf_def)
  then have "trunc_step vn s ?s"
    using f1' f2' t' h rest e ib by (intro trunc_step_indirect [OF ok ib, where gone = True and bl = bl]) auto
  then show ?thesis using e h by (simp add: cut_post_def)
qed

lemma cut_post_write:
  assumes ok: "fs_ok s" "file_ok s vn" and ib: "sfi_indirect (sv_i (vnode_heap s vn)) = ib" "ib \<noteq> 0"
    and t: "touched s s1" and f1: "freed (cut_blocks bl [0..<SFS_DBPERIDB] (id_entries s vn)) s1 s2"
    and d: "dev_ok d" "lh_d_blocks d = lh_d_blocks (sfs_device s2)" "\<forall>c. c \<noteq> ib \<longrightarrow> lh_sectors d c = disk s c"
      "\<forall>j<SFS_DBPERIDB. dec_words SFS_DBPERIDB (lh_sectors d ib) ! j = (if cut bl j then 0 else id_entries s vn ! j)"
    and some: "\<not> bl < SFS_NDIRECT"
  shows "cut_post vn bl s (s2\<lparr>sfs_device := d\<rparr>)" (is "cut_post vn bl s ?s")
proof -
  note f1' = freed_sel [OF f1] and t' = touched_sel [OF t]
  have h: "vnode_heap ?s = vnode_heap s" using f1' t' by simp
  have rest: "same_rest s ?s" using same_rest_trans [OF t'(2) f1'(5)] by (simp add: same_rest_def)
  have e: "\<forall>j<SFS_DBPERIDB. id_entries ?s vn ! j = (if cut bl j then 0 else id_entries s vn ! j)"
    using d(4) h ib by (simp add: id_entries_def Let_def)
  have "inode_wf (sv_i (vnode_heap ?s vn))" using ok(2) h by (simp add: file_ok_def)
  moreover have "fs_ok ?s" using f1'(6) d(1,2) by (simp add: fs_ok_def)
  ultimately have "trunc_step vn s ?s"
    using f1' t' h rest e ib d(3) by (intro trunc_step_indirect [OF ok ib, where gone = False and bl = bl]) auto
  then show ?thesis using e h some by (simp add: cut_post_def)
qed

lemma cut_post_same:
  assumes ok: "fs_ok s" "file_ok s vn" and ib: "sfi_indirect (sv_i (vnode_heap s vn)) = ib" "ib \<noteq> 0"
    and t: "touched s s1" and f1: "freed (cut_blocks bl [0..<SFS_DBPERIDB] (id_entries s vn)) s1 s2"
    and c: "\<not> (\<exists>j\<in>set [0..<SFS_DBPERIDB]. cut bl j \<and> id_entries s vn ! j \<noteq> 0)"
      "\<exists>j\<in>set [0..<SFS_DBPERIDB]. \<not> cut bl j \<and> id_entries s vn ! j \<noteq> 0"
  shows "cut_post vn bl s s2"
proof -
  note f1' = freed_sel [OF f1] and t' = touched_sel [OF t]
  have "fs_ok s2" "\<not> bl < SFS_NDIRECT" using f1'(6) c(2) by (auto simp: cut_def)
  then have "cut_post vn bl s (s2\<lparr>sfs_device := sfs_device s2\<rparr>)"
    using f1' t' c ib by (intro cut_post_write [OF ok ib t f1]) (auto simp: fs_ok_def id_entries_def)
  then show ?thesis by simp
qed

lemma cut_sector:
  assumes ok: "fs_ok s" "file_ok s vn" and idb: "\<forall>j<SFS_DBPERIDB. idbuf ! j = (if cut bl j then 0 else id_entries s vn ! j)"
    "length idbuf = SFS_DBPERIDB" and d: "\<And>c. disk s2 c = disk s c" "lh_sectors d = (disk s2)(ib := enc_words idbuf)"
  shows "\<forall>c. c \<noteq> ib \<longrightarrow> lh_sectors d c = disk s c"
    "\<forall>j<SFS_DBPERIDB. dec_words SFS_DBPERIDB (lh_sectors d ib) ! j = (if cut bl j then 0 else id_entries s vn ! j)"
proof -
  have "id_entries s vn ! j < 2 ^ 32" if "j < SFS_DBPERIDB" for j
    using bspec [OF id_entry_bound [OF ok] nth_mem] length_cells(4) [OF ok(2)] that by simp
  then have "\<forall>w\<in>set idbuf. w < 2 ^ 32" using idb by (auto simp: in_set_conv_nth)
  then show "\<forall>j<SFS_DBPERIDB. dec_words SFS_DBPERIDB (lh_sectors d ib) ! j = (if cut bl j then 0 else id_entries s vn ! j)"
    using dec_enc_words [of idbuf 128 "[]"] idb d(2) by simp
  show "\<forall>c. c \<noteq> ib \<longrightarrow> lh_sectors d c = disk s c" using d by simp
qed

lemma trunc_finish_spec:
  assumes ok: "fs_ok s" "file_ok s vn" and ib: "sfi_indirect (sv_i (vnode_heap s vn)) = ib" "ib \<noteq> 0"
    and t: "touched s s1"
    and post: "scan_post bl [0..<SFS_DBPERIDB] (id_entries s vn) False False s1 (Inr x) s2"
  shows "wp (trunc_finish vn ib x) (\<lambda>r s'. r = Inr () \<and> cut_post vn bl s s') s2"
  using post
proof (rule scan_postE)
  let ?js = "[0..<SFS_DBPERIDB]" and ?id = "id_entries s vn"
  fix idbuf' assume x: "Inr x = Inr (idbuf', False \<or> (\<exists>j\<in>set ?js. \<not> cut bl j \<and> ?id ! j \<noteq> 0),
        False \<or> (\<exists>j\<in>set ?js. cut bl j \<and> ?id ! j \<noteq> 0))"
    and f1: "freed (cut_blocks bl ?js ?id) s1 s2" and idb: "length idbuf' = length ?id"
      "\<And>j. j < length ?id \<Longrightarrow> idbuf' ! j = (if j \<in> set ?js \<and> cut bl j then 0 else ?id ! j)"
  note f1' = freed_sel [OF f1] and t' = touched_sel [OF t]
  have ibok: "ib \<in> used (sfs_freemap s)" "ib < sp_nblocks (sfs_super s)"
    using cell_ok [OF ok(2), of ib] ib by (simp_all add: cells_def)
  have "ib \<notin> cut_blocks bl ?js ?id"
    using ok(2) ib length_cells(4) [OF ok(2)]
    by (auto simp: cut_blocks_def file_ok_def owned_def cells_def blocks_def)
  then have ib2: "fs_ok s2" "ib \<in> used (sfs_freemap s2)" "ib \<noteq> 0" "ib < sp_nblocks (sfs_super s2)"
    using f1' t' ibok ib by simp_all
  have len: "length ?id = SFS_DBPERIDB" "length idbuf' = SFS_DBPERIDB" using length_cells(4) [OF ok(2)] idb by simp_all
  have idb': "\<forall>j<SFS_DBPERIDB. idbuf' ! j = (if cut bl j then 0 else ?id ! j)" using idb len by simp
  note sec = cut_sector [OF ok idb' len(2) fun_cong [OF trans [OF f1'(1) t'(1)]]]
  consider (none) "\<not> (\<exists>j\<in>set ?js. \<not> cut bl j \<and> ?id ! j \<noteq> 0)"
    | (dirty) "\<exists>j\<in>set ?js. \<not> cut bl j \<and> ?id ! j \<noteq> 0" "\<exists>j\<in>set ?js. cut bl j \<and> ?id ! j \<noteq> 0"
    | (clean) "\<exists>j\<in>set ?js. \<not> cut bl j \<and> ?id ! j \<noteq> 0" "\<not> (\<exists>j\<in>set ?js. cut bl j \<and> ?id ! j \<noteq> 0)"
    by blast
  then show ?thesis
  proof cases
    case none
    then have x': "x = (idbuf', False, \<exists>j\<in>set ?js. cut bl j \<and> ?id ! j \<noteq> 0)"
      and n: "\<forall>j<SFS_DBPERIDB. cut bl j \<or> ?id ! j = 0" using x by auto
    show ?thesis unfolding x' trunc_finish_def prod.case
      using wp_mono [OF bfree_freed [OF ib2]] cut_post_drop [OF ok ib t f1 n] by (auto simp: wp_simps)
  next
    case dirty
    then have x': "x = (idbuf', True, True)" using x by simp
    have "wp (sfs_wblock (enc_words idbuf') ib) (\<lambda>r s'. r = Inr () \<and> cut_post vn bl s s') s2"
    proof (rule wp_wblock)
      show "dev_ok (sfs_device s2)" "ib < lh_d_blocks (sfs_device s2)" "length (enc_words idbuf') = SFS_BLOCKSIZE"
        using fs_okD(1,4) [OF ib2(1)] ib2(4) len by simp_all
      fix d' assume d: "dev_ok d'" "lh_sectors d' = (disk s2)(ib := enc_words idbuf')"
        "lh_d_blocks d' = lh_d_blocks (sfs_device s2)"
      show "Inr () = Inr () \<and> cut_post vn bl s (s2\<lparr>sfs_device := d'\<rparr>)"
        using cut_post_write [OF ok ib t f1 d(1,3) sec [OF d(2)]] dirty(1) by (auto simp: cut_def)
    qed
    then show ?thesis by (simp add: x' trunc_finish_def)
  next
    case clean
    then have x': "x = (idbuf', True, False)" using x by simp
    show ?thesis unfolding x' trunc_finish_def prod.case using cut_post_same [OF ok ib t f1] clean by (simp add: wp_simps)
  qed
qed

lemma trunc_indirect_spec:
  assumes ok: "fs_ok s" "file_ok s vn"
  shows "wp (trunc_indirect vn bl) (\<lambda>r s'. r = Inr () \<and> cut_post vn bl s s') s"
proof (cases "bl < SFS_NDIRECT + SFS_DBPERIDB - 1 \<and> sfi_indirect (sv_i (vnode_heap s vn)) \<noteq> 0")
  case False
  have "id_entries s vn ! j = (if cut bl j then 0 else id_entries s vn ! j)" if "j < SFS_DBPERIDB" for j
    using False that by (auto simp: cut_def id_entries_def)
  then have "cut_post vn bl s s" using trunc_step_refl [OF ok] False by (auto simp: cut_post_def)
  then show ?thesis using False by (auto simp: trunc_indirect_def wp_simps)
next
  case True
  define ib where "ib = sfi_indirect (sv_i (vnode_heap s vn))"
  have ib: "sfi_indirect (sv_i (vnode_heap s vn)) = ib" "ib \<noteq> 0" using True by (simp_all add: ib_def)
  have ibok: "ib < sp_nblocks (sfs_super s)"
    using cell_ok [OF ok(2), of ib] ib by (simp_all add: cells_def)
  have ents: "dec_words SFS_DBPERIDB (disk s ib) = id_entries s vn" using ib by (simp add: id_entries_def)
  let ?m = "bindP (sfs_rblock ib) (\<lambda>blk. bindP (trunc_scan bl [0..<SFS_DBPERIDB] (dec_words SFS_DBPERIDB blk) False False)
       (trunc_finish vn ib))" and ?Q = "\<lambda>r s'. r = Inr () \<and> cut_post vn bl s s'"
  have "wp ?m ?Q s"
  proof (rule wp_call [where P = "\<lambda>r s'. r = Inr (disk s ib) \<and> touched s s'"])
    show "wp (sfs_rblock ib) (\<lambda>r s'. r = Inr (disk s ib) \<and> touched s s') s"
      using ok(1) ibok by (intro wp_rblock_touched) auto
    fix blk s1 assume a: "Inr blk = Inr (disk s ib) \<and> touched s s1"
    then have t: "touched s s1" and blk: "dec_words SFS_DBPERIDB blk = id_entries s vn" using ents by auto
    show "wp (bindP (trunc_scan bl [0..<SFS_DBPERIDB] (dec_words SFS_DBPERIDB blk) False False) (trunc_finish vn ib)) ?Q s1"
      unfolding blk
      by (rule wp_call [OF trunc_scan_spec [OF id_entries_scan [OF ok t]]])
        (auto simp: scan_post_def intro: trunc_finish_spec [OF ok ib t])
  qed auto
  moreover have "trunc_indirect vn bl s = ?m s"
    using True ib by (simp add: trunc_indirect_def bind_run)
  ultimately show ?thesis by (simp add: wp_def)
qed

text \<open>
  The blocks that truncation to \<open>bl\<close> blocks keeps. Among the indirect ones the comparison of the
  code also keeps the first block past the end.
\<close>

definition kept :: "nat \<Rightarrow> nat \<Rightarrow> bool" where
  "kept bl n \<longleftrightarrow> n < bl \<or> n = bl \<and> SFS_NDIRECT \<le> n"

definition set_len :: "int \<Rightarrow> sfs_vnode \<Rightarrow> sfs_vnode" where
  "set_len len sv = sv\<lparr>sv_i := (sv_i sv)\<lparr>sfi_size := to_u32 len\<rparr>, sv_dirty := True\<rparr>"

definition truncated :: "nat \<Rightarrow> int \<Rightarrow> sfs_fs \<Rightarrow> sfs_fs \<Rightarrow> bool" where
  "truncated vn len s s' \<longleftrightarrow> fs_ok s' \<and> file_ok s' vn \<and> same_rest s s' \<and>
     (\<forall>w. w \<noteq> vn \<longrightarrow> vnode_heap s' w = vnode_heap s w) \<and>
     meta (vnode_heap s' vn) = meta (set_len len (vnode_heap s vn)) \<and>
     (\<forall>n<SFS_NDIRECT + SFS_DBPERIDB. fblock s' vn n =
        (if kept (trunc_blocklen len) n then fblock s vn n else 0)) \<and>
     set (owned s' vn) \<subseteq> set (owned s vn) \<and>
     used (sfs_freemap s') = used (sfs_freemap s) - (set (owned s vn) - set (owned s' vn)) \<and>
     (trunc_blocklen len = 0 \<longrightarrow> owned s' vn = []) \<and>
     (\<forall>c. c \<notin> set (owned s vn) \<longrightarrow> disk s' c = disk s c)"

lemma fblock_nth:
  assumes "file_ok s vn"
  shows "n < SFS_NDIRECT \<Longrightarrow> fblock s vn n = sfi_direct (sv_i (vnode_heap s vn)) ! n"
    "SFS_NDIRECT \<le> n \<Longrightarrow> fblock s vn n = id_entries s vn ! (n - SFS_NDIRECT)"
  using length_cells(3) [OF assms] by (simp_all add: fblock_def blocks_def nth_append)

lemma size_cells:
  "cells (upd_inode vn (\<lambda>i. i\<lparr>sfi_size := n\<rparr>) s) vn = cells s vn"
  "fblock (upd_inode vn (\<lambda>i. i\<lparr>sfi_size := n\<rparr>) s) vn = fblock s vn"
  by (simp_all add: cells_def fblock_def blocks_def id_entries_def Let_def fun_eq_iff)

lemma truncated_size:
  assumes st: "trunc_step vn s s1" and fb: "\<forall>n<SFS_NDIRECT + SFS_DBPERIDB. fblock s1 vn n =
      (if kept (trunc_blocklen len) n then fblock s vn n else 0)"
    and ind: "trunc_blocklen len < SFS_NDIRECT \<longrightarrow> sfi_indirect (sv_i (vnode_heap s1 vn)) = 0"
  shows "truncated vn len s (upd_inode vn (\<lambda>i. i\<lparr>sfi_size := to_u32 len\<rparr>) s1)" (is "truncated vn len s ?s")
proof -
  have own: "owned ?s vn = owned s1 vn" by (simp add: owned_def size_cells)
  have "to_u32 len < 2 ^ 32" by (simp add: to_u32_def nat_less_iff)
  moreover have "file_ok s1 vn" using st by (simp add: trunc_step_def)
  ultimately have "file_ok ?s vn" using own by (simp add: file_ok_def inode_wf_def)
  moreover have "meta (vnode_heap ?s vn) = meta (set_len len (vnode_heap s vn))"
    using st by (simp add: trunc_step_def meta_def set_len_def upd_inode_def upd_vnode_def)
  moreover have "owned s1 vn = []" if "trunc_blocklen len = 0"
  proof -
    have "\<forall>b\<in>set (blocks s1 vn). b = 0"
      using fb that length_cells(1) [OF \<open>file_ok s1 vn\<close>] by (auto simp: fblock_def kept_def in_set_conv_nth)
    then show ?thesis using ind that by (simp add: owned_def cells_def filter_empty_conv)
  qed
  ultimately show ?thesis
    using st fb own trunc_step_owned [OF st] by (simp add: truncated_def trunc_step_def size_cells)
qed

lemma truncate_spec:
  assumes ok: "fs_ok s" "file_ok s vn"
  shows "wp (sfs_truncate vn len) (\<lambda>r s'. r = Inr () \<and> truncated vn len s s') s"
  unfolding sfs_truncate_def Let_def
proof (rule wp_call [OF trunc_direct_loop [OF ok, of "trunc_blocklen len"]])
  let ?bl = "trunc_blocklen len"
  fix x s1 assume "Inr x = Inr () \<and> trunc_step vn s s1 \<and> same_indirect vn s s1 \<and>
      (\<forall>n<SFS_NDIRECT. sfi_direct (sv_i (vnode_heap s1 vn)) ! n =
        (if ?bl \<le> n then 0 else sfi_direct (sv_i (vnode_heap s vn)) ! n))"
  then have st1: "trunc_step vn s s1" "same_indirect vn s s1"
    and d1: "\<forall>n<SFS_NDIRECT. sfi_direct (sv_i (vnode_heap s1 vn)) ! n =
        (if ?bl \<le> n then 0 else sfi_direct (sv_i (vnode_heap s vn)) ! n)" by blast+
  have ok1: "fs_ok s1" "file_ok s1 vn" using st1(1) by (simp_all add: trunc_step_def)
  have e1: "id_entries s1 vn = id_entries s vn"
    using st1(2) by (simp add: same_indirect_def id_entries_def Let_def)
  show "wp (bindP (trunc_indirect vn ?bl) (\<lambda>_. modP (upd_inode vn (\<lambda>i. i\<lparr>sfi_size := to_u32 len\<rparr>))))
      (\<lambda>r s'. r = Inr () \<and> truncated vn len s s') s1"
  proof (rule wp_call [OF trunc_indirect_spec [OF ok1]], simp)
    fix y s2 assume "Inr y = Inr () \<and> cut_post vn ?bl s1 s2"
    then have c: "cut_post vn ?bl s1 s2" by simp
    then have st2: "trunc_step vn s s2" using trunc_step_trans [OF st1(1)] by (simp add: cut_post_def)
    then have ok2: "file_ok s2 vn" by (simp add: trunc_step_def)
    have "fblock s2 vn n = (if kept ?bl n then fblock s vn n else 0)" if "n < SFS_NDIRECT + SFS_DBPERIDB" for n
    proof (cases "n < SFS_NDIRECT")
      case True
      then show ?thesis using c d1 fblock_nth(1) [OF ok2] fblock_nth(1) [OF ok(2)]
        by (auto simp: cut_post_def kept_def)
    next
      case False
      then show ?thesis using c e1 fblock_nth(2) [OF ok2] fblock_nth(2) [OF ok(2)] that
        by (auto simp: cut_post_def kept_def cut_def)
    qed
    then show "wp (modP (upd_inode vn (\<lambda>i. i\<lparr>sfi_size := to_u32 len\<rparr>)))
        (\<lambda>r s'. r = Inr () \<and> truncated vn len s s') s2"
      using truncated_size [OF st2] c by (simp add: wp_simps cut_post_def)
  qed
qed simp

section \<open>The table of vnodes\<close>

definition vnodes_ok :: "sfs_fs \<Rightarrow> bool" where
  "vnodes_ok s \<longleftrightarrow> distinct (sfs_vnodes s) \<and> inj_on (\<lambda>vn. sv_ino (vnode_heap s vn)) (set (sfs_vnodes s)) \<and>
     (\<forall>vn\<in>set (sfs_vnodes s). vn_refcount (vnode_heap s vn) > 0 \<and>
        sv_ino (vnode_heap s vn) \<in> used (sfs_freemap s) \<and> sv_ino (vnode_heap s vn) < sp_nblocks (sfs_super s) \<and>
        type_ops (sfi_type (sv_i (vnode_heap s vn))) = Some (vn_ops (vnode_heap s vn)))"

definition loaded :: "sfs_fs \<Rightarrow> nat \<Rightarrow> nat option" where
  "loaded s ino = List.find (\<lambda>vn. sv_ino (vnode_heap s vn) = ino) (sfs_vnodes s)"

definition malloc_ok :: "sfs_fs \<Rightarrow> bool" where
  "malloc_ok s = (case env_malloc s of [] \<Rightarrow> True | ok # _ \<Rightarrow> ok)"

lemma wp_kmalloc [wp_simps]: "wp kmallocP Q s \<longleftrightarrow> Q (Inr (malloc_ok s)) (s\<lparr>env_malloc := tl (env_malloc s)\<rparr>)"
  by (simp add: kmallocP_def wp_simps malloc_ok_def)

lemma vnode_ptr_fresh: "vnode_ptr s \<notin> set (sfs_vnodes s)"
proof -
  have "\<forall>x\<in>set xs. x \<le> foldr max xs 0" for xs :: "nat list"
    by (induction xs) (auto simp: le_max_iff_disj)
  then show ?thesis unfolding vnode_ptr_def by (metis not_less_eq_eq order_refl)
qed

lemma load_scan_run:
  assumes "fs_ok s" "\<forall>vn\<in>set vs. sv_ino (vnode_heap s vn) \<in> used (sfs_freemap s) \<and>
      sv_ino (vnode_heap s vn) < sp_nblocks (sfs_super s)"
  shows "load_scan ino vs s = Some (Inr (List.find (\<lambda>vn. sv_ino (vnode_heap s vn) = ino) vs), s)"
  using assms(2)
proof (induction vs)
  case (Cons vn vs)
  then show ?case using bused_run [OF assms(1)] by (simp add: bind_run bindP_def [of "sfs_bused b" for b] retP_def)
qed (simp add: retP_def)

lemma loaded_run:
  "fs_ok s \<Longrightarrow> vnodes_ok s \<Longrightarrow> load_scan ino (sfs_vnodes s) s = Some (Inr (loaded s ino), s)"
  unfolding loaded_def by (rule load_scan_run) (simp_all add: vnodes_ok_def)

lemma loaded_Some:
  assumes "vnodes_ok s"
  shows "loaded s ino = Some vn \<longleftrightarrow> vn \<in> set (sfs_vnodes s) \<and> sv_ino (vnode_heap s vn) = ino"
proof
  assume "loaded s ino = Some vn"
  then show "vn \<in> set (sfs_vnodes s) \<and> sv_ino (vnode_heap s vn) = ino"
    by (auto simp: loaded_def find_Some_iff)
next
  assume a: "vn \<in> set (sfs_vnodes s) \<and> sv_ino (vnode_heap s vn) = ino"
  then obtain w where w: "loaded s ino = Some w" by (cases "loaded s ino") (auto simp: loaded_def find_None_iff)
  then have "w \<in> set (sfs_vnodes s)" "sv_ino (vnode_heap s w) = ino" by (auto simp: loaded_def find_Some_iff)
  then have "w = vn" using a assms by (auto simp: vnodes_ok_def dest: inj_onD)
  with w show "loaded s ino = Some vn" by simp
qed

text \<open>
  Everything except the device registers, the outcomes of allocations and memory outside the
  table is unchanged.
\<close>

definition scrap :: "sfs_fs \<Rightarrow> sfs_fs \<Rightarrow> bool" where
  "scrap s s' \<longleftrightarrow> (\<exists>d m h. s' = s\<lparr>sfs_device := d, env_malloc := m, vnode_heap := h\<rparr> \<and> dev_ok d \<and>
     lh_sectors d = disk s \<and> lh_d_blocks d = lh_d_blocks (sfs_device s) \<and>
     (\<forall>vn\<in>set (sfs_vnodes s). h vn = vnode_heap s vn))"

definition new_vnode :: "nat \<Rightarrow> nat \<Rightarrow> sfs_inode \<Rightarrow> sfs_vnode" where
  "new_vnode ino forcetype i =
     \<lparr>vn_refcount = 1, vn_opencount = 0,
      vn_ops = the (type_ops (if forcetype = SFS_TYPE_INVAL then sfi_type i else forcetype)),
      sv_i = (if forcetype = SFS_TYPE_INVAL then i else i\<lparr>sfi_type := forcetype\<rparr>),
      sv_ino = ino, sv_dirty = (forcetype \<noteq> SFS_TYPE_INVAL)\<rparr>"

definition load_ok :: "nat \<Rightarrow> nat \<Rightarrow> sfs_fs \<Rightarrow> bool" where
  "load_ok ino forcetype s \<longleftrightarrow> ino \<in> used (sfs_freemap s) \<and> ino < sp_nblocks (sfs_super s) \<and>
     (let t = sfi_type (dec_inode (disk s ino)) in
      if forcetype = SFS_TYPE_INVAL then type_ops t \<noteq> None else t = SFS_TYPE_INVAL \<and> type_ops forcetype \<noteq> None)"

text \<open>The state while \<open>load_new\<close> fills in a fresh vnode \<open>x\<close>.\<close>

definition filling :: "sfs_fs \<Rightarrow> lhd \<Rightarrow> bool list \<Rightarrow> sfs_vnode \<Rightarrow> sfs_fs" where
  "filling s d m x = s\<lparr>sfs_device := d, env_malloc := m, vnode_heap := (vnode_heap s)(vnode_ptr s := x)\<rparr>"

lemma filling_simps [simp]:
  "upd_vnode (vnode_ptr s) f (filling s d m x) = filling s d m (f x)"
  "(filling s d m x)\<lparr>env_malloc := m'\<rparr> = filling s d m' x"
  "env_malloc (filling s d m x) = m" "vnode_heap (filling s d m x) (vnode_ptr s) = x"
  "sfs_vnodes (filling s d m x) = sfs_vnodes s"
  by (simp_all add: filling_def upd_vnode_def)

lemma filling_scrap:
  assumes "dev_ok d" "lh_sectors d = disk s" "lh_d_blocks d = lh_d_blocks (sfs_device s)"
  shows "scrap s (filling s d m x)"
  unfolding scrap_def filling_def using assms vnode_ptr_fresh [of s]
  by (intro exI [of _ d] exI [of _ m] exI [of _ "(vnode_heap s)(vnode_ptr s := x)"]) auto

lemma filling_start:
  "s\<lparr>env_malloc := m, sfs_device := d\<rparr> = filling s d m (vnode_heap s (vnode_ptr s))"
  by (simp add: filling_def)

definition load_result :: "sfs_fs \<Rightarrow> sfs_vnode \<Rightarrow> errno + nat \<Rightarrow> sfs_fs \<Rightarrow> bool" where
  "load_result s x r s' \<longleftrightarrow> (case r of
      Inl e \<Rightarrow> e = ENOMEM \<and> scrap s s'
    | Inr vn \<Rightarrow> vn = vnode_ptr s \<and> vnode_heap s' vn = x \<and>
        (\<exists>s0. scrap s s0 \<and> s' = s0\<lparr>sfs_vnodes := sfs_vnodes s @ [vn]\<rparr>))"

lemma load_enter_spec:
  assumes d: "dev_ok d" "lh_sectors d = disk s" "lh_d_blocks d = lh_d_blocks (sfs_device s)"
  shows "wp (load_enter ino (vnode_ptr s) ops)
    (load_result s (x\<lparr>vn_ops := ops, vn_refcount := 1, vn_opencount := 0, sv_ino := ino\<rparr>)) (filling s d m x)"
proof -
  have "(vnode_heap (s1\<lparr>sfs_vnodes := vs\<rparr>)) = vnode_heap s1" for s1 vs by simp
  then show ?thesis
    using filling_scrap [OF d]
    by (auto simp: load_enter_def vnode_init_def vnode_cleanup_def wp_simps load_result_def)
qed

lemma load_new_spec:
  assumes ok: "fs_ok s" and lo: "load_ok ino forcetype s"
  shows "wp (load_new ino forcetype) (load_result s (new_vnode ino forcetype (dec_inode (disk s ino)))) s"
    (is "wp _ ?Q s")
proof -
  let ?s = "s\<lparr>env_malloc := tl (env_malloc s)\<rparr>" and ?p = "vnode_ptr s" and ?i = "dec_inode (disk s ino)"
  have p: "vnode_ptr ?s = ?p" by (simp add: vnode_ptr_def)
  have ok': "fs_ok ?s" using ok by (simp add: fs_ok_def)
  have used: "wp (sfs_bused ino) Q ?s \<longleftrightarrow> Q (Inr True) ?s" for Q
    using bused_run [OF ok', of ino] lo by (simp add: load_ok_def wp_def)
  have scrap0: "scrap s ?s"
    unfolding scrap_def using ok
    by (intro exI [of _ "sfs_device s"] exI [of _ "tl (env_malloc s)"] exI [of _ "vnode_heap s"]) (simp add: fs_ok_def)
  have tail: "wp (load_enter ino ?p ops) ?Q (filling s d m (x\<lparr>sv_i := i, sv_dirty := b\<rparr>))"
    if "dev_ok d" "lh_sectors d = disk s" "lh_d_blocks d = lh_d_blocks (sfs_device s)"
      "new_vnode ino forcetype ?i = \<lparr>vn_refcount = 1, vn_opencount = 0, vn_ops = ops, sv_i = i, sv_ino = ino, sv_dirty = b\<rparr>"
    for d m x i b ops
    using load_enter_spec [OF that(1-3), of ino ops "x\<lparr>sv_i := i, sv_dirty := b\<rparr>" m] that(4) by (cases x) simp
  have "wp (bindP (sfs_rblock ino) (\<lambda>blk.
      bindP (modP (upd_vnode ?p (\<lambda>v. v\<lparr>sv_i := dec_inode blk, sv_dirty := False\<rparr>))) (\<lambda>_.
      bindP (if forcetype \<noteq> SFS_TYPE_INVAL then
               bindP (assertP (sfi_type (dec_inode blk) = SFS_TYPE_INVAL)) (\<lambda>_.
               modP (upd_inode ?p (\<lambda>i. i\<lparr>sfi_type := forcetype\<rparr>)))
             else retP ()) (\<lambda>_.
      bindP (getP (\<lambda>s. sfi_type (sv_i (vnode_heap s ?p)))) (\<lambda>type.
      bindP (optP (type_ops type)) (load_enter ino ?p)))))) ?Q ?s"
    unfolding wp_bind [of "sfs_rblock ino"]
  proof (rule wp_rblock, goal_cases)
    case (3 d)
    obtain ops where "type_ops (if forcetype = SFS_TYPE_INVAL then sfi_type ?i else forcetype) = Some ops"
      "forcetype \<noteq> SFS_TYPE_INVAL \<Longrightarrow> sfi_type ?i = SFS_TYPE_INVAL"
      using lo by (auto simp: load_ok_def Let_def split: if_splits)
    then show ?case
      using 3 tail [where d = d and ops = ops and b = "forcetype \<noteq> SFS_TYPE_INVAL"
          and i = "if forcetype = SFS_TYPE_INVAL then ?i else ?i\<lparr>sfi_type := forcetype\<rparr>"]
      by (cases "forcetype = SFS_TYPE_INVAL") (simp_all add: wp_simps filling_start upd_inode_def new_vnode_def)
  qed (use lo fs_okD(1,4) [OF ok] in \<open>simp_all add: load_ok_def\<close>)
  then show ?thesis
    unfolding load_new_def by (simp add: wp_simps p used scrap0 load_result_def [of s _ "Inl e" for e])
qed

lemma scrap_sel:
  assumes "scrap s s'"
  shows "sfs_super s' = sfs_super s" "sfs_freemap s' = sfs_freemap s" "disk s' = disk s" "sfs_rcache s' = sfs_rcache s"
    "sfs_vnodes s' = sfs_vnodes s" "vn \<in> set (sfs_vnodes s) \<Longrightarrow> vnode_heap s' vn = vnode_heap s vn"
    "fs_ok s \<Longrightarrow> fs_ok s'" "vnodes_ok s \<Longrightarrow> vnodes_ok s'"
proof -
  show "sfs_super s' = sfs_super s" "sfs_freemap s' = sfs_freemap s" "disk s' = disk s" "sfs_rcache s' = sfs_rcache s"
    and v: "sfs_vnodes s' = sfs_vnodes s"
    and h: "\<And>vn. vn \<in> set (sfs_vnodes s) \<Longrightarrow> vnode_heap s' vn = vnode_heap s vn"
    and "fs_ok s \<Longrightarrow> fs_ok s'"
    using assms by (auto simp: scrap_def fs_ok_def)
  then show "vnodes_ok s \<Longrightarrow> vnodes_ok s'"
    unfolding vnodes_ok_def v by (auto simp: h cong: inj_on_cong)
qed

definition load_post :: "nat \<Rightarrow> nat \<Rightarrow> sfs_fs \<Rightarrow> errno + nat \<Rightarrow> sfs_fs \<Rightarrow> bool" where
  "load_post ino forcetype s r s' \<longleftrightarrow> (case loaded s ino of
      Some vn \<Rightarrow> r = Inr vn \<and> s' = upd_vnode vn (\<lambda>sv. sv\<lparr>vn_refcount := vn_refcount sv + 1\<rparr>) s
    | None \<Rightarrow> load_result s (new_vnode ino forcetype (dec_inode (disk s ino))) r s')"

lemma loadvnode_spec:
  assumes ok: "fs_ok s" "vnodes_ok s" and lo: "loaded s ino = None \<Longrightarrow> load_ok ino forcetype s"
    "loaded s ino \<noteq> None \<Longrightarrow> forcetype = SFS_TYPE_INVAL"
  shows "wp (sfs_loadvnode ino forcetype) (load_post ino forcetype s) s"
proof -
  have "sfs_loadvnode ino forcetype s = (case loaded s ino of
       Some vn \<Rightarrow> bindP (assertP (forcetype = SFS_TYPE_INVAL)) (\<lambda>_. bindP (vnode_incref vn) (\<lambda>_. retP vn)) s
     | None \<Rightarrow> load_new ino forcetype s)"
    using loaded_run [OF ok, of ino]
    by (auto simp: sfs_loadvnode_def bind_run bindP_def [of "load_scan i vs" for i vs] split: option.splits)
  then have "wp (sfs_loadvnode ino forcetype) Q s = (case loaded s ino of
       Some vn \<Rightarrow> wp (bindP (assertP (forcetype = SFS_TYPE_INVAL)) (\<lambda>_. bindP (vnode_incref vn) (\<lambda>_. retP vn))) Q s
     | None \<Rightarrow> wp (load_new ino forcetype) Q s)" for Q
    by (auto simp: wp_def split: option.splits)
  then show ?thesis
    using load_new_spec [OF ok(1) lo(1)] lo(2)
    by (cases "loaded s ino") (simp_all add: wp_simps load_post_def [abs_def] vnode_incref_def)
qed

lemma upd_vnode_sel [simp]:
  "sfs_super (upd_vnode vn f s) = sfs_super s" "sfs_freemap (upd_vnode vn f s) = sfs_freemap s"
  "sfs_device (upd_vnode vn f s) = sfs_device s" "sfs_rcache (upd_vnode vn f s) = sfs_rcache s"
  "sfs_vnodes (upd_vnode vn f s) = sfs_vnodes s" "vnode_heap (upd_vnode vn f s) vn = f (vnode_heap s vn)"
  "w \<noteq> vn \<Longrightarrow> vnode_heap (upd_vnode vn f s) w = vnode_heap s w"
  "fs_ok (upd_vnode vn f s) = fs_ok s" "same_rest s (upd_vnode vn f s)"
  "same_rest s' (upd_vnode vn f s) = same_rest s' s" "env_malloc (upd_vnode vn f s) = env_malloc s"
  by (simp_all add: upd_vnode_def fs_ok_def same_rest_def)

lemma vnodes_ok_upd:
  assumes "vnodes_ok s" "vn_refcount (f (vnode_heap s vn)) > 0" "sv_ino (f (vnode_heap s vn)) = sv_ino (vnode_heap s vn)"
    "sfi_type (sv_i (f (vnode_heap s vn))) = sfi_type (sv_i (vnode_heap s vn))"
    "vn_ops (f (vnode_heap s vn)) = vn_ops (vnode_heap s vn)"
  shows "vnodes_ok (upd_vnode vn f s)"
proof -
  have same: "sv_ino (vnode_heap (upd_vnode vn f s) w) = sv_ino (vnode_heap s w)"
    "sfi_type (sv_i (vnode_heap (upd_vnode vn f s) w)) = sfi_type (sv_i (vnode_heap s w))"
    "vn_ops (vnode_heap (upd_vnode vn f s) w) = vn_ops (vnode_heap s w)"
    "vn_refcount (vnode_heap s w) > 0 \<Longrightarrow> vn_refcount (vnode_heap (upd_vnode vn f s) w) > 0" for w
    using assms(2-) by (cases "w = vn"; simp)+
  show ?thesis using assms(1) unfolding vnodes_ok_def by (simp add: same)
qed

lemma vnodes_ok_append:
  assumes ok: "vnodes_ok s" "p \<notin> set (sfs_vnodes s)" "ino \<in> used (sfs_freemap s)" "ino < sp_nblocks (sfs_super s)"
    and new: "\<And>w. w \<in> set (sfs_vnodes s) \<Longrightarrow> sv_ino (vnode_heap s w) \<noteq> ino" "sv_ino (vnode_heap s p) = ino"
      "vn_refcount (vnode_heap s p) > 0" "type_ops (sfi_type (sv_i (vnode_heap s p))) = Some (vn_ops (vnode_heap s p))"
  shows "vnodes_ok (s\<lparr>sfs_vnodes := sfs_vnodes s @ [p]\<rparr>)"
proof -
  have "ino \<notin> (\<lambda>w. sv_ino (vnode_heap s w)) ` set (sfs_vnodes s)" using new(1) by blast
  then show ?thesis using ok new(2-) by (simp add: vnodes_ok_def)
qed

lemma load_result_ok:
  assumes ok: "fs_ok s" "vnodes_ok s" and lo: "loaded s ino = None" "load_ok ino forcetype s"
    and r: "load_result s (new_vnode ino forcetype (dec_inode (disk s ino))) r s'"
  shows "fs_ok s'" "vnodes_ok s'" "sfs_super s' = sfs_super s" "sfs_freemap s' = sfs_freemap s" "disk s' = disk s"
    "sfs_rcache s' = sfs_rcache s" "\<forall>vn\<in>set (sfs_vnodes s). vnode_heap s' vn = vnode_heap s vn"
proof -
  let ?v = "new_vnode ino forcetype (dec_inode (disk s ino))"
  obtain s0 where s0: "scrap s s0" "s' = s0 \<or> s' = s0\<lparr>sfs_vnodes := sfs_vnodes s @ [vnode_ptr s]\<rparr> \<and>
      vnode_heap s' (vnode_ptr s) = ?v"
    using r by (cases r) (auto simp: load_result_def)
  note sc = scrap_sel [OF s0(1)]
  show "sfs_super s' = sfs_super s" "sfs_freemap s' = sfs_freemap s" "disk s' = disk s"
    "sfs_rcache s' = sfs_rcache s" "\<forall>vn\<in>set (sfs_vnodes s). vnode_heap s' vn = vnode_heap s vn"
    using s0(2) sc by auto
  show "fs_ok s'" using s0(2) sc(7) [OF ok(1)] by (auto simp: fs_ok_def)
  have "\<forall>w\<in>set (sfs_vnodes s). sv_ino (vnode_heap s w) \<noteq> ino"
    using lo(1) by (simp add: loaded_def find_None_iff)
  moreover have "sv_ino ?v = ino" "vn_refcount ?v = 1" "type_ops (sfi_type (sv_i ?v)) = Some (vn_ops ?v)"
    using lo(2) by (auto simp: new_vnode_def load_ok_def Let_def split: if_splits)
  ultimately show "vnodes_ok s'"
    using s0(2) sc ok(2) vnode_ptr_fresh [of s] lo(2) vnodes_ok_append [of s0 "vnode_ptr s" ino]
    by (auto simp: load_ok_def)
qed

section \<open>Writing back and reclaiming\<close>

lemma sync_spec:
  assumes ok: "fs_ok s" and i: "sv_ino (vnode_heap s vn) < sp_nblocks (sfs_super s)" "inode_wf (sv_i (vnode_heap s vn))"
  shows "wp (sfs_sync_inode vn) (\<lambda>r s'. r = Inr () \<and> fs_ok s' \<and> same_rest s s' \<and> sfs_freemap s' = sfs_freemap s \<and>
    vnode_heap s' = (vnode_heap s)(vn := (vnode_heap s vn)\<lparr>sv_dirty := False\<rparr>) \<and>
    disk s' = (if sv_dirty (vnode_heap s vn)
      then (disk s)(sv_ino (vnode_heap s vn) := enc_inode (sv_i (vnode_heap s vn))) else disk s)) s"
proof (cases "sv_dirty (vnode_heap s vn)")
  case True
  show ?thesis
    unfolding sfs_sync_inode_def wp_bind [of "getP f" for f] wp_get sum.case wp_if if_P [OF True]
      wp_bind [of "sfs_wblock d b" for d b]
  proof (rule wp_wblock, goal_cases)
    case (4 d')
    then show ?case
      using ok True by (auto simp: wp_simps upd_vnode_def fs_ok_def same_rest_def)
  qed (use fs_okD(1,4) [OF ok] i length_enc_inode in simp_all)
next
  case False
  then have "(vnode_heap s vn)\<lparr>sv_dirty := False\<rparr> = vnode_heap s vn" by (cases "vnode_heap s vn") simp
  then have eq: "(vnode_heap s)(vn := (vnode_heap s vn)\<lparr>sv_dirty := False\<rparr>) = vnode_heap s" by (rule fun_upd_idem [OF sym])
  show ?thesis unfolding eq using False ok by (simp add: sfs_sync_inode_def wp_simps)
qed

text \<open>
  A vnode that can be reclaimed: its last reference is gone, it is not open, and no inode of the
  table lies in one of its blocks.
\<close>

definition idle :: "nat \<Rightarrow> sfs_fs \<Rightarrow> bool" where
  "idle vn s \<longleftrightarrow> fs_ok s \<and> vnodes_ok s \<and> file_ok s vn \<and> vn \<in> set (sfs_vnodes s) \<and>
     vn_refcount (vnode_heap s vn) = 1 \<and> vn_opencount (vnode_heap s vn) = 0 \<and> sv_ino (vnode_heap s vn) \<noteq> 0 \<and>
     (\<forall>w\<in>set (sfs_vnodes s). sv_ino (vnode_heap s w) \<notin> set (owned s vn))"

definition reclaimed :: "nat \<Rightarrow> sfs_fs \<Rightarrow> sfs_fs \<Rightarrow> bool" where
  "reclaimed vn s s' \<longleftrightarrow> fs_ok s' \<and> vnodes_ok s' \<and> sfs_super s' = sfs_super s \<and>
     sfs_vnodes s' = remove1 vn (sfs_vnodes s) \<and> (\<forall>w. w \<noteq> vn \<longrightarrow> vnode_heap s' w = vnode_heap s w) \<and>
     (let sv = vnode_heap s vn; ino = sv_ino sv in
      if sfi_linkcount (sv_i sv) = 0
      then used (sfs_freemap s') = used (sfs_freemap s) - insert ino (set (owned s vn)) \<and>
        (\<forall>c. c \<notin> insert ino (set (owned s vn)) \<longrightarrow> disk s' c = disk s c)
      else used (sfs_freemap s') = used (sfs_freemap s) \<and>
        disk s' = (if sv_dirty sv then (disk s)(ino := enc_inode (sv_i sv)) else disk s))"

lemma vnodes_ok_remove:
  assumes ok: "vnodes_ok s" and vs: "sfs_vnodes s' = remove1 vn (sfs_vnodes s)" "sfs_super s' = sfs_super s"
    and h: "\<And>w. w \<noteq> vn \<Longrightarrow> vnode_heap s' w = vnode_heap s w"
    and u: "\<And>w. w \<in> set (sfs_vnodes s) \<Longrightarrow> w \<noteq> vn \<Longrightarrow> sv_ino (vnode_heap s w) \<in> used (sfs_freemap s')"
  shows "vnodes_ok s'"
proof -
  have set: "set (sfs_vnodes s') = set (sfs_vnodes s) - {vn}" "distinct (sfs_vnodes s')"
    using ok vs(1) by (simp_all add: vnodes_ok_def set_remove1_eq)
  have "inj_on (\<lambda>w. sv_ino (vnode_heap s' w)) (set (sfs_vnodes s'))"
    using ok h by (auto simp: set vnodes_ok_def inj_on_def)
  then show ?thesis using ok h u vs(2) set by (auto simp: vnodes_ok_def)
qed

text \<open>What \<open>sfs_reclaim\<close> does first to a vnode without links, and what it relies on afterwards.\<close>

definition cleared :: "nat \<Rightarrow> sfs_fs \<Rightarrow> sfs_fs \<Rightarrow> bool" where
  "cleared vn s s' \<longleftrightarrow> fs_ok s' \<and> same_rest s s' \<and> inode_wf (sv_i (vnode_heap s' vn)) \<and>
     (\<forall>w. w \<noteq> vn \<longrightarrow> vnode_heap s' w = vnode_heap s w) \<and>
     vn_refcount (vnode_heap s' vn) = 1 \<and> vn_opencount (vnode_heap s' vn) = 0 \<and>
     sv_ino (vnode_heap s' vn) = sv_ino (vnode_heap s vn) \<and>
     sfi_linkcount (sv_i (vnode_heap s' vn)) = sfi_linkcount (sv_i (vnode_heap s vn)) \<and>
     (if sfi_linkcount (sv_i (vnode_heap s vn)) = 0
      then used (sfs_freemap s') = used (sfs_freemap s) - set (owned s vn) \<and>
        (\<forall>c. c \<notin> set (owned s vn) \<longrightarrow> disk s' c = disk s c)
      else s' = s)"

lemma reclaim_clear:
  assumes i: "idle vn s" and ops: "sfi_linkcount (sv_i (vnode_heap s vn)) = 0 \<longrightarrow> vn_ops (vnode_heap s vn) = sfs_fileops"
  shows "wp (if sfi_linkcount (sv_i (vnode_heap s vn)) = 0 then vop_truncate vn 0 else retP ())
    (\<lambda>r s'. r = Inr () \<and> cleared vn s s') s"
proof (cases "sfi_linkcount (sv_i (vnode_heap s vn)) = 0")
  case True
  have ok: "fs_ok s" "file_ok s vn" using i by (simp_all add: idle_def)
  have bl: "trunc_blocklen 0 = 0" by (simp add: trunc_blocklen_def to_u32_def)
  have "wp (sfs_truncate vn 0) (\<lambda>r s'. r = Inr () \<and> cleared vn s s') s"
  proof (rule wp_mono [OF truncate_spec [OF ok]])
    fix r s' assume a: "r = Inr () \<and> truncated vn 0 s s'"
    then have "meta (vnode_heap s' vn) = meta (set_len 0 (vnode_heap s vn))" "file_ok s' vn" "owned s' vn = []"
      by (simp_all add: truncated_def bl)
    then show "r = Inr () \<and> cleared vn s s'"
      using a i True by (simp add: truncated_def cleared_def idle_def meta_def set_len_def file_ok_def)
  qed
  then show ?thesis
    using True ops i by (simp add: vop_truncate_def vnode_check_def wp_simps idle_def)
next
  case False
  then show ?thesis using i by (simp add: wp_simps cleared_def idle_def file_ok_def)
qed

definition discarded :: "nat \<Rightarrow> sfs_fs \<Rightarrow> sfs_fs \<Rightarrow> bool" where
  "discarded vn s s' \<longleftrightarrow> fs_ok s' \<and> sfs_super s' = sfs_super s \<and> disk s' = disk s \<and>
     sfs_vnodes s' = remove1 vn (sfs_vnodes s) \<and> (\<forall>w. w \<noteq> vn \<longrightarrow> vnode_heap s' w = vnode_heap s w) \<and>
     used (sfs_freemap s') = used (sfs_freemap s) -
       (if sfi_linkcount (sv_i (vnode_heap s vn)) = 0 then {sv_ino (vnode_heap s vn)} else {})"

lemma discard_spec:
  assumes ok: "fs_ok s" "vn \<in> set (sfs_vnodes s)" "vn_refcount (vnode_heap s vn) = 1" "vn_opencount (vnode_heap s vn) = 0"
    and ino: "sv_ino (vnode_heap s vn) \<in> used (sfs_freemap s)" "sv_ino (vnode_heap s vn) \<noteq> 0"
      "sv_ino (vnode_heap s vn) < sp_nblocks (sfs_super s)"
  shows "wp (reclaim_discard vn) (\<lambda>r s'. r = Inr () \<and> discarded vn s s') s"
  unfolding reclaim_discard_def wp_bind [of "getP (\<lambda>s. vnode_heap s vn)"] wp_get sum.case
proof (rule wp_call)
  let ?X = "if sfi_linkcount (sv_i (vnode_heap s vn)) = 0 then {sv_ino (vnode_heap s vn)} else {}"
  show "wp (if sfi_linkcount (sv_i (vnode_heap s vn)) = 0 then sfs_bfree (sv_ino (vnode_heap s vn)) else retP ())
      (\<lambda>r s'. r = Inr () \<and> freed ?X s s') s"
    using bfree_freed [OF ok(1) ino] freed_refl [OF ok(1)] by (simp add: wp_simps)
  fix x s1 assume "Inr x = Inr () \<and> freed ?X s s1"
  then have f: "freed ?X s s1" by simp
  note f' = freed_sel [OF f]
  have "sfs_vnodes s1 = sfs_vnodes s" using f'(5) by (simp add: same_rest_def)
  then show "wp (bindP (getP sfs_vnodes) (\<lambda>vs. if vn \<notin> set vs then panicP
       else bindP (modP (\<lambda>s. s\<lparr>sfs_vnodes := remove1 vn vs\<rparr>)) (\<lambda>_. vnode_cleanup vn)))
    (\<lambda>r s'. r = Inr () \<and> discarded vn s s') s1"
    using ok f'(1-7) by (simp add: wp_simps vnode_cleanup_def fs_ok_def discarded_def)
qed simp

definition synced :: "nat \<Rightarrow> sfs_fs \<Rightarrow> sfs_fs \<Rightarrow> bool" where
  "synced vn s s' \<longleftrightarrow> fs_ok s' \<and> same_rest s s' \<and> sfs_freemap s' = sfs_freemap s \<and>
    vnode_heap s' = (vnode_heap s)(vn := (vnode_heap s vn)\<lparr>sv_dirty := False\<rparr>) \<and>
    disk s' = (if sv_dirty (vnode_heap s vn)
      then (disk s)(sv_ino (vnode_heap s vn) := enc_inode (sv_i (vnode_heap s vn))) else disk s)"

lemma reclaimed_steps:
  assumes i: "idle vn s" and st: "cleared vn s s1" "synced vn s1 s2" "discarded vn s2 s'"
  shows "reclaimed vn s s'"
proof -
  let ?ino = "sv_ino (vnode_heap s vn)" and ?gone = "sfi_linkcount (sv_i (vnode_heap s vn)) = 0"
  have idle: "vnodes_ok s" "\<forall>w\<in>set (sfs_vnodes s). sv_ino (vnode_heap s w) \<notin> set (owned s vn)" "vn \<in> set (sfs_vnodes s)"
    using i by (simp_all add: idle_def)
  have vs: "sfs_vnodes s' = remove1 vn (sfs_vnodes s)" "sfs_super s' = sfs_super s" "fs_ok s'"
    and h: "\<And>w. w \<noteq> vn \<Longrightarrow> vnode_heap s' w = vnode_heap s w"
    using st by (simp_all add: cleared_def synced_def discarded_def same_rest_def)
  have u: "used (sfs_freemap s') = used (sfs_freemap s) - (if ?gone then insert ?ino (set (owned s vn)) else {})"
    using st by (auto simp: cleared_def synced_def discarded_def)
  have "vnodes_ok s'"
  proof (rule vnodes_ok_remove [OF idle(1) vs(1,2) h])
    fix w assume w: "w \<in> set (sfs_vnodes s)" "w \<noteq> vn"
    then have "sv_ino (vnode_heap s w) \<in> used (sfs_freemap s)" "sv_ino (vnode_heap s w) \<noteq> ?ino"
      using idle(1,3) by (auto simp: vnodes_ok_def dest: inj_onD)
    then show "sv_ino (vnode_heap s w) \<in> used (sfs_freemap s')" using u w(1) idle(2) by auto
  qed
  moreover have "disk s' c = disk s c" if "?gone" "c \<notin> insert ?ino (set (owned s vn))" for c
    using st that by (simp add: cleared_def synced_def discarded_def)
  moreover have "disk s' = (if sv_dirty (vnode_heap s vn) then (disk s)(?ino := enc_inode (sv_i (vnode_heap s vn))) else disk s)"
    if "\<not> ?gone" using st that by (simp add: cleared_def synced_def discarded_def)
  ultimately show ?thesis using vs h u by (simp add: reclaimed_def Let_def)
qed

lemma reclaim_spec:
  assumes i: "idle vn s" and ops: "sfi_linkcount (sv_i (vnode_heap s vn)) = 0 \<longrightarrow> vn_ops (vnode_heap s vn) = sfs_fileops"
  shows "wp (sfs_reclaim vn) (\<lambda>r s'. r = Inr () \<and> reclaimed vn s s') s"
proof -
  let ?Q = "\<lambda>r s'. r = Inr () \<and> reclaimed vn s s'"
  have ino: "sv_ino (vnode_heap s vn) < sp_nblocks (sfs_super s)" "sv_ino (vnode_heap s vn) \<in> used (sfs_freemap s)"
      "sv_ino (vnode_heap s vn) \<notin> set (owned s vn)" "sv_ino (vnode_heap s vn) \<noteq> 0"
      "vn \<in> set (sfs_vnodes s)" "vn_refcount (vnode_heap s vn) = 1"
    using i by (auto simp: idle_def vnodes_ok_def)
  have "wp (bindP (if sfi_linkcount (sv_i (vnode_heap s vn)) = 0 then vop_truncate vn 0 else retP ()) (\<lambda>_.
      bindP (sfs_sync_inode vn) (\<lambda>_. reclaim_discard vn))) ?Q s"
  proof (rule wp_call [OF reclaim_clear [OF i ops]], simp)
    fix x s1 assume "Inr x = Inr () \<and> cleared vn s s1"
    then have c: "cleared vn s s1" by simp
    have c1: "fs_ok s1" "sv_ino (vnode_heap s1 vn) < sp_nblocks (sfs_super s1)" "inode_wf (sv_i (vnode_heap s1 vn))"
      using c ino by (simp_all add: cleared_def same_rest_def)
    show "wp (bindP (sfs_sync_inode vn) (\<lambda>_. reclaim_discard vn)) ?Q s1"
    proof (rule wp_call [OF sync_spec [OF c1, folded synced_def]], simp)
      fix y s2 assume "Inr y = Inr () \<and> synced vn s1 s2"
      then have sy: "synced vn s1 s2" by simp
      have "wp (reclaim_discard vn) (\<lambda>r s'. r = Inr () \<and> discarded vn s2 s') s2"
        using c sy ino by (intro discard_spec) (auto simp: cleared_def synced_def same_rest_def split: if_splits)
      then show "wp (reclaim_discard vn) ?Q s2"
        using reclaimed_steps [OF i c sy] by (auto elim!: wp_mono)
    qed
  qed
  then show ?thesis
    using ino(6) by (simp add: sfs_reclaim_def wp_bind [of "getP f" for f] wp_get)
qed

lemma decref_last:
  assumes "vn_refcount (vnode_heap s vn) = 1" "sfs_reclaim vn s = Some (r, s')"
  shows "vnode_decref vn s = Some (Inr (), s')"
  using assms by (simp add: vnode_decref_def vnode_check_def bindP_def getP_def assertP_def retP_def tryP_def)

section \<open>An example state\<close>

text \<open>One vnode in the table, for inode 2 with one data block, 1.\<close>

definition sfsr :: "sfs_ops \<Rightarrow> nat \<Rightarrow> sfs_fs" where
  "sfsr ops links = sfs1\<lparr>sfs_vnodes := [0], vnode_heap := (\<lambda>_. \<lparr>vn_refcount = 1, vn_opencount = 0, vn_ops = ops,
     sv_i = \<lparr>sfi_size = 128, sfi_type = (if ops = sfs_fileops then SFS_TYPE_FILE else SFS_TYPE_DIR),
       sfi_linkcount = links, sfi_direct = 1 # replicate 14 0, sfi_indirect = 0,
       sfi_waste = replicate 440 0\<rparr>, sv_ino = 2, sv_dirty = True\<rparr>)\<rparr>"

lemma sfsr_owned: "owned (sfsr ops links) vn = [1]"
  by (simp add: sfsr_def owned_def cells_def blocks_def id_entries_def)

lemma sfsr_idle: "links < 2 ^ 16 \<Longrightarrow> idle 0 (sfsr ops links)"
proof -
  assume l: "links < 2 ^ 16"
  have fs: "fs_ok (sfsr ops links)" using sfs1_ready [of 0] by (simp add: sfsr_def ready_def fs_ok_def)
  have u: "used (sfs_freemap (sfsr ops links)) = {..<3} \<union> {100..<4096}" "sp_nblocks (sfs_super (sfsr ops links)) = 100"
    by (simp_all add: sfsr_def sfs1_def sfs0_used) (simp add: sfs0_def)
  have "file_ok (sfsr ops links) 0"
    using l by (simp add: file_ok_def sfsr_owned u) (simp add: sfsr_def inode_wf_def)
  moreover have "vnodes_ok (sfsr ops links)"
    by (simp add: vnodes_ok_def u) (cases ops; simp add: sfsr_def type_ops_def)
  moreover have "sfs_vnodes (sfsr ops links) = [0]" "vn_refcount (vnode_heap (sfsr ops links) 0) = 1"
    "vn_opencount (vnode_heap (sfsr ops links) 0) = 0" "sv_ino (vnode_heap (sfsr ops links) 0) = 2"
    by (simp_all add: sfsr_def)
  ultimately show ?thesis using fs by (simp add: idle_def sfsr_owned)
qed

text \<open>The same with an inode of type file in block 2.\<close>

definition sfsl :: sfs_fs where
  "sfsl = (sfsr sfs_fileops 1)\<lparr>sfs_device := (sfs_device sfs1)\<lparr>lh_sectors := (disk sfs1)(2 :=
     enc_inode (sv_i (vnode_heap (sfsr sfs_fileops 1) 0)))\<rparr>\<rparr>"

lemma sfsl_ok: "fs_ok sfsl" "vnodes_ok sfsl" "load_ok 2 SFS_TYPE_INVAL sfsl"
proof -
  have i: "idle 0 (sfsr sfs_fileops 1)" by (rule sfsr_idle) simp
  have wf: "inode_wf (sv_i (vnode_heap (sfsr sfs_fileops 1) 0))" using i by (simp add: idle_def file_ok_def)
  have dev: "sfs_device (sfsr ops n) = sfs_device sfs1" for ops n by (simp add: sfsr_def)
  show "fs_ok sfsl"
    using i length_enc_inode [OF wf] by (simp add: idle_def sfsl_def fs_ok_def dev_ok_def lhd_inv_def dev)
  show "vnodes_ok sfsl" using i by (simp add: idle_def sfsl_def vnodes_ok_def)
  have "used (sfs_freemap sfsl) = {..<3} \<union> {100..<4096}" "sp_nblocks (sfs_super sfsl) = 100"
    by (simp_all add: sfsl_def sfsr_def sfs1_def sfs0_used) (simp add: sfs0_def)
  moreover have "sfi_type (dec_inode (disk sfsl 2)) = SFS_TYPE_FILE"
    using dec_enc_inode [OF wf] by (simp add: sfsl_def) (simp add: sfsr_def)
  ultimately show "load_ok 2 SFS_TYPE_INVAL sfsl" by (simp add: load_ok_def type_ops_def)
qed

lemma sfsl_loaded: "loaded sfsl 2 = Some 0" "vn_refcount (vnode_heap sfsl 0) = 1"
  by (simp_all add: loaded_def sfsl_def sfsr_def)

section \<open>Properties\<close>

text \<open>
  C18: Loading an inode keeps the table of vnodes well formed: distinct entries, at most one per
  inode, every entry referenced, its inode in a block in use and its function table that of its
  type. An inode already in the table comes back as the same vnode with one more reference and
  nothing else changed; otherwise a new entry with one reference holds the inode as it is on disk,
  or \<open>ENOMEM\<close> leaves the table alone. The disk and the free map never change.
\<close>
theorem sfs_loadvnode_correct:
  assumes "fs_ok s" "vnodes_ok s" "load_ok ino SFS_TYPE_INVAL s"
  shows "\<exists>r s'. sfs_loadvnode ino SFS_TYPE_INVAL s = Some (r, s') \<and> fs_ok s' \<and> vnodes_ok s' \<and>
    disk s' = disk s \<and> sfs_freemap s' = sfs_freemap s \<and>
    (case loaded s ino of
       Some vn \<Rightarrow> r = Inr vn \<and> s' = upd_vnode vn (\<lambda>sv. sv\<lparr>vn_refcount := vn_refcount sv + 1\<rparr>) s
     | None \<Rightarrow> (\<forall>vn\<in>set (sfs_vnodes s). vnode_heap s' vn = vnode_heap s vn) \<and>
         (case r of
            Inl e \<Rightarrow> e = ENOMEM \<and> sfs_vnodes s' = sfs_vnodes s
          | Inr vn \<Rightarrow> vn \<notin> set (sfs_vnodes s) \<and> sfs_vnodes s' = sfs_vnodes s @ [vn] \<and>
              sv_ino (vnode_heap s' vn) = ino \<and> sv_i (vnode_heap s' vn) = dec_inode (disk s ino) \<and>
              vn_refcount (vnode_heap s' vn) = 1))"
proof -
  obtain r s' where run: "sfs_loadvnode ino SFS_TYPE_INVAL s = Some (r, s')" and post: "load_post ino SFS_TYPE_INVAL s r s'"
    using loadvnode_spec [of s ino SFS_TYPE_INVAL] assms by (auto simp: wp_def)
  show ?thesis
  proof (cases "loaded s ino")
    case (Some vn)
    then show ?thesis using run post assms vnodes_ok_upd [OF assms(2)] by (simp add: load_post_def)
  next
    case None
    then have lr: "load_result s (new_vnode ino SFS_TYPE_INVAL (dec_inode (disk s ino))) r s'"
      using post by (simp add: load_post_def)
    have "sfs_vnodes s' = (case r of Inl _ \<Rightarrow> sfs_vnodes s | Inr vn \<Rightarrow> sfs_vnodes s @ [vn])"
      using lr scrap_sel(5) by (auto simp: load_result_def split: sum.splits)
    then show ?thesis
      using run None lr load_result_ok [OF assms(1,2) None assms(3) lr] vnode_ptr_fresh [of s]
      by (cases r) (simp_all add: load_result_def new_vnode_def)
  qed
qed

theorem sfs_loadvnode_correct_witness:
  "\<exists>s'. sfs_loadvnode 2 SFS_TYPE_INVAL sfsl = Some (Inr 0, s') \<and> vnodes_ok s' \<and> vn_refcount (vnode_heap s' 0) = 2"
  using sfs_loadvnode_correct [OF sfsl_ok] sfsl_loaded by auto

text \<open>
  C16: Truncating a file always succeeds. The blocks before the new end stay, the later ones are
  given back to the free map - except that among the blocks behind the indirect block the first
  one past the end stays as well -, the size is set, the invariants of the file system and of the
  file are kept, and no block of anything else is freed or changed. Truncating to nothing leaves
  the file without any block.
\<close>
theorem sfs_truncate_correct:
  assumes "fs_ok s" "file_ok s vn"
  shows "\<exists>s'. sfs_truncate vn len s = Some (Inr (), s') \<and> truncated vn len s s'"
  using truncate_spec [OF assms] by (auto simp: wp_def)

theorem sfs_truncate_correct_witness:
  "\<exists>s'. sfs_truncate 0 512 sfs1 = Some (Inr (), s') \<and> truncated 0 512 sfs1 s' \<and>
     fblock s' 0 0 = 1 \<and> fblock s' 0 1 = 0"
proof -
  have "fs_ok sfs1" "file_ok sfs1 0" using sfs1_ready [of 0] by (simp_all add: ready_def)
  moreover have "trunc_blocklen 512 = 1" by (simp add: trunc_blocklen_def to_u32_def)
  ultimately show ?thesis
    using sfs_truncate_correct [of sfs1 0 512] by (auto simp: truncated_def kept_def)
qed

text \<open>
  C9: Dropping a reference. While others remain only the count changes. With the last one gone a
  file leaves the table: one that still has links is written back to its inode block if it was
  changed, one without links gives all its blocks and its inode back to the free map; no other
  vnode and no other block changes, and the table stays well formed.
\<close>
theorem vnode_decref_correct:
  assumes "vn_refcount (vnode_heap s vn) > 1 \<or>
    idle vn s \<and> (sfi_linkcount (sv_i (vnode_heap s vn)) = 0 \<longrightarrow> vn_ops (vnode_heap s vn) = sfs_fileops)"
  shows "\<exists>s'. vnode_decref vn s = Some (Inr (), s') \<and>
    (if vn_refcount (vnode_heap s vn) > 1
     then s' = upd_vnode vn (\<lambda>sv. sv\<lparr>vn_refcount := vn_refcount sv - 1\<rparr>) s
     else reclaimed vn s s')"
proof (cases "vn_refcount (vnode_heap s vn) > 1")
  case True
  then show ?thesis by (simp add: vnode_decref_def bind_run assertP_def modP_def)
next
  case False
  then have i: "idle vn s" "vn_refcount (vnode_heap s vn) = 1" using assms by (simp_all add: idle_def)
  obtain s' where "sfs_reclaim vn s = Some (Inr (), s')" "reclaimed vn s s'"
    using reclaim_spec [OF i(1)] assms False by (auto simp: wp_def)
  then show ?thesis using i(2) decref_last [OF i(2)] by simp
qed

theorem vnode_decref_correct_witness:
  "\<exists>s'. vnode_decref 0 (sfsr sfs_fileops 0) = Some (Inr (), s') \<and> sfs_vnodes s' = [] \<and>
     used (sfs_freemap s') = {0} \<union> {100..<4096}"
proof -
  have "used (sfs_freemap (sfsr sfs_fileops 0)) - {1, 2} = {0} \<union> {100..<4096}"
    by (auto simp: sfsr_def sfs1_def sfs0_used)
  moreover have "vn_refcount (vnode_heap (sfsr sfs_fileops 0) 0) = 1" "vn_ops (vnode_heap (sfsr sfs_fileops 0) 0) = sfs_fileops"
    "sfi_linkcount (sv_i (vnode_heap (sfsr sfs_fileops 0) 0)) = 0" "sv_ino (vnode_heap (sfsr sfs_fileops 0) 0) = 2"
    "sfs_vnodes (sfsr sfs_fileops 0) = [0]"
    by (simp_all add: sfsr_def)
  ultimately show ?thesis
    using vnode_decref_correct [of "sfsr sfs_fileops 0" 0] sfsr_idle [of 0 sfs_fileops]
    by (auto simp: reclaimed_def Let_def sfsr_owned insert_commute)
qed

text \<open>
  C38: A removed directory is never given back. Its function table has no truncation, so reclaiming
  it fails with \<open>EISDIR\<close>, which \<open>vnode_decref\<close> only prints: the vnode stays in the table with
  its last reference, and its inode and blocks stay in use.
\<close>
theorem vnode_decref_directory_leaks:
  assumes "vn_refcount (vnode_heap s vn) = 1" "sfi_linkcount (sv_i (vnode_heap s vn)) = 0"
    and "vn_ops (vnode_heap s vn) = sfs_dirops"
  shows "sfs_reclaim vn s = Some (Inl EISDIR, s) \<and> vnode_decref vn s = Some (Inr (), s)"
proof -
  have "sfs_reclaim vn s = Some (Inl EISDIR, s)"
    using assms by (simp add: sfs_reclaim_def vop_truncate_def vnode_check_def bind_run)
      (simp add: bindP_def getP_def retP_def throwP_def)
  then show ?thesis using decref_last [OF assms(1)] by simp
qed

theorem vnode_decref_directory_leaks_witness:
  "vnode_decref 0 (sfsr sfs_dirops 0) = Some (Inr (), sfsr sfs_dirops 0) \<and> sfs_vnodes (sfsr sfs_dirops 0) = [0]"
  using vnode_decref_directory_leaks [of "sfsr sfs_dirops 0" 0] by (simp add: sfsr_def)

end
