(* ===== verification/Sfs_Ops.thy ===== *)
theory Sfs_Ops
  imports Sfs_Inode
begin

text \<open>
  The vnode operations of the Simple File System, \<open>kern/fs/sfs/sfs_vnode.c\<close> from \<open>sfs_open\<close> on,
  and its two function tables.

  Buffers on the kernel stack are not initialised; their contents are arguments (\<open>junk\<close>).
  Running over the end of such a buffer stops the model. Names and paths are byte lists without
  the terminating zero.
\<close>

section \<open>Files\<close>

abbreviation (input) O_ACCMODE :: "32 word" where "O_ACCMODE \<equiv> 3"
abbreviation (input) O_RDONLY :: "32 word" where "O_RDONLY \<equiv> 0"
abbreviation (input) O_APPEND :: "32 word" where "O_APPEND \<equiv> 32"
abbreviation (input) S_IFREG :: nat where "S_IFREG \<equiv> 4096"
abbreviation (input) S_IFDIR :: nat where "S_IFDIR \<equiv> 8192"
abbreviation (input) wrap16 :: "nat \<Rightarrow> nat" where "wrap16 n \<equiv> n mod 2 ^ 16"

definition sfs_open :: "nat \<Rightarrow> 32 word \<Rightarrow> (sfs_fs, unit) proc" where
  "sfs_open vn openflags = (if openflags AND O_APPEND \<noteq> 0 then throwP EUNIMP else retP ())"

definition sfs_opendir :: "nat \<Rightarrow> 32 word \<Rightarrow> (sfs_fs, unit) proc" where
  "sfs_opendir vn openflags =
     (if openflags AND O_ACCMODE \<noteq> O_RDONLY then throwP EISDIR
      else if openflags AND O_APPEND \<noteq> 0 then throwP EISDIR
      else retP ())"

definition sfs_read :: "nat \<Rightarrow> (ustream \<times> sfs_fs, unit) proc" where
  "sfs_read vn = bindP (getP fst) (\<lambda>uio. bindP (assertP (us_rw uio = UIO_READ)) (\<lambda>_. sfs_io vn))"

definition sfs_write :: "nat \<Rightarrow> (ustream \<times> sfs_fs, unit) proc" where
  "sfs_write vn = bindP (getP fst) (\<lambda>uio. bindP (assertP (us_rw uio = UIO_WRITE)) (\<lambda>_. sfs_io vn))"

definition sfs_ioctl :: "nat \<Rightarrow> (sfs_fs, unit) proc" where
  "sfs_ioctl vn = throwP EINVAL"

definition sfs_gettype :: "nat \<Rightarrow> (sfs_fs, nat) proc" where
  "sfs_gettype vn =
     bindP (getP (\<lambda>s. sfi_type (sv_i (vnode_heap s vn)))) (\<lambda>type.
     if type = SFS_TYPE_FILE then retP S_IFREG
     else if type = SFS_TYPE_DIR then retP S_IFDIR
     else panicP)"

definition sfs_tryseek :: "nat \<Rightarrow> int \<Rightarrow> (sfs_fs, unit) proc" where
  "sfs_tryseek vn pos = (if pos < 0 then throwP EINVAL else retP ())"

definition sfs_mmap :: "nat \<Rightarrow> (sfs_fs, unit) proc" where
  "sfs_mmap vn = throwP EUNIMP"

record sfs_statbuf =
  st_mode :: nat
  st_size :: nat
  st_nlink :: nat
  st_ino :: nat

definition sfs_stat :: "nat \<Rightarrow> (sfs_fs, sfs_statbuf) proc" where
  "sfs_stat vn =
     bindP (vnode_check vn ''gettype'') (\<lambda>_.
     bindP (sfs_gettype vn) (\<lambda>mode.
     bindP (getP (\<lambda>s. vnode_heap s vn)) (\<lambda>sv.
     retP \<lparr>st_mode = mode, st_size = sfi_size (sv_i sv), st_nlink = sfi_linkcount (sv_i sv), st_ino = sv_ino sv\<rparr>)))"

section \<open>Directory operations\<close>

definition inc_links :: "nat \<Rightarrow> sfs_fs \<Rightarrow> sfs_fs" where
  "inc_links vn = upd_inode vn (\<lambda>i. i\<lparr>sfi_linkcount := wrap16 (sfi_linkcount i + 1)\<rparr>)"

definition dec_links :: "nat \<Rightarrow> sfs_fs \<Rightarrow> sfs_fs" where
  "dec_links vn = upd_inode vn (\<lambda>i. i\<lparr>sfi_linkcount := wrap16 (sfi_linkcount i + 2 ^ 16 - 1)\<rparr>)"

definition ino_of :: "nat \<Rightarrow> (sfs_fs, nat) proc" where
  "ino_of vn = getP (\<lambda>s. sv_ino (vnode_heap s vn))"

definition sfs_creat :: "nat \<Rightarrow> name \<Rightarrow> bool \<Rightarrow> (sfs_fs, nat) proc" where
  "sfs_creat vn name excl =
     bindP (sfs_dir_findname vn name) (\<lambda>(found, _).
     if found \<noteq> None \<and> excl then throwP EEXIST
     else case found of
       Some (ino, _) \<Rightarrow> sfs_loadvnode ino SFS_TYPE_INVAL
     | None \<Rightarrow>
         bindP (sfs_makeobj SFS_TYPE_FILE) (\<lambda>newguy.
         bindP (ino_of newguy) (\<lambda>ino.
         tryP (sfs_dir_link vn name ino) (\<lambda>result.
         case result of
           Inl e \<Rightarrow> bindP (vnode_decref newguy) (\<lambda>_. throwP e)
         | Inr _ \<Rightarrow> bindP (modP (inc_links newguy)) (\<lambda>_. retP newguy)))))"

definition sfs_link :: "nat \<Rightarrow> name \<Rightarrow> nat \<Rightarrow> (sfs_fs, unit) proc" where
  "sfs_link dir name f =
     bindP (ino_of f) (\<lambda>ino.
     bindP (sfs_dir_link dir name ino) (\<lambda>_.
     modP (inc_links f)))"

text \<open>The common end of \<open>sfs_remove\<close> and \<open>sfs_rmdir\<close>: erase the entry, drop a link and the reference.\<close>

definition unlink_victim :: "nat \<Rightarrow> nat \<Rightarrow> nat \<Rightarrow> (sfs_fs, unit) proc" where
  "unlink_victim dir slot victim =
     tryP (sfs_dir_unlink dir slot) (\<lambda>result.
     bindP (case result of
        Inr _ \<Rightarrow>
          bindP (getP (\<lambda>s. sfi_linkcount (sv_i (vnode_heap s victim)))) (\<lambda>linkcount.
          bindP (assertP (linkcount > 0)) (\<lambda>_.
          modP (dec_links victim)))
      | Inl _ \<Rightarrow> retP ()) (\<lambda>_.
     bindP (vnode_decref victim) (\<lambda>_.
     case result of Inl e \<Rightarrow> throwP e | Inr _ \<Rightarrow> retP ())))"

definition sfs_remove :: "nat \<Rightarrow> name \<Rightarrow> (sfs_fs, unit) proc" where
  "sfs_remove dir name =
     bindP (sfs_lookonce dir name) (\<lambda>(victim, slot).
     unlink_victim dir slot victim)"

abbreviation (input) dot :: name where "dot \<equiv> [46]"
abbreviation (input) dotdot :: name where "dotdot \<equiv> [46, 46]"

definition sfs_mkdir :: "nat \<Rightarrow> name \<Rightarrow> (sfs_fs, unit) proc" where
  "sfs_mkdir vn name =
     bindP (sfs_dir_findname vn name) (\<lambda>_.
     bindP (sfs_makeobj SFS_TYPE_DIR) (\<lambda>newguy.
     bindP (ino_of newguy) (\<lambda>newino.
     bindP (sfs_dir_link vn name newino) (\<lambda>_.
     bindP (modP (inc_links newguy)) (\<lambda>_.
     bindP (ino_of vn) (\<lambda>ino.
     bindP (sfs_dir_link newguy dotdot ino) (\<lambda>_.
     bindP (sfs_dir_link newguy dot newino) (\<lambda>_.
     retP ()))))))))"

text \<open>The loop of \<open>sfs_rmdir\<close>, counting down the free slots.\<close>

fun count_entries :: "nat \<Rightarrow> nat list \<Rightarrow> int \<Rightarrow> (sfs_fs, int) proc" where
  "count_entries vn [] n = retP n"
| "count_entries vn (i # is) n =
     bindP (sfs_readdir vn i) (\<lambda>tsd.
     count_entries vn is (if sfd_ino tsd = SFS_NOINO then n - 1 else n))"

definition sfs_rmdir :: "nat \<Rightarrow> name \<Rightarrow> (sfs_fs, unit) proc" where
  "sfs_rmdir vn name =
     bindP (sfs_lookonce vn name) (\<lambda>(victim, slot).
     bindP (getP (\<lambda>s. sfi_type (sv_i (vnode_heap s victim)))) (\<lambda>type.
     if type = SFS_TYPE_FILE then throwP ENOTDIR
     else
       bindP (sfs_dir_nentries victim) (\<lambda>nentries.
       bindP (count_entries victim [0..<nentries] (int nentries)) (\<lambda>number_entries.
       if number_entries > 2 then throwP ENOTEMPTY
       else unlink_victim vn slot victim))))"

subsection \<open>Renaming\<close>

text \<open>
  The labels \<open>error\<close> and \<open>fatal_error\<close> of \<open>sfs_rename\<close>; the second undoes the new entry (in the
  first directory) and continues with the first.
\<close>

definition rename_error :: "nat \<Rightarrow> errno \<Rightarrow> (sfs_fs, unit) proc" where
  "rename_error g1 result = bindP (vnode_decref g1) (\<lambda>_. throwP result)"

definition rename_fatal :: "nat \<Rightarrow> nat \<Rightarrow> nat \<Rightarrow> errno \<Rightarrow> (sfs_fs, unit) proc" where
  "rename_fatal d1 slot2 g1 result =
     tryP (sfs_dir_unlink d1 slot2) (\<lambda>result2.
     case result2 of
       Inl _ \<Rightarrow> panicP
     | Inr _ \<Rightarrow>
         bindP (modP (upd_vnode g1 (\<lambda>sv. sv\<lparr>sv_i := (sv_i sv)\<lparr>sfi_linkcount :=
           wrap16 (sfi_linkcount (sv_i sv) + 2 ^ 16 - 1)\<rparr>\<rparr>))) (\<lambda>_.
         rename_error g1 result))"

text \<open>Removing the old entry, the same for files and directories.\<close>

definition rename_finish :: "nat \<Rightarrow> nat \<Rightarrow> nat \<Rightarrow> nat \<Rightarrow> (sfs_fs, unit) proc" where
  "rename_finish d1 slot1 slot2 g1 =
     tryP (sfs_dir_unlink d1 slot1) (\<lambda>result.
     case result of
       Inl e \<Rightarrow> rename_fatal d1 slot2 g1 e
     | Inr _ \<Rightarrow>
         bindP (getP (\<lambda>s. sfi_linkcount (sv_i (vnode_heap s g1)))) (\<lambda>linkcount.
         bindP (assertP (linkcount > 0)) (\<lambda>_.
         bindP (modP (dec_links g1)) (\<lambda>_.
         vnode_decref g1))))"

text \<open>A directory that moves to another one gets a new entry for its parent.\<close>

definition rename_parent :: "nat \<Rightarrow> nat \<Rightarrow> nat \<Rightarrow> nat \<Rightarrow> nat \<Rightarrow> (sfs_fs, unit) proc" where
  "rename_parent d1 slot1 d2 slot2 g1 =
     tryP (sfs_lookonce g1 dotdot) (\<lambda>result.
     case result of
       Inl e \<Rightarrow> rename_error g1 e
     | Inr (victim, parentslot) \<Rightarrow>
         tryP (sfs_dir_unlink g1 parentslot) (\<lambda>result.
         case result of
           Inl e \<Rightarrow> rename_fatal d1 slot2 g1 e
         | Inr _ \<Rightarrow>
             bindP (ino_of d2) (\<lambda>ino.
             tryP (sfs_dir_link g1 dotdot ino) (\<lambda>result.
             case result of
               Inl e \<Rightarrow> rename_error g1 e
             | Inr _ \<Rightarrow> rename_finish d1 slot1 slot2 g1))))"

definition sfs_rename :: "nat \<Rightarrow> name \<Rightarrow> nat \<Rightarrow> name \<Rightarrow> (sfs_fs, unit) proc" where
  "sfs_rename d1 n1 d2 n2 =
     bindP (sfs_lookonce d1 n1) (\<lambda>(g1, slot1).
     bindP (getP (\<lambda>s. vnode_heap s g1)) (\<lambda>sv.
     tryP (sfs_dir_link d2 n2 (sv_ino sv)) (\<lambda>result.
     case result of
       Inl e \<Rightarrow> rename_error g1 e
     | Inr slot2 \<Rightarrow>
         bindP (modP (inc_links g1)) (\<lambda>_.
         if sfi_type (sv_i sv) = SFS_TYPE_DIR \<and> d1 \<noteq> d2
         then rename_parent d1 slot1 d2 slot2 g1
         else rename_finish d1 slot1 slot2 g1))))"

section \<open>Paths\<close>

abbreviation (input) slash :: "8 word" where "slash \<equiv> 47"

function parse_from :: "bytes \<Rightarrow> bytes \<Rightarrow> nat \<Rightarrow> (nat \<times> bytes) option" where
  "parse_from path subpath i =
     (case aget path i of
        None \<Rightarrow> None
      | Some c \<Rightarrow>
          if c = slash \<or> c = 0 then Some (i, subpath)
          else (case aset subpath i c of
                  None \<Rightarrow> None
                | Some subpath \<Rightarrow> parse_from path subpath (i + 1)))"
  by pat_completeness auto
termination
  by (relation "measure (\<lambda>(path, subpath, i). length path - i)") (auto simp: aget_Some)

declare parse_from.simps [simp del]

definition sfs_parsepath :: "bytes \<Rightarrow> bytes \<Rightarrow> (nat \<times> bytes) option" where
  "sfs_parsepath path subpath = parse_from path subpath 1"

lemma parse_from_bound: "parse_from path subpath i = Some (j, sp) \<Longrightarrow> i \<le> j \<and> j < length path"
proof (induction path subpath i rule: parse_from.induct)
  case (1 path subpath i)
  from 1(2) show ?case
    by (subst (asm) parse_from.simps)
      (auto simp: aget_Some split: option.splits if_splits dest: 1(1) [rotated 2])
qed

text \<open>The loop of \<open>sfs_lookup\<close> over the rest of the path buffer.\<close>

function lookup_loop :: "nat \<Rightarrow> bytes \<Rightarrow> bytes \<Rightarrow> (sfs_fs, nat) proc" where
  "lookup_loop sv temp_path subpath =
     (case sfs_parsepath temp_path subpath of
        None \<Rightarrow> panicP
      | Some (pos, subpath) \<Rightarrow>
          let temp_path = drop pos temp_path in
          if 0 \<notin> set subpath then panicP
          else
            bindP (sfs_lookonce sv (cstr subpath)) (\<lambda>(final, _).
            bindP (vnode_decref sv) (\<lambda>_.
            case strchr temp_path slash of
              None \<Rightarrow> panicP
            | Some None \<Rightarrow> retP final
            | Some (Some _) \<Rightarrow> lookup_loop final temp_path subpath)))"
  by pat_completeness auto
termination
proof (relation "measure (\<lambda>(sv, temp_path, subpath). length temp_path)", goal_cases)
  case (2 sv temp_path subpath x pos sp)
  then have "1 \<le> pos \<and> pos < length temp_path" using parse_from_bound by (auto simp: sfs_parsepath_def)
  then show ?case using 2 by auto
qed simp

declare lookup_loop.simps [simp del]

definition sfs_lookup :: "bytes \<Rightarrow> bytes \<Rightarrow> nat \<Rightarrow> name \<Rightarrow> (sfs_fs, nat) proc" where
  "sfs_lookup junk_buf junk_sub vn path =
     bindP (getP (\<lambda>s. sfi_type (sv_i (vnode_heap s vn)))) (\<lambda>type.
     if type \<noteq> SFS_TYPE_DIR then throwP ENOTDIR
     else
       bindP (optP (strcpy junk_buf (path @ [0]))) (\<lambda>temp_path.
       if slash \<notin> set path then
         bindP (sfs_lookonce vn path) (\<lambda>(final, _).
         bindP (vnode_incref vn) (\<lambda>_. retP final))
       else lookup_loop vn temp_path junk_sub))"

definition sfs_lookparent :: "bytes \<Rightarrow> bytes \<Rightarrow> nat \<Rightarrow> name \<Rightarrow> nat \<Rightarrow> (sfs_fs, nat \<times> name) proc" where
  "sfs_lookparent junk_buf junk_sub vn path buflen =
     bindP (getP (\<lambda>s. sfi_type (sv_i (vnode_heap s vn)))) (\<lambda>type.
     if type \<noteq> SFS_TYPE_DIR then throwP ENOTDIR
     else if length path + 1 > buflen then throwP ENAMETOOLONG
     else
       bindP (optP (strrchr (path @ [0]) slash)) (\<lambda>check.
       case check of
         None \<Rightarrow> bindP (vnode_incref vn) (\<lambda>_. retP (vn, path))
       | Some i \<Rightarrow>
           bindP (sfs_lookup junk_buf junk_sub vn (take i path)) (\<lambda>dir.
           retP (dir, drop (i + 1) path))))"

section \<open>Listing and naming\<close>

text \<open>The conversion of an \<open>off_t\<close> to \<open>int\<close>.\<close>

definition to_int :: "int \<Rightarrow> int" where
  "to_int x = to_s32 (to_u32 x)"

text \<open>
  The loop of \<open>sfs_getdirentry\<close>, with the values of \<open>offset\<close> still to try; the entry it stops at
  and its offset.
\<close>

fun dirent_scan :: "nat \<Rightarrow> int list \<Rightarrow> (ustream \<times> sfs_fs, sfs_dir \<times> int) proc" where
  "dirent_scan vn [] = throwP ENOENT"
| "dirent_scan vn (offset # offsets) =
     bindP (getP (\<lambda>(u, _). us_offset u)) (\<lambda>uio_offset.
     bindP (sndP (sfs_readdir vn (to_u32 uio_offset))) (\<lambda>tsd.
     if sfd_ino tsd = SFS_NOINO then
       (if offsets = [] then throwP ENOENT
        else
          bindP (modP (\<lambda>(u, s). (u\<lparr>us_offset := us_offset u + 1\<rparr>, s))) (\<lambda>_.
          dirent_scan vn offsets))
     else retP (tsd, offset)))"

definition sfs_getdirentry :: "nat \<Rightarrow> (ustream \<times> sfs_fs, unit) proc" where
  "sfs_getdirentry vn =
     bindP (getP (\<lambda>(u, _). to_int (us_offset u))) (\<lambda>offset.
     bindP (sndP (sfs_dir_nentries vn)) (\<lambda>nentries.
     if offset \<ge> int nentries then throwP ENOENT
     else
       bindP (dirent_scan vn [offset..int nentries - 1]) (\<lambda>(tsd, offset).
       bindP (optP (strlen (sfd_name tsd))) (\<lambda>len.
       tryP (uiomoveP (take len (sfd_name tsd)) len) (\<lambda>result.
       modP (\<lambda>(u, s). (u\<lparr>us_offset := offset + 1\<rparr>, s)))))))"

text \<open>The name of the entry with an inode number; \<open>None\<close> is \<open>ENOENT\<close>.\<close>

fun name_scan :: "nat \<Rightarrow> nat \<Rightarrow> bytes \<Rightarrow> nat list \<Rightarrow> (sfs_fs, bytes) proc" where
  "name_scan vn ino buf [] = retP buf"
| "name_scan vn ino buf (i # is) =
     bindP (sfs_readdir vn i) (\<lambda>tsd.
     if sfd_ino tsd = ino then optP (strcpy buf (sfd_name tsd))
     else name_scan vn ino buf is)"

definition name_from_inode :: "nat \<Rightarrow> nat \<Rightarrow> bytes \<Rightarrow> (sfs_fs, bytes) proc" where
  "name_from_inode vn ino buf =
     bindP (sfs_dir_nentries vn) (\<lambda>nentries. name_scan vn ino buf [0..<nentries])"

text \<open>
  The loop of \<open>sfs_namefile\<close> from a vnode up to the root, with \<open>fuel\<close> for a bound on its rounds
  (it need not end). \<open>junk k\<close> is what the array \<open>temp\<close> holds at the start of round \<open>k\<close>. The
  result code \<open>ENOENT\<close> of the two searches is ignored by the code: \<open>ino\<close> and \<open>buf\<close> keep their values.
\<close>

fun namefile_loop :: "nat \<Rightarrow> (nat \<Rightarrow> bytes) \<Rightarrow> nat \<Rightarrow> nat \<Rightarrow> nat \<Rightarrow> bytes \<Rightarrow> bytes \<Rightarrow> (sfs_fs, bytes) proc" where
  "namefile_loop fuel junk root sv ino buf path =
     (if sv = root then retP path
      else case fuel of
        0 \<Rightarrow> panicP
      | Suc fuel \<Rightarrow>
          bindP (sfs_dir_findname sv dotdot) (\<lambda>(found, _).
          let ino = (case found of Some (i, _) \<Rightarrow> i | None \<Rightarrow> ino) in
          bindP (sfs_loadvnode ino SFS_TYPE_INVAL) (\<lambda>parent.
          bindP (ino_of sv) (\<lambda>ino.
          bindP (name_from_inode parent ino buf) (\<lambda>buf.
          bindP (optP (aset (junk fuel) 0 slash)) (\<lambda>temp.
          bindP (optP (strcat temp buf)) (\<lambda>temp.
          bindP (optP (strcat temp path)) (\<lambda>temp.
          bindP (optP (strcpy path temp)) (\<lambda>path.
          namefile_loop fuel junk root parent ino buf path)))))))))"

declare namefile_loop.simps [simp del]

definition sfs_namefile :: "nat \<Rightarrow> (nat \<Rightarrow> bytes) \<Rightarrow> nat \<Rightarrow> bytes \<Rightarrow> bytes \<Rightarrow> nat \<Rightarrow> (ustream \<times> sfs_fs, unit) proc" where
  "sfs_namefile fuel junk junk_ino junk_buf junk_path vn =
     bindP (sndP sfs_getroot) (\<lambda>root.
     bindP (sndP (namefile_loop fuel junk root vn junk_ino junk_buf junk_path)) (\<lambda>path.
     bindP (optP (strlen path)) (\<lambda>len.
     bindP (optP (aset path (len + 1) 0)) (\<lambda>path.
     bindP (uiomoveP (take len path) len) (\<lambda>_.
     retP ())))))"

section \<open>Function tables\<close>

text \<open>
  \<open>VOP_\<close> calls: the check of the vnode, then the entry of the table of its type. The entries
  \<open>NOTDIR\<close>, \<open>ISDIR\<close> and \<open>UNIMP\<close> only return their code.
\<close>

definition sfs_notdir :: "('s, 'a) proc" where "sfs_notdir = throwP ENOTDIR"
definition sfs_isdir :: "('s, 'a) proc" where "sfs_isdir = throwP EISDIR"
definition sfs_unimp :: "('s, 'a) proc" where "sfs_unimp = throwP EUNIMP"

definition vop :: "string \<Rightarrow> nat \<Rightarrow> (sfs_fs, 'a) proc \<Rightarrow> (sfs_fs, 'a) proc \<Rightarrow> (sfs_fs, 'a) proc" where
  "vop opstr vn fileop dirop =
     bindP (vnode_check vn opstr) (\<lambda>_.
     bindP (getP (\<lambda>s. vn_ops (vnode_heap s vn))) (\<lambda>ops.
     case ops of sfs_fileops \<Rightarrow> fileop | sfs_dirops \<Rightarrow> dirop))"

definition vop_uio :: "string \<Rightarrow> nat \<Rightarrow> (ustream \<times> sfs_fs, 'a) proc \<Rightarrow> (ustream \<times> sfs_fs, 'a) proc \<Rightarrow>
    (ustream \<times> sfs_fs, 'a) proc" where
  "vop_uio opstr vn fileop dirop =
     bindP (sndP (vnode_check vn opstr)) (\<lambda>_.
     bindP (getP (\<lambda>(_, s). vn_ops (vnode_heap s vn))) (\<lambda>ops.
     case ops of sfs_fileops \<Rightarrow> fileop | sfs_dirops \<Rightarrow> dirop))"

definition VOP_OPEN :: "nat \<Rightarrow> 32 word \<Rightarrow> (sfs_fs, unit) proc" where
  "VOP_OPEN vn flags = vop ''open'' vn (sfs_open vn flags) (sfs_opendir vn flags)"

definition VOP_READ :: "nat \<Rightarrow> (ustream \<times> sfs_fs, unit) proc" where
  "VOP_READ vn = vop_uio ''read'' vn (sfs_read vn) sfs_isdir"

definition VOP_WRITE :: "nat \<Rightarrow> (ustream \<times> sfs_fs, unit) proc" where
  "VOP_WRITE vn = vop_uio ''write'' vn (sfs_write vn) sfs_isdir"

definition VOP_GETDIRENTRY :: "nat \<Rightarrow> (ustream \<times> sfs_fs, unit) proc" where
  "VOP_GETDIRENTRY vn = vop_uio ''getdirentry'' vn sfs_notdir (sfs_getdirentry vn)"

definition VOP_READLINK :: "nat \<Rightarrow> (ustream \<times> sfs_fs, unit) proc" where
  "VOP_READLINK vn = vop_uio ''readlink'' vn sfs_notdir sfs_isdir"

definition VOP_NAMEFILE :: "nat \<Rightarrow> (nat \<Rightarrow> bytes) \<Rightarrow> nat \<Rightarrow> bytes \<Rightarrow> bytes \<Rightarrow> nat \<Rightarrow>
    (ustream \<times> sfs_fs, unit) proc" where
  "VOP_NAMEFILE fuel junk junk_ino junk_buf junk_path vn =
     vop_uio ''namefile'' vn sfs_notdir (sfs_namefile fuel junk junk_ino junk_buf junk_path vn)"

definition VOP_TRYSEEK :: "nat \<Rightarrow> int \<Rightarrow> (sfs_fs, unit) proc" where
  "VOP_TRYSEEK vn pos = vop ''tryseek'' vn (sfs_tryseek vn pos) sfs_unimp"

definition VOP_MMAP :: "nat \<Rightarrow> (sfs_fs, unit) proc" where
  "VOP_MMAP vn = vop ''mmap'' vn (sfs_mmap vn) sfs_isdir"

definition VOP_CREAT :: "nat \<Rightarrow> name \<Rightarrow> bool \<Rightarrow> (sfs_fs, nat) proc" where
  "VOP_CREAT vn name excl = vop ''creat'' vn sfs_notdir (sfs_creat vn name excl)"

definition VOP_SYMLINK :: "nat \<Rightarrow> (sfs_fs, unit) proc" where
  "VOP_SYMLINK vn = vop ''symlink'' vn sfs_notdir sfs_unimp"

definition VOP_MKDIR :: "nat \<Rightarrow> name \<Rightarrow> (sfs_fs, unit) proc" where
  "VOP_MKDIR vn name = vop ''mkdir'' vn sfs_notdir (sfs_mkdir vn name)"

definition VOP_LINK :: "nat \<Rightarrow> name \<Rightarrow> nat \<Rightarrow> (sfs_fs, unit) proc" where
  "VOP_LINK vn name vn2 = vop ''link'' vn sfs_notdir (sfs_link vn name vn2)"

definition VOP_REMOVE :: "nat \<Rightarrow> name \<Rightarrow> (sfs_fs, unit) proc" where
  "VOP_REMOVE vn name = vop ''remove'' vn sfs_notdir (sfs_remove vn name)"

definition VOP_RMDIR :: "nat \<Rightarrow> name \<Rightarrow> (sfs_fs, unit) proc" where
  "VOP_RMDIR vn name = vop ''rmdir'' vn sfs_notdir (sfs_rmdir vn name)"

definition VOP_RENAME :: "nat \<Rightarrow> name \<Rightarrow> nat \<Rightarrow> name \<Rightarrow> (sfs_fs, unit) proc" where
  "VOP_RENAME vn1 name1 vn2 name2 = vop ''rename'' vn1 sfs_notdir (sfs_rename vn1 name1 vn2 name2)"

definition VOP_LOOKUP :: "bytes \<Rightarrow> bytes \<Rightarrow> nat \<Rightarrow> name \<Rightarrow> (sfs_fs, nat) proc" where
  "VOP_LOOKUP junk_buf junk_sub vn path = vop ''lookup'' vn sfs_notdir (sfs_lookup junk_buf junk_sub vn path)"

definition VOP_LOOKPARENT :: "bytes \<Rightarrow> bytes \<Rightarrow> nat \<Rightarrow> name \<Rightarrow> nat \<Rightarrow> (sfs_fs, nat \<times> name) proc" where
  "VOP_LOOKPARENT junk_buf junk_sub vn path len =
     vop ''lookparent'' vn sfs_notdir (sfs_lookparent junk_buf junk_sub vn path len)"

end
