(* ===== verification/Sfs_Frame.thy ===== *)
theory Sfs_Frame
  imports Sfs_Inode
begin

text \<open>
  What the block, file and directory operations of the Simple File System never touch: the table
  of vnodes and the bookkeeping of each vnode, that is its counts, its function table and its
  inode number. \<open>keeps f m\<close> says that \<open>m\<close> leaves the part \<open>f\<close> of the state as it is; its rules
  follow the structure of a procedure.
\<close>

section \<open>Footprints\<close>

definition keeps :: "('s \<Rightarrow> 'v) \<Rightarrow> ('s, 'a) proc \<Rightarrow> bool" where
  "keeps f m \<longleftrightarrow> (\<forall>s r s'. m s = Some (r, s') \<longrightarrow> f s' = f s)"

named_theorems keeps \<open>parts of the state that procedures leave alone\<close>

lemma keepsD: "keeps f m \<Longrightarrow> m s = Some (r, s') \<Longrightarrow> f s' = f s"
  by (auto simp: keeps_def)

lemma wp_keeps: "wp m Q s \<Longrightarrow> keeps f m \<Longrightarrow> wp m (\<lambda>r s'. Q r s' \<and> f s' = f s) s"
  by (auto simp: wp_def keeps_def)

lemma keeps_basic [keeps]:
  "keeps f (retP x)" "keeps f (throwP e)" "keeps f panicP" "keeps f (getP g)" "keeps f (assertP b)" "keeps f (optP y)"
  by (auto simp: keeps_def retP_def throwP_def panicP_def getP_def assertP_def optP_def split: option.splits)

lemma keeps_bind [keeps]: "keeps f m \<Longrightarrow> (\<And>x. keeps f (g x)) \<Longrightarrow> keeps f (bindP m g)"
  unfolding keeps_def bindP_def by (force split: option.splits sum.splits prod.splits)

lemma keeps_try [keeps]: "keeps f m \<Longrightarrow> (\<And>r. keeps f (g r)) \<Longrightarrow> keeps f (tryP m g)"
  unfolding keeps_def tryP_def by (force split: option.splits prod.splits)

lemma keeps_mod [keeps]: "(\<And>s. f (h s) = f s) \<Longrightarrow> keeps f (modP h)"
  by (simp add: keeps_def modP_def)

lemma keeps_cases [keeps]:
  "\<lbrakk>b \<Longrightarrow> keeps f m; \<not> b \<Longrightarrow> keeps f m'\<rbrakk> \<Longrightarrow> keeps f (if b then m else m')"
  "\<lbrakk>keeps f m; \<And>x. keeps f (g x)\<rbrakk> \<Longrightarrow> keeps f (case y of None \<Rightarrow> m | Some x \<Rightarrow> g x)"
  "\<lbrakk>\<And>e. keeps f (h e); \<And>x. keeps f (g x)\<rbrakk> \<Longrightarrow> keeps f (case z of Inl e \<Rightarrow> h e | Inr x \<Rightarrow> g x)"
  "(\<And>a c. keeps f (k a c)) \<Longrightarrow> keeps f (case p of (a, c) \<Rightarrow> k a c)"
  by (auto split: option.splits sum.splits prod.splits)

lemma keeps_let [keeps]: "(\<And>x. keeps f (m x)) \<Longrightarrow> keeps f (let x = e in m x)"
  by simp

lemma keeps_for [keeps]: "(\<And>i. keeps f (body i)) \<Longrightarrow> keeps f (forP is body)"
  by (induction "is") (auto intro: keeps)

lemma keeps_snd [keeps]: "keeps f m \<Longrightarrow> keeps (\<lambda>us. f (snd us)) (sndP m)"
  by (auto simp: keeps_def sndP_def zoomP_def split: option.splits)

lemma keeps_local [keeps]: "keeps (\<lambda>us. f (snd us)) m \<Longrightarrow> keeps f (localP u m)"
  unfolding keeps_def localP_def by (force split: option.splits)

lemma keeps_uiomove [keeps]: "keeps (\<lambda>us. f (snd us)) (uiomoveP buf n)"
  by (auto simp: keeps_def uiomoveP_def Let_def split: prod.splits)

section \<open>Block I/O\<close>

text \<open>Reading and writing blocks touches only the device.\<close>

lemma d_io_keeps [keeps]:
  "(\<And>s d. f (s\<lparr>sfs_device := d\<rparr>) = f s) \<Longrightarrow> keeps (\<lambda>us. f (snd us)) d_io"
  by (auto simp: keeps_def d_io_def zoomP_def split: option.splits prod.splits)

lemma retry_keeps [keeps]:
  "(\<And>s d. f (s\<lparr>sfs_device := d\<rparr>) = f s) \<Longrightarrow> keeps (\<lambda>us. f (snd us)) (sfs_retry n)"
  by (induction n) (subst sfs_retry.simps, auto intro!: keeps split: nat.splits)+

lemma rwblock_keeps [keeps]:
  "(\<And>s d. f (s\<lparr>sfs_device := d\<rparr>) = f s) \<Longrightarrow> keeps (\<lambda>us. f (snd us)) sfs_rwblock"
  by (simp add: sfs_rwblock_def keeps)

lemma block_keeps [keeps]:
  assumes "\<And>s d. f (s\<lparr>sfs_device := d\<rparr>) = f s"
  shows "keeps f (sfs_rblock b)" "keeps f (sfs_wblock data b)" "keeps f (sfs_clearblock b)"
  using assms by (auto simp: sfs_rblock_def sfs_wblock_def sfs_clearblock_def intro!: keeps)

section \<open>The vnode table\<close>

definition vtable :: "sfs_fs \<Rightarrow> nat list \<times> (nat \<Rightarrow> nat \<times> nat \<times> sfs_ops \<times> nat)" where
  "vtable s = (sfs_vnodes s, \<lambda>w. (vn_refcount (vnode_heap s w), vn_opencount (vnode_heap s w),
     vn_ops (vnode_heap s w), sv_ino (vnode_heap s w)))"

abbreviation keeps_table :: "(sfs_fs, 'a) proc \<Rightarrow> bool" where
  "keeps_table m \<equiv> keeps vtable m"

abbreviation keeps_table2 :: "(ustream \<times> sfs_fs, 'a) proc \<Rightarrow> bool" where
  "keeps_table2 m \<equiv> keeps (\<lambda>us. vtable (snd us)) m"

lemma vtable_upd [simp]:
  "vtable (upd_inode vn f s) = vtable s" "vtable (set_slot i g s) = vtable s"
  "vtable (s\<lparr>sfs_freemap := fm, sfs_freemapdirty := d\<rparr>) = vtable s" "vtable (s\<lparr>env_random := rs\<rparr>) = vtable s"
  "vtable (s\<lparr>sfs_device := dev\<rparr>) = vtable s"
  by (auto simp: vtable_def upd_inode_def upd_vnode_def set_slot_def)

lemma alloc_table [keeps]: "keeps_table sfs_balloc" "keeps_table (sfs_bfree b)" "keeps_table (sfs_bused b)"
  by (auto simp: sfs_balloc_def sfs_bfree_def sfs_bused_def intro!: keeps)

lemma bmap_table [keeps]: "keeps_table (bmap_handback b)" "keeps_table (sfs_bmap vn n doalloc)"
  by (auto simp: sfs_bmap_def bmap_handback_def Let_def intro!: keeps)

lemma move_table [keeps]:
  "keeps_table2 (uiomove_at buf skip len)" "keeps_table2 (uiomove_slot i skip len)" "keeps_table2 (uiomovezerosP n)"
  "keeps_table next_random"
  by (auto simp: uiomove_at_def uiomove_slot_def uiomovezerosP_def next_random_def intro!: keeps)

lemma blocks_table [keeps]:
  "keeps_table2 (partial_replace skip len b)" "keeps_table2 (partial_block vn skip len b)" "keeps_table2 (whole_block b)"
  by (auto simp: partial_replace_def partial_block_def whole_block_def Let_def intro!: keeps)

lemma partialio_table [keeps]: "keeps_table2 (sfs_partialio vn skip len)" "keeps_table2 (sfs_blockio vn)"
  by (auto simp: sfs_partialio_def sfs_blockio_def Let_def intro!: keeps)

lemma io_out_table [keeps]: "keeps_table2 (sfs_io_out vn extra r)"
  unfolding sfs_io_out_def by (intro keeps) auto

lemma io_table [keeps]: "keeps_table2 (sfs_io vn)"
  unfolding sfs_io_def sfs_io_blocks_def sfs_io_aligned_def Let_def by (auto intro!: keeps)

lemma dirent_table [keeps]:
  "keeps_table (sfs_readdir vn i)" "keeps_table (sfs_writedir vn sd i)" "keeps_table (sfs_dir_nentries vn)"
  "keeps_table (sfs_dir_unlink vn i)"
  by (auto simp: sfs_readdir_def sfs_writedir_def sfs_dir_nentries_def sfs_dir_unlink_def intro!: keeps)

lemma scan_table [keeps]: "keeps_table (dir_scan vn name is found e)"
  by (induction "is" arbitrary: found e) (auto intro!: keeps)

lemma dir_table [keeps]: "keeps_table (sfs_dir_findname vn name)" "keeps_table (sfs_dir_link vn name ino)"
  by (auto simp: sfs_dir_findname_def sfs_dir_link_def intro!: keeps)

section \<open>The buffer cache\<close>

text \<open>Only partial blocks go through the cache; space management and inodes do not.\<close>

abbreviation keeps_cache :: "(sfs_fs, 'a) proc \<Rightarrow> bool" where
  "keeps_cache m \<equiv> keeps sfs_rcache m"

abbreviation keeps_cache2 :: "(ustream \<times> sfs_fs, 'a) proc \<Rightarrow> bool" where
  "keeps_cache2 m \<equiv> keeps (\<lambda>us. sfs_rcache (snd us)) m"

lemma upd_cache [simp]: "sfs_rcache (upd_inode vn f s) = sfs_rcache s"
  by (simp add: upd_inode_def)

lemma bfree_cache [keeps]: "keeps_cache (sfs_bfree b)"
  by (auto simp: sfs_bfree_def intro!: keeps)

lemma trunc_scan_cache [keeps]: "keeps_cache (trunc_scan bl js buf nz dirty)"
  by (induction js arbitrary: buf nz dirty) (auto intro!: keeps)

lemma truncate_cache [keeps]: "keeps_cache (sfs_truncate vn len)"
  unfolding sfs_truncate_def trunc_direct_def trunc_indirect_def trunc_finish_def Let_def
  by (auto intro!: keeps)

lemma reclaim_cache [keeps]: "keeps_cache (sfs_reclaim vn)"
  unfolding sfs_reclaim_def reclaim_discard_def vop_truncate_def sfs_sync_inode_def vnode_check_def vnode_cleanup_def
  by (auto intro!: keeps split: sfs_ops.splits)

end
