(* ===== verification/Sfs_Names.thy ===== *)
theory Sfs_Names
  imports Sfs_Ops Sfs_Frame
begin

text \<open>
  What the directory operations of the Simple File System achieve together: creating a file
  allocates an inode, loads it, enters the name and counts the link; looking up a path depends
  on what the kernel stack held before.
\<close>

section \<open>Directories in a larger state\<close>

lemma dir_view:
  assumes d: "dir_ok vn s" and h: "sv_i (vnode_heap s' vn) = sv_i (vnode_heap s vn)" "sv_ino (vnode_heap s' vn) = sv_ino (vnode_heap s vn)"
    and r: "sfs_rcache s' = sfs_rcache s" "sfs_super s' = sfs_super s"
    and c: "\<And>b. b \<in> set (owned s vn) \<Longrightarrow> disk s' b = disk s b"
  shows "dents s' vn = dents s vn" "owned s' vn = owned s vn" "dir_room k vn s' = dir_room k vn s"
    "fs_ok s' \<Longrightarrow> used (sfs_freemap s) \<subseteq> used (sfs_freemap s') \<Longrightarrow> dir_ok vn s'"
proof -
  have rd: "ready vn s" using d by (simp add: dir_ok_def)
  have "id_entries s' vn = id_entries s vn"
    using c [of "sfi_indirect (sv_i (vnode_heap s vn))"] h by (auto simp: id_entries_def Let_def owned_def cells_def)
  then have b: "blocks s' vn = blocks s vn" by (simp add: blocks_def h)
  show o: "owned s' vn = owned s vn" by (simp add: owned_def cells_def b h)
  have fb: "fblock s' vn = fblock s vn" by (simp add: fblock_def b fun_eq_iff)
  have ca: "cached s' = cached s" "free_slots s' = free_slots s" by (simp_all add: cached_def free_slots_def r fun_eq_iff)
  have ne: "nentries s' vn = nentries s vn" "dblocks vn s' = dblocks vn s" by (simp_all add: nentries_def dblocks_def h)
  have w: "warm vn m s' = warm vn m s" for m by (simp add: warm_def fb ca h)
  show "dir_room k vn s' = dir_room k vn s" by (simp add: dir_room_def ne ca w)
  have l: "ldata s' vn n = ldata s vn n" if "n < SFS_NDIRECT + SFS_DBPERIDB" for n
  proof -
    have "fblock s vn n = 0 \<or> fblock s vn n \<in> set (owned s vn)"
      using that length_cells(1) [of s vn] rd by (auto simp: ready_def owned_def cells_def fblock_def)
    then show ?thesis using c by (auto simp: ldata_def fb ca h split: option.split)
  qed
  have "dent s' vn i = dent s vn i" if "i < nentries s vn" for i
    by (rule dent_cong) (use l dblocks_bound(3) [OF d that] in \<open>simp add: fbyte_def\<close>)
  then show "dents s' vn = dents s vn" by (simp add: dents_def ne)
  show "dir_ok vn s'" if "fs_ok s'" "used (sfs_freemap s) \<subseteq> used (sfs_freemap s')"
  proof -
    have "cache_ok s'" using rd that(2) by (simp add: ready_def cache_ok_def r) blast
    moreover have "file_ok s' vn" using rd that(2) by (auto simp: ready_def file_ok_def o h r)
    ultimately show ?thesis using d that(1) by (simp add: dir_ok_def ready_def h r fb ne)
  qed
qed

text \<open>A larger state: nothing the table of vnodes or the blocks in use held has changed.\<close>

definition grown :: "sfs_fs \<Rightarrow> sfs_fs \<Rightarrow> bool" where
  "grown s s' \<longleftrightarrow> fs_ok s' \<and> vnodes_ok s' \<and> sfs_super s' = sfs_super s \<and> sfs_rcache s' = sfs_rcache s \<and>
     (\<forall>w\<in>set (sfs_vnodes s). w \<in> set (sfs_vnodes s') \<and> vnode_heap s' w = vnode_heap s w) \<and>
     used (sfs_freemap s) \<subseteq> used (sfs_freemap s') \<and> (\<forall>b\<in>used (sfs_freemap s). disk s' b = disk s b)"

lemma grown_trans: "grown s s1 \<Longrightarrow> grown s1 s2 \<Longrightarrow> grown s s2"
  unfolding grown_def by (simp add: subset_iff)

lemma grown_dir:
  assumes "grown s s'" "dir_ok vn s" "vn \<in> set (sfs_vnodes s)"
  shows "dir_ok vn s'" "dents s' vn = dents s vn" "dir_room k vn s' = dir_room k vn s" "nentries s' vn = nentries s vn"
proof -
  have "disk s' b = disk s b" if "b \<in> set (owned s vn)" for b
    using assms(1,2) that by (auto simp: grown_def dir_ok_def ready_def file_ok_def)
  moreover have s: "sv_i (vnode_heap s' vn) = sv_i (vnode_heap s vn)" "sv_ino (vnode_heap s' vn) = sv_ino (vnode_heap s vn)"
    "sfs_rcache s' = sfs_rcache s" "sfs_super s' = sfs_super s"
    "fs_ok s'" "used (sfs_freemap s) \<subseteq> used (sfs_freemap s')"
    using assms(1,3) by (simp_all add: grown_def)
  ultimately show "dir_ok vn s'" "dents s' vn = dents s vn" "dir_room k vn s' = dir_room k vn s"
    using dir_view [OF assms(2) s(1-4)] by auto
  show "nentries s' vn = nentries s vn" by (simp add: nentries_def s)
qed

lemma alloc_grown:
  assumes "alloc_step b s s'" "vnodes_ok s"
  shows "grown s s'" "loaded s' b = None"
proof -
  show "grown s s'" using assms by (auto simp: alloc_step_def grown_def same_rest_def vnodes_ok_def)
  show "loaded s' b = None"
    using assms by (auto simp: loaded_def find_None_iff alloc_step_def same_rest_def vnodes_ok_def)
qed

lemma load_grown:
  assumes ok: "fs_ok s" "vnodes_ok s" and lo: "loaded s ino = None" "load_ok ino t s"
    and r: "load_result s (new_vnode ino t (dec_inode (disk s ino))) r s'"
  shows "grown s s'"
proof -
  note l = load_result_ok [OF assms]
  have "w \<in> set (sfs_vnodes s')" if "w \<in> set (sfs_vnodes s)" for w
    using r that by (auto simp: load_result_def scrap_sel split: sum.splits)
  then show ?thesis using l by (simp add: grown_def)
qed

section \<open>New objects\<close>

definition new_inode :: "nat \<Rightarrow> nat \<Rightarrow> sfs_inode" where
  "new_inode t links = \<lparr>sfi_size = 0, sfi_type = t, sfi_linkcount = links, sfi_direct = replicate SFS_NDIRECT 0,
     sfi_indirect = 0, sfi_waste = replicate 440 0\<rparr>"

lemma dec_inode_zero: "dec_inode zero_block = new_inode SFS_TYPE_INVAL 0"
  by (simp add: dec_inode_def new_inode_def field_def dec_zeros dec_words_zeros)

text \<open>The vnode of a fresh inode.\<close>

definition made :: "nat \<Rightarrow> sfs_fs \<Rightarrow> nat \<Rightarrow> sfs_fs \<Rightarrow> bool" where
  "made t s g s' \<longleftrightarrow> g \<notin> set (sfs_vnodes s) \<and> sfs_vnodes s' = sfs_vnodes s @ [g] \<and>
     (\<exists>ino. ino \<noteq> 0 \<and> ino \<notin> used (sfs_freemap s) \<and> used (sfs_freemap s') = insert ino (used (sfs_freemap s)) \<and>
       ino < sp_nblocks (sfs_super s) \<and> vnode_heap s' g = new_vnode ino t (new_inode SFS_TYPE_INVAL 0))"

lemma makeobj_spec:
  assumes ok: "fs_ok s" "vnodes_ok s" and t: "type_ops t \<noteq> None"
  shows "wp (sfs_makeobj t) (\<lambda>r s'. grown s s' \<and>
    (case r of Inl e \<Rightarrow> e \<in> {ENOSPC, ENOMEM} \<and> sfs_vnodes s' = sfs_vnodes s | Inr g \<Rightarrow> made t s g s')) s"
  unfolding sfs_makeobj_def
proof (rule wp_call [OF balloc_spec [OF ok(1)]])
  fix e s1 assume "case Inl e of Inl e \<Rightarrow> e = ENOSPC \<and> s1 = s \<and> used (sfs_freemap s) = {..<nbits (sfs_freemap s)}
    | Inr b \<Rightarrow> alloc_step b s s1"
  then show "grown s s1 \<and> (case Inl e of Inl e \<Rightarrow> e \<in> {ENOSPC, ENOMEM} \<and> sfs_vnodes s1 = sfs_vnodes s | Inr g \<Rightarrow> made t s g s1)"
    using ok by (simp add: grown_def)
next
  fix b s1 assume "case Inr b of Inl e \<Rightarrow> e = ENOSPC \<and> s1 = s \<and> used (sfs_freemap s) = {..<nbits (sfs_freemap s)}
    | Inr b \<Rightarrow> alloc_step b s s1"
  then have al: "alloc_step b s s1" by simp
  note g = alloc_grown [OF al ok(2)]
  have s1: "fs_ok s1" "vnodes_ok s1" "disk s1 b = zero_block" using al g by (simp_all add: alloc_step_def grown_def)
  have tz: "t \<noteq> SFS_TYPE_INVAL" using t by (simp add: type_ops_def split: if_splits)
  have lo: "load_ok b t s1" using al t tz s1(3) dec_inode_zero by (auto simp: load_ok_def alloc_step_def same_rest_def new_inode_def)
  show "wp (sfs_loadvnode b t) (\<lambda>r s'. grown s s' \<and>
      (case r of Inl e \<Rightarrow> e \<in> {ENOSPC, ENOMEM} \<and> sfs_vnodes s' = sfs_vnodes s | Inr g \<Rightarrow> made t s g s')) s1"
  proof (rule wp_mono [OF loadvnode_spec [OF s1(1,2) lo]])
    fix r s' assume "load_post b t s1 r s'"
    then have r: "load_result s1 (new_vnode b t (dec_inode (disk s1 b))) r s'" by (simp add: load_post_def g(2))
    note g' = load_grown [OF s1(1,2) g(2) lo r]
    have "made t s x s'" if "r = Inr x" for x
      using r that al vnode_ptr_fresh [of s1] s1(3)
      by (auto simp: load_result_def made_def alloc_step_def same_rest_def scrap_sel dec_inode_zero)
    then show "grown s s' \<and> (case r of Inl e \<Rightarrow> e \<in> {ENOSPC, ENOMEM} \<and> sfs_vnodes s' = sfs_vnodes s | Inr g \<Rightarrow> made t s g s')"
      using r grown_trans [OF g(1) g'] al by (auto simp: load_result_def alloc_step_def same_rest_def scrap_sel(5) split: sum.split)
  qed (simp add: g(2))
qed

section \<open>Creating files\<close>

lemma step_vnodes:
  assumes st: "dir_step vn s s'" and t: "vtable s' = vtable s" and ok: "vnodes_ok s"
  shows "vnodes_ok s'"
proof -
  have vs: "sfs_vnodes s' = sfs_vnodes s" using t by (simp add: vtable_def)
  have w: "vn_refcount (vnode_heap s' w) = vn_refcount (vnode_heap s w)" "vn_ops (vnode_heap s' w) = vn_ops (vnode_heap s w)"
    "sv_ino (vnode_heap s' w) = sv_ino (vnode_heap s w)" for w
    using t by (simp_all add: vtable_def fun_eq_iff)
  have ty: "sfi_type (sv_i (vnode_heap s' w)) = sfi_type (sv_i (vnode_heap s w))" for w
    using st by (cases "w = vn") (simp_all add: dir_step_def file_step_def)
  show ?thesis using ok st unfolding vnodes_ok_def vs w ty dir_step_def file_step_def by auto
qed

text \<open>The vnode of a new object that could not be linked is reclaimed, and its inode freed.\<close>

lemma made_idle:
  assumes m: "made t s g s1" and g1: "grown s s1" and st: "dir_step vn s1 s2" "vtable s2 = vtable s1"
    and vn: "vn \<in> set (sfs_vnodes s)" and t: "type_ops t \<noteq> None"
  shows "idle g s2" "vnode_heap s2 g = vnode_heap s1 g" "owned s2 g = []"
proof -
  have ok: "fs_ok s2" "vnodes_ok s2" using st step_vnodes [OF st] g1 by (simp_all add: dir_step_def file_step_def grown_def)
  have gv: "g \<noteq> vn" using m vn by (auto simp: made_def)
  then show h: "vnode_heap s2 g = vnode_heap s1 g" using st by (simp add: dir_step_def file_step_def)
  obtain ino where i: "ino \<noteq> 0" "vnode_heap s1 g = new_vnode ino t (new_inode SFS_TYPE_INVAL 0)" using m by (auto simp: made_def)
  have tt: "t \<noteq> SFS_TYPE_INVAL" "t < 2 ^ 16" using t by (simp_all add: type_ops_def split: if_splits)
  have sv: "sv_i (vnode_heap s2 g) = new_inode t 0" using i tt by (simp add: h new_vnode_def new_inode_def)
  show o: "owned s2 g = []" by (simp add: owned_def cells_def blocks_def id_entries_def Let_def sv new_inode_def)
  have "file_ok s2 g" using tt by (simp add: file_ok_def o sv inode_wf_def new_inode_def)
  moreover have "g \<in> set (sfs_vnodes s2)" using m st(2) by (simp add: made_def vtable_def)
  ultimately show "idle g s2" using ok o i by (simp add: idle_def h new_vnode_def)
qed

lemma unmake:
  assumes m: "made t s g s1" and g1: "grown s s1" and st: "dir_step vn s1 s2" "vtable s2 = vtable s1"
    and d: "dir_ok vn s" "dir_ok vn s2" and vn: "vn \<in> set (sfs_vnodes s)" and t: "t = SFS_TYPE_FILE"
  shows "wp (vnode_decref g) (\<lambda>r s'. r = Inr () \<and> fs_ok s' \<and> vnodes_ok s' \<and> dents s' vn = dents s2 vn \<and>
    sfs_vnodes s' = sfs_vnodes s \<and> (\<forall>w. w \<noteq> g \<longrightarrow> vnode_heap s' w = vnode_heap s2 w) \<and>
    used (sfs_freemap s') = used (sfs_freemap s2) - {sv_ino (vnode_heap s1 g)}) s2"
proof -
  have t': "type_ops t \<noteq> None" by (simp add: t type_ops_def)
  note i = made_idle [OF m g1 st vn t']
  obtain ino where ino: "ino \<notin> used (sfs_freemap s)" "used (sfs_freemap s1) = insert ino (used (sfs_freemap s))"
    "vnode_heap s1 g = new_vnode ino t (new_inode SFS_TYPE_INVAL 0)" using m by (auto simp: made_def)
  have sv: "vn_ops (vnode_heap s2 g) = sfs_fileops" "sfi_linkcount (sv_i (vnode_heap s2 g)) = 0" "sv_ino (vnode_heap s2 g) = ino"
    "vn_refcount (vnode_heap s2 g) = 1"
    by (simp_all add: i(2) ino(3) new_vnode_def t type_ops_def new_inode_def)
  obtain r s3 where r: "sfs_reclaim g s2 = Some (r, s3)" "reclaimed g s2 s3" "sfs_rcache s3 = sfs_rcache s2"
    using wp_keeps [OF reclaim_spec [OF i(1)] reclaim_cache] sv(1) by (auto elim: wpE)
  have o1: "owned s1 vn = owned s vn"
  proof -
    have "disk s1 b = disk s b" if "b \<in> set (owned s vn)" for b
      using g1 d(1) that by (auto simp: grown_def dir_ok_def ready_def file_ok_def)
    then show ?thesis using g1 vn by (intro dir_view(2) [OF d(1)]) (simp_all add: grown_def)
  qed
  have io: "ino \<notin> set (owned s2 vn)"
    using st(1) ino d(1) unfolding dir_step_def file_step_def o1 by (auto simp: dir_ok_def ready_def file_ok_def)
  have r3: "sfs_super s3 = sfs_super s2" "vnode_heap s3 vn = vnode_heap s2 vn" "b \<noteq> ino \<Longrightarrow> disk s3 b = disk s2 b" for b
    using r(2) sv i(3) m vn by (auto simp: reclaimed_def made_def)
  have "disk s3 b = disk s2 b" if "b \<in> set (owned s2 vn)" for b
    using r3(3) that io by (cases "b = ino") simp_all
  then have "dents s3 vn = dents s2 vn"
    by (intro dir_view(1) [OF d(2)]) (simp_all add: r(3) r3(1,2))
  moreover have "sfs_vnodes s3 = sfs_vnodes s"
    using r(2) st(2) m by (simp add: reclaimed_def vtable_def made_def remove1_append)
  ultimately show ?thesis
    using r(2) decref_last [OF sv(4) r(1)] sv i(3) by (simp add: wp_def reclaimed_def i(2))
qed

text \<open>The state after a file was created under a new name.\<close>

definition created :: "nat \<Rightarrow> name \<Rightarrow> nat \<Rightarrow> sfs_fs \<Rightarrow> sfs_fs \<Rightarrow> bool" where
  "created vn name g s s' \<longleftrightarrow> dir_ok vn s' \<and> g \<notin> set (sfs_vnodes s) \<and> sfs_vnodes s' = sfs_vnodes s @ [g] \<and>
     (\<exists>ino slot. ino \<notin> used (sfs_freemap s) \<and> ino \<in> used (sfs_freemap s') \<and>
       vnode_heap s' g = \<lparr>vn_refcount = 1, vn_opencount = 0, vn_ops = sfs_fileops,
         sv_i = new_inode SFS_TYPE_FILE 1, sv_ino = ino, sv_dirty = True\<rparr> \<and>
       dents s' vn = dir_enter (dents s vn) slot ino name \<and> dir_slot (dents s vn) slot)"

lemma inc_links_created:
  assumes i: "idle g s2" "vnode_heap s2 g = new_vnode ino SFS_TYPE_FILE (new_inode SFS_TYPE_INVAL 0)"
    and d: "dir_ok vn s2" "vn \<noteq> g" "dents s2 vn = dir_enter (dents s vn) slot ino name" "dir_slot (dents s vn) slot"
    and ino: "ino \<notin> used (sfs_freemap s)" "ino \<in> used (sfs_freemap s2)"
    and g: "sfs_vnodes s2 = sfs_vnodes s @ [g]" "g \<notin> set (sfs_vnodes s)"
  shows "created vn name g s (inc_links g s2)" "fs_ok (inc_links g s2)" "vnodes_ok (inc_links g s2)"
    "w \<noteq> g \<Longrightarrow> vnode_heap (inc_links g s2) w = vnode_heap s2 w"
proof -
  let ?s = "inc_links g s2"
  have ok: "fs_ok s2" "vnodes_ok s2" using i(1) by (simp_all add: idle_def)
  have hg: "vnode_heap ?s g = \<lparr>vn_refcount = 1, vn_opencount = 0, vn_ops = sfs_fileops,
     sv_i = new_inode SFS_TYPE_FILE 1, sv_ino = ino, sv_dirty = True\<rparr>"
    by (simp add: inc_links_def upd_inode_def i(2) new_vnode_def type_ops_def new_inode_def)
  show w: "vnode_heap ?s w = vnode_heap s2 w" if "w \<noteq> g" for w using that by (simp add: inc_links_def upd_inode_def)
  have sel: "sfs_rcache ?s = sfs_rcache s2" "sfs_super ?s = sfs_super s2" "disk ?s = disk s2"
    "sfs_freemap ?s = sfs_freemap s2" "sfs_vnodes ?s = sfs_vnodes s2" and f: "fs_ok ?s"
    using ok by (simp_all add: inc_links_def upd_inode_def)
  show "fs_ok ?s" by (rule f)
  have "dir_ok vn ?s" "dents ?s vn = dents s2 vn"
    using dir_view [OF d(1), of ?s] sel f w [OF d(2)] by simp_all
  then show "created vn name g s ?s" using d(3,4) hg sel g ino by (auto simp: created_def)
  show "vnodes_ok ?s"
    unfolding inc_links_def upd_inode_def by (rule vnodes_ok_upd [OF ok(2)]) (use i(1) in \<open>simp_all add: idle_def\<close>)
qed

text \<open>From the new object on: the entry in the directory and the link count.\<close>

lemma creat_link:
  assumes d: "dir_ok vn s" "dir_room 1 vn s" "unique_names (dents s vn)" "64 * nentries s vn + 64 \<le> SFS_MAXFILE"
    and vn: "vn \<in> set (sfs_vnodes s)" and new: "dir_lookup (dents s vn) name = None"
    and g1: "grown s s1" and m: "made SFS_TYPE_FILE s g s1"
  shows "wp (bindP (ino_of g) (\<lambda>ino. tryP (sfs_dir_link vn name ino) (\<lambda>result.
      case result of
        Inl e \<Rightarrow> bindP (vnode_decref g) (\<lambda>_. throwP e)
      | Inr _ \<Rightarrow> bindP (modP (inc_links g)) (\<lambda>_. retP g))))
    (\<lambda>r s'. fs_ok s' \<and> vnodes_ok s' \<and> (\<forall>w\<in>set (sfs_vnodes s). w \<noteq> vn \<longrightarrow> vnode_heap s' w = vnode_heap s w) \<and>
      (case r of
         Inl e \<Rightarrow> e = (if SFS_NAMELEN \<le> length name then ENAMETOOLONG else ENOSPC) \<and> dents s' vn = dents s vn \<and>
           sfs_vnodes s' = sfs_vnodes s
       | Inr x \<Rightarrow> x = g \<and> length name < SFS_NAMELEN \<and> created vn name g s s')) s1" (is "wp ?m ?Q s1")
proof -
  note d1 = grown_dir [OF g1 d(1) vn]
  obtain ino where ino: "ino \<notin> used (sfs_freemap s)" "used (sfs_freemap s1) = insert ino (used (sfs_freemap s))" "ino \<noteq> 0"
    "ino < sp_nblocks (sfs_super s)" "vnode_heap s1 g = new_vnode ino SFS_TYPE_FILE (new_inode SFS_TYPE_INVAL 0)"
    and gv: "sfs_vnodes s1 = sfs_vnodes s @ [g]" "g \<notin> set (sfs_vnodes s)"
    using m by (auto simp: made_def)
  have sino: "sv_ino (vnode_heap s1 g) = ino" by (simp add: ino(5) new_vnode_def)
  have b: "ino < 2 ^ 32" using ino(4) fs_okD(6) [of s ino] d(1) by (simp add: dir_ok_def ready_def)
  have t: "type_ops SFS_TYPE_FILE \<noteq> None" by (simp add: type_ops_def)
  note lk = wp_keeps [OF link_spec [of vn s1 ino name, OF d1(1)] dir_table(2)]
  have "wp (tryP (sfs_dir_link vn name ino) (\<lambda>result. case result of
        Inl e \<Rightarrow> bindP (vnode_decref g) (\<lambda>_. throwP e)
      | Inr _ \<Rightarrow> bindP (modP (inc_links g)) (\<lambda>_. retP g))) ?Q s1"
  proof (rule wp_call_try [OF lk], goal_cases)
    case (5 r s2)
    then have st: "dir_step vn s1 s2" "vtable s2 = vtable s1" and d2: "dir_ok vn s2" by blast+
    note i = made_idle [OF m g1 st vn t]
    have h2: "vnode_heap s2 w = vnode_heap s w" if "w \<in> set (sfs_vnodes s)" "w \<noteq> vn" for w
      using st(1) g1 that by (simp add: dir_step_def file_step_def grown_def)
    have gn: "w \<noteq> g" if "w \<in> set (sfs_vnodes s)" for w using that gv(2) by blast
    have ok2: "fs_ok s2" "vnodes_ok s2" using i(1) by (simp_all add: idle_def)
    show ?case
    proof (cases r)
      case (Inl e)
      then have e: "dents s2 vn = dents s vn" "e = (if SFS_NAMELEN \<le> length name then ENAMETOOLONG else ENOSPC)"
        using 5 new by (auto simp: d1(2) split: if_splits)
      have "wp (bindP (vnode_decref g) (\<lambda>_. throwP e)) ?Q s2"
        by (rule wp_call [OF unmake [OF m g1 st d(1) d2 vn refl]]) (use e h2 gn in \<open>auto simp: wp_throw\<close>)
      then show ?thesis by (simp add: Inl)
    next
      case (Inr slot)
      have e: "length name < SFS_NAMELEN" "dents s2 vn = dir_enter (dents s vn) (link_slot (dents s vn)) ino name"
        using 5 by (auto simp: d1(2) Inr)
      have "ino \<in> used (sfs_freemap s2)" using st(1) ino(2) by (auto simp: dir_step_def file_step_def)
      moreover have "sfs_vnodes s2 = sfs_vnodes s @ [g]" using st(2) gv(1) by (simp add: vtable_def)
      ultimately have "?Q (Inr g) (inc_links g s2)"
        using inc_links_created [OF i(1) _ d2 gn [OF vn] e(2) link_slot_ok ino(1)] i(2) ino(5) gv(2) e(1) h2 gn by simp
      then show ?thesis by (simp add: Inr wp_simps)
    qed
  qed (use d d1 b in simp_all)
  then show ?thesis by (simp add: ino_of_def wp_simps sino)
qed

text \<open>Loading the inode of an entry that is there.\<close>

definition resolvable :: "nat \<Rightarrow> nat \<Rightarrow> sfs_fs \<Rightarrow> bool" where
  "resolvable vn ino s \<longleftrightarrow> loaded s ino \<noteq> None \<or> load_ok ino SFS_TYPE_INVAL s \<and> ino \<notin> set (owned s vn)"

definition refs :: "sfs_fs \<Rightarrow> nat \<Rightarrow> nat" where
  "refs s ino = (case loaded s ino of Some g \<Rightarrow> vn_refcount (vnode_heap s g) | None \<Rightarrow> 0)"

lemma loaded_table: "vtable s' = vtable s \<Longrightarrow> loaded s' = loaded s" "vtable s' = vtable s \<Longrightarrow> refs s' = refs s"
proof -
  assume t: "vtable s' = vtable s"
  then have "sfs_vnodes s' = sfs_vnodes s" "sv_ino (vnode_heap s' w) = sv_ino (vnode_heap s w)"
    "vn_refcount (vnode_heap s' w) = vn_refcount (vnode_heap s w)" for w
    by (simp_all add: vtable_def fun_eq_iff)
  then show "loaded s' = loaded s" "refs s' = refs s" by (simp_all add: loaded_def refs_def fun_eq_iff cong: option.case_cong)
qed

lemma resolvable_step:
  assumes "resolvable vn ino s" "dir_step vn s s'" "vtable s' = vtable s" "loaded s' ino = None"
  shows "load_ok ino SFS_TYPE_INVAL s'"
  using assms loaded_table(1) [OF assms(3)]
  by (auto simp: resolvable_def load_ok_def dir_step_def file_step_def Let_def)

lemma load_existing:
  assumes d: "dir_ok vn s" "vn \<in> set (sfs_vnodes s)" and ok: "fs_ok s" "vnodes_ok s"
    and lo: "loaded s ino = None \<Longrightarrow> load_ok ino SFS_TYPE_INVAL s"
  shows "wp (sfs_loadvnode ino SFS_TYPE_INVAL) (\<lambda>r s'. fs_ok s' \<and> vnodes_ok s' \<and> dir_ok vn s' \<and> dents s' vn = dents s vn \<and>
    (case r of
       Inl e \<Rightarrow> e = ENOMEM \<and> loaded s ino = None
     | Inr g \<Rightarrow> loaded s' ino = Some g \<and> refs s' ino = refs s ino + 1)) s" (is "wp _ ?Q s")
proof (rule wp_mono [OF loadvnode_spec [OF ok lo]])
  fix r s' assume p: "load_post ino SFS_TYPE_INVAL s r s'"
  show "?Q r s'"
  proof (cases "loaded s ino")
    case (Some g)
    let ?s = "upd_vnode g (\<lambda>sv. sv\<lparr>vn_refcount := vn_refcount sv + 1\<rparr>) s"
    have s': "r = Inr g" "s' = ?s" using p Some by (simp_all add: load_post_def)
    have v: "vnodes_ok ?s" by (rule vnodes_ok_upd [OF ok(2)]) simp_all
    have "sv_i (vnode_heap ?s w) = sv_i (vnode_heap s w)" "sv_ino (vnode_heap ?s w) = sv_ino (vnode_heap s w)" for w
      by (cases "w = g"; simp)+
    moreover from this have "loaded ?s ino = Some g" using Some by (simp add: loaded_def)
    ultimately show ?thesis
      using dir_view [OF d(1), of ?s] s' v ok Some by (simp add: refs_def)
  next
    case None
    then have lr: "load_result s (new_vnode ino SFS_TYPE_INVAL (dec_inode (disk s ino))) r s'"
      using p by (simp add: load_post_def)
    note g = load_grown [OF ok None lo [OF None] lr]
    have v: "fs_ok s'" "vnodes_ok s'" using g by (simp_all add: grown_def)
    have "loaded s' ino = Some x" "vn_refcount (vnode_heap s' x) = 1" if "r = Inr x" for x
      using lr that loaded_Some [OF v(2)] by (auto simp: load_result_def new_vnode_def)
    then show ?thesis
      using grown_dir [OF g d] v None lr by (cases r) (auto simp: load_result_def refs_def)
  qed
qed simp_all

lemma creat_spec:
  assumes d: "dir_ok vn s" "dir_room 1 vn s" "unique_names (dents s vn)" "64 * nentries s vn + 64 \<le> SFS_MAXFILE"
    and vn: "vnodes_ok s" "vn \<in> set (sfs_vnodes s)"
    and old: "\<And>ino slot. dir_lookup (dents s vn) name = Some (ino, slot) \<Longrightarrow> resolvable vn ino s"
  shows "wp (sfs_creat vn name excl) (\<lambda>r s'. fs_ok s' \<and> vnodes_ok s' \<and>
    (case dir_lookup (dents s vn) name of
       Some (ino, _) \<Rightarrow> dir_ok vn s' \<and> dents s' vn = dents s vn \<and>
         (if excl then r = Inl EEXIST else r = Inl ENOMEM \<or> (\<exists>g. r = Inr g \<and> loaded s' ino = Some g \<and> refs s' ino = refs s ino + 1))
     | None \<Rightarrow> (\<forall>w\<in>set (sfs_vnodes s). w \<noteq> vn \<longrightarrow> vnode_heap s' w = vnode_heap s w) \<and>
         (case r of
            Inl e \<Rightarrow> e \<in> {ENOSPC, ENOMEM} \<union> (if SFS_NAMELEN \<le> length name then {ENAMETOOLONG} else {}) \<and>
              dents s' vn = dents s vn \<and> sfs_vnodes s' = sfs_vnodes s
          | Inr g \<Rightarrow> length name < SFS_NAMELEN \<and> created vn name g s s'))) s" (is "wp _ ?Q s")
  unfolding sfs_creat_def
proof (rule wp_call [OF wp_keeps [OF findname_spec [OF d(1-3)] dir_table(1)]], goal_cases)
  case (2 x s1)
  then have x: "x = (dir_lookup (dents s vn) name, last_free (dents s vn))" and lk: "looked 1 vn s s1"
    and t: "vtable s1 = vtable s" by simp_all
  have d1: "dir_ok vn s1" "dir_room 1 vn s1" "dents s1 vn = dents s vn" "nentries s1 vn = nentries s vn"
    using lk by (simp_all add: looked_def)
  note st = looked_step [OF lk]
  have v1: "vnodes_ok s1" "sfs_vnodes s1 = sfs_vnodes s" "fs_ok s1"
    using step_vnodes [OF st t vn(1)] t d1(1) by (simp_all add: vtable_def dir_ok_def ready_def)
  have h1: "w \<noteq> vn \<Longrightarrow> vnode_heap s1 w = vnode_heap s w" for w using st by (simp add: dir_step_def file_step_def)
  have u1: "used (sfs_freemap s) \<subseteq> used (sfs_freemap s1)" using st by (simp add: dir_step_def file_step_def)
  show ?case
  proof (cases "dir_lookup (dents s vn) name")
    case None
    have "wp (bindP (sfs_makeobj SFS_TYPE_FILE) (\<lambda>newguy. bindP (ino_of newguy) (\<lambda>ino.
         tryP (sfs_dir_link vn name ino) (\<lambda>result. case result of
           Inl e \<Rightarrow> bindP (vnode_decref newguy) (\<lambda>_. throwP e)
         | Inr _ \<Rightarrow> bindP (modP (inc_links newguy)) (\<lambda>_. retP newguy))))) ?Q s1"
    proof (rule wp_call [OF makeobj_spec [OF v1(3,1)]], goal_cases)
      case (2 e s2)
      then have g: "grown s1 s2" by simp
      then show ?case
        using 2 None grown_dir(2) [OF g d1(1)] vn(2) v1(2) h1 d1(3) by (auto simp: grown_def)
    next
      case (3 g s2)
      then have g: "grown s1 s2" "made SFS_TYPE_FILE s1 g s2" by simp_all
      show ?case
        by (rule wp_mono [OF creat_link [OF d1(1,2) _ _ _ _ g, of name]])
          (use d vn d1 v1 h1 u1 None in \<open>auto simp: created_def split: sum.splits if_splits\<close>)
    qed (simp add: type_ops_def)
    then show ?thesis by (simp add: x None)
  next
    case (Some a)
    obtain ino slot where a: "a = (ino, slot)" by (cases a)
    show ?thesis
    proof (cases excl)
      case True
      then show ?thesis using x Some a d1 v1 by (simp add: wp_simps)
    next
      case False
      have "wp (sfs_loadvnode ino SFS_TYPE_INVAL) ?Q s1"
        by (rule wp_mono [OF load_existing [OF d1(1) _ v1(3,1) resolvable_step [OF old st t]]])
          (use Some a False vn v1 d1 loaded_table [OF t] in \<open>auto split: sum.splits\<close>)
      then show ?thesis using False by (simp add: x Some a)
    qed
  qed
qed simp

section \<open>Looking up paths\<close>

text \<open>\<open>sfs_parsepath\<close> copies a component to the same position of the buffer it starts at in the path.\<close>

lemma parse_from_spec:
  assumes "path = pre @ q @ c # post" "c = slash \<or> c = 0" "slash \<notin> set q" "0 \<notin> set q" "length pre + length q \<le> length sp"
  shows "parse_from path sp (length pre) =
    Some (length pre + length q, take (length pre) sp @ q @ drop (length pre + length q) sp)"
  using assms
proof (induction q arbitrary: pre sp)
  case Nil
  then show ?case by (subst parse_from.simps) (auto simp: nth_append)
next
  case (Cons x q)
  let ?n = "length pre" and ?sp = "sp[length pre := x]"
  have "parse_from path ?sp (length (pre @ [x])) = Some (length (pre @ [x]) + length q,
      take (length (pre @ [x])) ?sp @ q @ drop (length (pre @ [x]) + length q) ?sp)"
    by (rule Cons.IH) (use Cons.prems in auto)
  moreover have "take (Suc ?n) ?sp = take ?n sp @ [x]" "drop (Suc (?n + length q)) ?sp = drop (Suc (?n + length q)) sp"
    using Cons.prems(5) by (simp_all add: take_Suc_conv_app_nth)
  moreover have "path ! ?n = x" "?n < length path" "?n < length sp" "x \<noteq> slash" "x \<noteq> 0"
    using Cons.prems by (auto simp: nth_append)
  ultimately show ?case by (subst parse_from.simps) simp
qed

text \<open>The first name that is looked up on a path with a slash.\<close>

definition stack_name :: "bytes \<Rightarrow> name \<Rightarrow> name" where
  "stack_name junk q = cstr (take 1 junk @ q @ drop (Suc (length q)) junk)"

lemma lookup_first:
  assumes p: "x \<noteq> 0" "0 \<notin> set q" "slash \<notin> set q" "0 \<notin> set rest"
    and b: "length q + length rest + 2 < length buf" "length q < length sub" "0 \<in> set (drop (Suc (length q)) sub)"
    and d: "sfi_type (sv_i (vnode_heap s vn)) = SFS_TYPE_DIR"
  shows "\<exists>m. sfs_lookup buf sub vn (x # q @ slash # rest) s = bindP (sfs_lookonce vn (stack_name sub q)) m s"
proof -
  let ?p = "x # q @ slash # rest"
  have "cstr (?p @ [0]) = ?p" using p by (simp add: cstr_def takeWhile_append2 takeWhile_append)
  then obtain t where "strcpy buf (?p @ [0]) = Some (?p @ 0 # t)"
    using strcpy_spec [of "?p @ [0]" buf] b(1) by auto
  then have c: "strcpy buf (x # q @ slash # rest @ [0]) = Some ([x] @ q @ slash # (rest @ 0 # t))" by simp
  have sp: "sfs_parsepath ([x] @ q @ slash # (rest @ 0 # t)) sub =
      Some (Suc (length q), take 1 sub @ q @ drop (Suc (length q)) sub)"
    unfolding sfs_parsepath_def using parse_from_spec [OF refl, of slash q "[x]" sub "rest @ 0 # t"] p b(2) by simp
  have "sfs_lookup buf sub vn ?p s = lookup_loop vn ([x] @ q @ slash # (rest @ 0 # t)) sub s"
    using d c by (simp add: sfs_lookup_def bind_run optP_def)
  then show ?thesis
    using b(3) sp by (subst (asm) lookup_loop.simps) (auto simp: stack_name_def Let_def)
qed

section \<open>An example volume\<close>

text \<open>The example directory as the only vnode of the table.\<close>

definition sfsn :: sfs_fs where
  "sfsn = sfsd\<lparr>sfs_vnodes := [0]\<rparr>"

lemma sfsn_dir:
  "dir_ok 0 sfsn" "dir_room 1 0 sfsn" "dents sfsn 0 = dents sfsd 0" "64 * nentries sfsn 0 + 64 \<le> SFS_MAXFILE"
  "vnodes_ok sfsn" "0 \<in> set (sfs_vnodes sfsn)"
proof -
  have "fs_ok sfsn" using sfsd_ready [of 0] by (simp add: sfsn_def ready_def fs_ok_def)
  then show "dir_ok 0 sfsn" "dir_room 1 0 sfsn" "dents sfsn 0 = dents sfsd 0"
    using dir_view [where s' = sfsn, OF sfsd_dir(1)] sfsd_dir(2) by (simp_all add: sfsn_def)
  show "64 * nentries sfsn 0 + 64 \<le> SFS_MAXFILE" "0 \<in> set (sfs_vnodes sfsn)"
    using sfsd_dir(3) [of 0] by (simp_all add: sfsn_def nentries_def)
  have "used (sfs_freemap sfsn) = {..<3} \<union> {100..<4096}" "sp_nblocks (sfs_super sfsn) = 100"
    by (simp_all add: sfsn_def sfsd_def sfs1_def sfs0_used) (simp add: sfs0_def)
  then show "vnodes_ok sfsn" by (simp add: vnodes_ok_def) (simp add: sfsn_def sfsd_def type_ops_def)
qed

lemma sfsn_lookup: "dir_lookup (dents sfsn 0) [97] = Some (7, 0)" "dir_lookup (dents sfsn 0) [98] = None"
proof -
  have "entry_name (mk_dirent 7 [97]) = [97]" by (rule entry_name_mk) (simp add: good_name_def)
  then show "dir_lookup (dents sfsn 0) [97] = Some (7, 0)" "dir_lookup (dents sfsn 0) [98] = None"
    by (simp_all add: sfsn_dir(3) sfsd_dents dir_lookup_def hits_def is_hit_def upt_rec)
qed

section \<open>Properties\<close>

text \<open>
  C3: Creating a file. Under a new name, \<open>sfs_creat\<close> makes an empty file with one link: its inode
  was free, its vnode is new in the table, and the directory now maps the name to it and every
  other name as before; failing, it returns \<open>ENOSPC\<close>, \<open>ENOMEM\<close> or, for a long name,
  \<open>ENAMETOOLONG\<close>, and neither the directory nor the table has changed. A name that is there gives
  \<open>EEXIST\<close> if the caller insists on a new file, and otherwise one more reference to the vnode of
  its inode. The file system and the table stay well formed in every case.
\<close>

theorem sfs_creat_correct:
  assumes "dir_ok vn s" "dir_room 1 vn s" "unique_names (dents s vn)" "64 * nentries s vn + 64 \<le> SFS_MAXFILE"
    and "vnodes_ok s" "vn \<in> set (sfs_vnodes s)" "0 \<notin> set name"
    and "\<forall>ino slot. dir_lookup (dents s vn) name = Some (ino, slot) \<longrightarrow> resolvable vn ino s"
  shows "\<exists>r s'. sfs_creat vn name excl s = Some (r, s') \<and> fs_ok s' \<and> vnodes_ok s' \<and>
    (case dir_lookup (dents s vn) name of
       Some (ino, _) \<Rightarrow> dir_ok vn s' \<and> dents s' vn = dents s vn \<and>
         (if excl then r = Inl EEXIST else r = Inl ENOMEM \<or> (\<exists>g. r = Inr g \<and> loaded s' ino = Some g \<and> refs s' ino = refs s ino + 1))
     | None \<Rightarrow> (\<forall>w\<in>set (sfs_vnodes s). w \<noteq> vn \<longrightarrow> vnode_heap s' w = vnode_heap s w) \<and>
         (case r of
            Inl e \<Rightarrow> e \<in> {ENOSPC, ENOMEM} \<union> (if SFS_NAMELEN \<le> length name then {ENAMETOOLONG} else {}) \<and>
              dents s' vn = dents s vn \<and> sfs_vnodes s' = sfs_vnodes s
          | Inr g \<Rightarrow> dir_ok vn s' \<and> unique_names (dents s' vn) \<and> sfs_vnodes s' = sfs_vnodes s @ [g] \<and>
              (\<exists>ino slot. ino \<notin> used (sfs_freemap s) \<and> ino \<in> used (sfs_freemap s') \<and>
                vnode_heap s' g = \<lparr>vn_refcount = 1, vn_opencount = 0, vn_ops = sfs_fileops,
                  sv_i = new_inode SFS_TYPE_FILE 1, sv_ino = ino, sv_dirty = True\<rparr> \<and>
                dir_lookup (dents s' vn) = (dir_lookup (dents s vn))(name := Some (ino, slot)))))"
proof -
  have z: "0 \<in> used (sfs_freemap s)" using assms(1) by (simp add: dir_ok_def ready_def fs_ok_def)
  obtain r s' where run: "sfs_creat vn name excl s = Some (r, s')" and post: "fs_ok s'" "vnodes_ok s'"
    "case dir_lookup (dents s vn) name of
       Some (ino, _) \<Rightarrow> dir_ok vn s' \<and> dents s' vn = dents s vn \<and>
         (if excl then r = Inl EEXIST else r = Inl ENOMEM \<or> (\<exists>g. r = Inr g \<and> loaded s' ino = Some g \<and> refs s' ino = refs s ino + 1))
     | None \<Rightarrow> (\<forall>w\<in>set (sfs_vnodes s). w \<noteq> vn \<longrightarrow> vnode_heap s' w = vnode_heap s w) \<and>
         (case r of
            Inl e \<Rightarrow> e \<in> {ENOSPC, ENOMEM} \<union> (if SFS_NAMELEN \<le> length name then {ENAMETOOLONG} else {}) \<and>
              dents s' vn = dents s vn \<and> sfs_vnodes s' = sfs_vnodes s
          | Inr g \<Rightarrow> length name < SFS_NAMELEN \<and> created vn name g s s')"
    using creat_spec [OF assms(1-6), of name excl] assms(8) by (auto simp: wp_def)
  show ?thesis
  proof (cases "dir_lookup (dents s vn) name")
    case None
    have "unique_names (dents s' vn) \<and> dir_lookup (dents s' vn) = (dir_lookup (dents s vn))(name := Some (ino, slot))"
      if "dents s' vn = dir_enter (dents s vn) slot ino name" "dir_slot (dents s vn) slot" "ino \<notin> used (sfs_freemap s)"
        "length name < SFS_NAMELEN" for ino slot
    proof -
      have "good_name name" "0 < ino" using that(3,4) assms(7) z by (auto simp: good_name_def intro: gr0I)
      then show ?thesis
        using that(1) dirs.lookup_enter [OF assms(3) that(2) None] dirs.inv_enter [OF assms(3) that(2) None] by simp
    qed
    then show ?thesis using run post None by (cases r) (simp_all add: created_def, metis)
  qed (use run post in auto)
qed

theorem sfs_creat_correct_witness:
  "(\<exists>r s'. sfs_creat 0 [98] False sfsn = Some (r, s') \<and> r \<noteq> Inl ENAMETOOLONG \<and> (\<forall>g. r = Inr g \<longrightarrow> sfs_vnodes s' = [0, g]))"
proof -
  have v: "sfs_vnodes sfsn = [0]" "unique_names (dents sfsn 0)" using sfsd_unique [of 0] by (simp_all add: sfsn_dir(3)) (simp add: sfsn_def)
  obtain r s' where run: "sfs_creat 0 [98] False sfsn = Some (r, s')" and
    "case r of Inl e \<Rightarrow> e \<in> {ENOSPC, ENOMEM} | Inr g \<Rightarrow> sfs_vnodes s' = [0, g]"
    using sfs_creat_correct [OF sfsn_dir(1,2) v(2) sfsn_dir(4-6), of "[98]" False]
    by (auto simp: sfsn_lookup(2) v sum.case_eq_if split: if_split_asm)
  then show ?thesis by (cases r) auto
qed

text \<open>
  C39: On a path with a slash, \<open>sfs_lookup\<close> does not look up the first component. Its first
  character is skipped and replaced by a byte that happens to be on the kernel stack, and the
  name runs on into what the stack holds behind it. So if the directory has no entry with the
  name on the stack the call fails with \<open>ENOENT\<close>, whatever the first character of the path is and
  whether or not the component is in the directory.
\<close>

theorem sfs_lookup_stack_name:
  assumes "dir_ok vn s" "dir_room k vn s" "unique_names (dents s vn)"
    and "x \<noteq> 0" "0 \<notin> set q" "slash \<notin> set q" "0 \<notin> set rest"
    and "length q + length rest + 2 < length buf" "length q < length sub" "0 \<in> set (drop (Suc (length q)) sub)"
    and "dir_lookup (dents s vn) (stack_name sub q) = None"
  shows "\<exists>s'. sfs_lookup buf sub vn (x # q @ slash # rest) s = Some (Inl ENOENT, s') \<and> looked k vn s s'"
proof -
  have "sfi_type (sv_i (vnode_heap s vn)) = SFS_TYPE_DIR" using assms(1) by (simp add: dir_ok_def)
  then obtain m where m: "sfs_lookup buf sub vn (x # q @ slash # rest) s = bindP (sfs_lookonce vn (stack_name sub q)) m s"
    using lookup_first [OF assms(4-10)] by blast
  have "wp (bindP (sfs_lookonce vn (stack_name sub q)) m) (\<lambda>r s'. r = Inl ENOENT \<and> looked k vn s s') s"
    unfolding sfs_lookonce_def wp_bind
    by (rule wp_mono [OF findname_spec [OF assms(1-3)]]) (use assms(11) in \<open>auto simp: wp_simps\<close>)
  then show ?thesis using m by (auto simp: wp_def)
qed

theorem sfs_lookup_stack_name_witness:
  "dir_lookup (dents sfsn 0) [97] = Some (7, 0) \<and>
   (\<exists>s'. sfs_lookup (replicate 256 0) (98 # replicate 19 0) 0 [97, slash] sfsn = Some (Inl ENOENT, s'))"
proof -
  have "stack_name (98 # replicate 19 0) [] = [98]" by (simp add: stack_name_def cstr_def)
  then show ?thesis
    using sfs_lookup_stack_name [OF sfsn_dir(1,2), of 97 "[]" "[]" "replicate 256 0" "98 # replicate 19 0"]
      sfsn_lookup sfsd_unique [of 0] by (auto simp: sfsn_dir(3))
qed

end
