(* ===== verification/Sfs_Fs.thy ===== *)
theory Sfs_Fs
  imports Sfs_Frame
begin

text \<open>
  The Simple File System as a whole, \<open>kern/fs/sfs/sfs_fs.c\<close>: reading and writing the free map,
  syncing, unmounting and mounting.

  A mount works on a fresh object: the state it starts from is uninitialised memory together
  with the outcomes of the allocations to come. One outcome stands for each call that creates an
  array or a lock.
\<close>

section \<open>Operations\<close>

text \<open>Sector \<open>j\<close> of the bitmap data, which has to lie inside it.\<close>

definition map_sector :: "nat \<Rightarrow> bytes \<Rightarrow> bytes option" where
  "map_sector j bitdata =
     (if j * SFS_BLOCKSIZE + SFS_BLOCKSIZE \<le> length bitdata
      then Some (take SFS_BLOCKSIZE (drop (j * SFS_BLOCKSIZE) bitdata)) else None)"

definition set_sector :: "nat \<Rightarrow> bytes \<Rightarrow> bytes \<Rightarrow> bytes" where
  "set_sector j blk bitdata = take (j * SFS_BLOCKSIZE) bitdata @ blk @ drop (j * SFS_BLOCKSIZE + SFS_BLOCKSIZE) bitdata"

definition sfs_mapio :: "uio_rw \<Rightarrow> (sfs_fs, unit) proc" where
  "sfs_mapio rw =
     bindP (getP (\<lambda>s. SFS_BITBLOCKS (sp_nblocks (sfs_super s)))) (\<lambda>mapsize.
     forP [0..<mapsize] (\<lambda>j.
       bindP (getP (\<lambda>s. v (sfs_freemap s))) (\<lambda>bitdata.
       bindP (optP (map_sector j bitdata)) (\<lambda>data.
       if rw = UIO_READ then
         bindP (sfs_rblock (SFS_MAP_LOCATION + j)) (\<lambda>blk.
         modP (\<lambda>s. s\<lparr>sfs_freemap := (sfs_freemap s)\<lparr>v := set_sector j blk bitdata\<rparr>\<rparr>))
       else sfs_wblock data (SFS_MAP_LOCATION + j)))))"

definition sfs_sync :: "(sfs_fs, unit) proc" where
  "sfs_sync =
     bindP (getP sfs_vnodes) (\<lambda>vs.
     bindP (forP vs (\<lambda>vn. tryP (vop_fsync vn) (\<lambda>_. retP ()))) (\<lambda>_.
     bindP (getP sfs_freemapdirty) (\<lambda>freemapdirty.
     bindP (if freemapdirty then
              bindP (sfs_mapio UIO_WRITE) (\<lambda>_. modP (\<lambda>s. s\<lparr>sfs_freemapdirty := False\<rparr>))
            else retP ()) (\<lambda>_.
     bindP (getP id) (\<lambda>s.
     if sfs_superdirty s then
       bindP (sfs_wblock (enc_super (sfs_super s)) SFS_SB_LOCATION) (\<lambda>_.
       modP (\<lambda>s. s\<lparr>sfs_superdirty := False\<rparr>))
     else retP ())))))"

definition sfs_getvolname :: "(sfs_fs, bytes) proc" where
  "sfs_getvolname = getP (\<lambda>s. sp_volname (sfs_super s))"

definition sfs_unmount :: "(sfs_fs, unit) proc" where
  "sfs_unmount =
     bindP (getP id) (\<lambda>s.
     if length (sfs_vnodes s) > 0 then throwP EBUSY
     else
       bindP (assertP (\<not> sfs_superdirty s)) (\<lambda>_.
       bindP (assertP (\<not> sfs_freemapdirty s)) (\<lambda>_. retP ())))"

text \<open>Memory or a lock that the mount needs, or \<open>ENOMEM\<close>.\<close>

definition mount_alloc :: "(sfs_fs, unit) proc" where
  "mount_alloc = bindP kmallocP (\<lambda>ok. if ok then retP () else throwP ENOMEM)"

text \<open>Loading the free map: \<open>bitmap_create\<close> allocates twice.\<close>

definition mount_freemap :: "(sfs_fs, unit) proc" where
  "mount_freemap =
     bindP (getP (\<lambda>s. SFS_BITMAPSIZE (sp_nblocks (sfs_super s)))) (\<lambda>n.
     bindP kmallocP (\<lambda>ok1.
     bindP (if ok1 then kmallocP else retP False) (\<lambda>ok2.
     bindP (optP (bitmap_create ok1 ok2 n)) (\<lambda>freemap.
     case freemap of
       None \<Rightarrow> throwP ENOMEM
     | Some b \<Rightarrow>
         bindP (modP (\<lambda>s. s\<lparr>sfs_freemap := b\<rparr>)) (\<lambda>_. sfs_mapio UIO_READ)))))"

definition sfs_domount :: "nat \<Rightarrow> lhd \<Rightarrow> (sfs_fs, unit) proc" where
  "sfs_domount d_blocksize dev =
     (if d_blocksize \<noteq> SFS_BLOCKSIZE then throwP ENXIO
      else
        bindP mount_alloc (\<lambda>_.
        bindP mount_alloc (\<lambda>_.
        bindP (modP (\<lambda>s. s\<lparr>sfs_vnodes := [], sfs_device := dev\<rparr>)) (\<lambda>_.
        bindP (sfs_rblock SFS_SB_LOCATION) (\<lambda>blk.
        bindP (modP (\<lambda>s. s\<lparr>sfs_super := dec_super blk\<rparr>)) (\<lambda>_.
        if sp_magic (dec_super blk) \<noteq> SFS_MAGIC then throwP EINVAL
        else
          bindP (modP (\<lambda>s. s\<lparr>sfs_super := (sfs_super s)\<lparr>
            sp_volname := (sp_volname (sfs_super s))[SFS_VOLNAME_SIZE - 1 := 0]\<rparr>\<rparr>)) (\<lambda>_.
          bindP mount_freemap (\<lambda>_.
          bindP mount_alloc (\<lambda>sfs_vnodes_lock.
          bindP mount_alloc (\<lambda>sfs_bitmap_lock.
          bindP mount_alloc (\<lambda>sfs_bmap_lock.
          bindP mount_alloc (\<lambda>sfs_bcache_lock.
          modP (\<lambda>s. s\<lparr>sfs_rcache := map (\<lambda>c. c\<lparr>inode_no := -1, block_no := -1\<rparr>) (sfs_rcache s),
            sfs_superdirty := False, sfs_freemapdirty := False\<rparr>)))))))))))))"

section \<open>The free map on disk\<close>

text \<open>The state differs only in the device, which is healthy and of the same size.\<close>

definition dev_step :: "sfs_fs \<Rightarrow> (nat \<Rightarrow> bytes) \<Rightarrow> sfs_fs \<Rightarrow> bool" where
  "dev_step s D s' \<longleftrightarrow> (\<exists>d. s' = s\<lparr>sfs_device := d\<rparr> \<and> dev_ok d \<and> lh_sectors d = D \<and>
     lh_d_blocks d = lh_d_blocks (sfs_device s))"

definition map_blocks :: "sfs_fs \<Rightarrow> nat" where
  "map_blocks s = SFS_BITBLOCKS (sp_nblocks (sfs_super s))"

text \<open>The disk with the first \<open>n\<close> sectors of the map written.\<close>

definition with_map :: "bytes \<Rightarrow> nat \<Rightarrow> (nat \<Rightarrow> bytes) \<Rightarrow> nat \<Rightarrow> bytes" where
  "with_map bits n D b = (if SFS_MAP_LOCATION \<le> b \<and> b < SFS_MAP_LOCATION + n
     then take SFS_BLOCKSIZE (drop ((b - SFS_MAP_LOCATION) * SFS_BLOCKSIZE) bits) else D b)"

lemma with_map_Suc:
  "with_map bits (Suc n) D = (with_map bits n D)(SFS_MAP_LOCATION + n := take SFS_BLOCKSIZE (drop (n * SFS_BLOCKSIZE) bits))"
  by (auto simp: with_map_def fun_eq_iff)

lemma for_upto:
  assumes "I 0 s" "\<And>j s. j < n \<Longrightarrow> I j s \<Longrightarrow> wp (body j) (\<lambda>r s. r = Inr () \<and> I (Suc j) s) s"
  shows "wp (forP [0..<n] body) (\<lambda>r s. r = Inr () \<and> I n s) s"
proof -
  have "wp (forP [0..<n] body) (\<lambda>r s. case r of Inl e \<Rightarrow> False | Inr _ \<Rightarrow> I (length [0..<n]) s) s"
  proof (rule wp_for)
    fix pre i rest s assume eq: "[0..<n] = pre @ i # rest" and I: "I (length pre) s"
    have "length pre < n" using arg_cong [OF eq, of length] by simp
    moreover have "i = [0..<n] ! length pre" by (simp add: eq)
    ultimately have "i = length pre" "i < n" by simp_all
    then show "wp (body i) (\<lambda>r s. case r of Inl e \<Rightarrow> False | Inr _ \<Rightarrow> I (length (pre @ [i])) s) s"
      using I by (auto intro: wp_mono [OF assms(2)])
  qed (simp add: assms(1))
  then show ?thesis by (rule wp_mono) (auto split: sum.splits)
qed

lemma mapio_write:
  assumes "dev_ok (sfs_device s)" "SFS_MAP_LOCATION + map_blocks s \<le> lh_d_blocks (sfs_device s)"
    and "length (v (sfs_freemap s)) = map_blocks s * SFS_BLOCKSIZE"
  shows "wp (sfs_mapio UIO_WRITE) (\<lambda>r s'. r = Inr () \<and>
    dev_step s (with_map (v (sfs_freemap s)) (map_blocks s) (disk s)) s') s"
proof -
  let ?bits = "v (sfs_freemap s)"
  have "wp (forP [0..<map_blocks s] (\<lambda>j.
       bindP (getP (\<lambda>s. v (sfs_freemap s))) (\<lambda>bitdata.
       bindP (optP (map_sector j bitdata)) (\<lambda>data.
       sfs_wblock data (SFS_MAP_LOCATION + j)))))
     (\<lambda>r s'. r = Inr () \<and> dev_step s (with_map ?bits (map_blocks s) (disk s)) s') s"
  proof (rule for_upto)
    show "dev_step s (with_map ?bits 0 (disk s)) s"
      unfolding dev_step_def using assms(1) by (intro exI [of _ "sfs_device s"]) (auto simp: with_map_def fun_eq_iff)
    fix j s1 assume j: "j < map_blocks s" and "dev_step s (with_map ?bits j (disk s)) s1"
    then obtain d where d: "s1 = s\<lparr>sfs_device := d\<rparr>" "dev_ok d" "lh_sectors d = with_map ?bits j (disk s)"
      "lh_d_blocks d = lh_d_blocks (sfs_device s)" by (auto simp: dev_step_def)
    let ?data = "take SFS_BLOCKSIZE (drop (j * SFS_BLOCKSIZE) ?bits)"
    have l: "j * SFS_BLOCKSIZE + SFS_BLOCKSIZE \<le> length ?bits" using j assms(3) by simp
    have "wp (sfs_wblock ?data (SFS_MAP_LOCATION + j))
        (\<lambda>r s'. r = Inr () \<and> dev_step s (with_map ?bits (Suc j) (disk s)) s') s1"
    proof (rule wp_wblock)
      fix d' assume "dev_ok d'" "lh_sectors d' = (disk s1)(SFS_MAP_LOCATION + j := ?data)"
        "lh_d_blocks d' = lh_d_blocks (sfs_device s1)"
      then show "Inr () = Inr () \<and> dev_step s (with_map ?bits (Suc j) (disk s)) (s1\<lparr>sfs_device := d'\<rparr>)"
        using d with_map_Suc [of ?bits j "disk s"] by (auto simp: dev_step_def)
    qed (use d j assms(2) l in simp_all)
    then show "wp (bindP (getP (\<lambda>s. v (sfs_freemap s))) (\<lambda>bitdata. bindP (optP (map_sector j bitdata)) (\<lambda>data.
       sfs_wblock data (SFS_MAP_LOCATION + j)))) (\<lambda>r s'. r = Inr () \<and> dev_step s (with_map ?bits (Suc j) (disk s)) s') s1"
      using l d(1) by (simp add: wp_simps map_sector_def)
  qed
  then show ?thesis by (simp add: sfs_mapio_def wp_simps map_blocks_def)
qed

text \<open>Reading puts the sectors into the bitmap one after the other.\<close>

lemma length_set_sector:
  "j * 512 + 512 \<le> length bits \<Longrightarrow> length blk = 512 \<Longrightarrow> length (set_sector j blk bits) = length bits"
  by (simp add: set_sector_def)

lemma nth_set_sector:
  assumes "j * 512 + 512 \<le> length bits" "length blk = 512" "i < length bits"
  shows "set_sector j blk bits ! i = (if i div 512 = j then blk ! (i mod 512) else bits ! i)"
proof -
  have "i div 512 = j \<longleftrightarrow> j * 512 \<le> i \<and> i < j * 512 + 512" by auto
  moreover have "i mod 512 = i - j * 512" if "i div 512 = j" using that by (simp add: minus_mult_div_eq_mod [symmetric])
  ultimately show ?thesis using assms by (auto simp: set_sector_def nth_append)
qed

definition map_read :: "nat \<Rightarrow> sfs_fs \<Rightarrow> sfs_fs \<Rightarrow> bool" where
  "map_read n s s' \<longleftrightarrow> (\<exists>d bits. s' = s\<lparr>sfs_device := d, sfs_freemap := (sfs_freemap s)\<lparr>v := bits\<rparr>\<rparr> \<and> dev_ok d \<and>
     lh_sectors d = disk s \<and> lh_d_blocks d = lh_d_blocks (sfs_device s) \<and> length bits = length (v (sfs_freemap s)) \<and>
     (\<forall>i<length bits. i div 512 < n \<longrightarrow> bits ! i = disk s (SFS_MAP_LOCATION + i div 512) ! (i mod 512)))"

lemma mapio_read:
  assumes "dev_ok (sfs_device s)" "SFS_MAP_LOCATION + map_blocks s \<le> lh_d_blocks (sfs_device s)"
    and "length (v (sfs_freemap s)) = map_blocks s * SFS_BLOCKSIZE"
  shows "wp (sfs_mapio UIO_READ) (\<lambda>r s'. r = Inr () \<and> map_read (map_blocks s) s s') s"
proof -
  let ?body = "\<lambda>j. bindP (getP (\<lambda>s. v (sfs_freemap s))) (\<lambda>bitdata.
       bindP (optP (map_sector j bitdata)) (\<lambda>data.
       bindP (sfs_rblock (SFS_MAP_LOCATION + j)) (\<lambda>blk.
       modP (\<lambda>s. s\<lparr>sfs_freemap := (sfs_freemap s)\<lparr>v := set_sector j blk bitdata\<rparr>\<rparr>))))"
  have len: "length (disk s b) = 512" for b using assms(1) by (simp add: dev_ok_def lhd_inv_def)
  have "wp (forP [0..<map_blocks s] ?body) (\<lambda>r s'. r = Inr () \<and> map_read (map_blocks s) s s') s"
  proof (rule for_upto)
    show "map_read 0 s s"
      unfolding map_read_def using assms(1) by (intro exI [of _ "sfs_device s"] exI [of _ "v (sfs_freemap s)"]) simp
    fix j s1 assume j: "j < map_blocks s" and "map_read j s s1"
    then obtain d bits where d: "s1 = s\<lparr>sfs_device := d, sfs_freemap := (sfs_freemap s)\<lparr>v := bits\<rparr>\<rparr>" "dev_ok d"
      "lh_sectors d = disk s" "lh_d_blocks d = lh_d_blocks (sfs_device s)" "length bits = length (v (sfs_freemap s))"
      "\<forall>i<length bits. i div 512 < j \<longrightarrow> bits ! i = disk s (SFS_MAP_LOCATION + i div 512) ! (i mod 512)"
      by (auto simp: map_read_def)
    have l: "j * 512 + 512 \<le> length bits" using j assms(3) d(5) by simp
    let ?blk = "disk s (SFS_MAP_LOCATION + j)"
    have "wp (sfs_rblock (SFS_MAP_LOCATION + j)) (\<lambda>r s'. r = Inr ?blk \<and> (\<exists>d'. s' = s1\<lparr>sfs_device := d'\<rparr> \<and> dev_ok d' \<and>
        lh_sectors d' = disk s \<and> lh_d_blocks d' = lh_d_blocks (sfs_device s))) s1"
      by (rule wp_rblock) (use d j assms(2) in auto)
    moreover have "map_read (Suc j) s (s1\<lparr>sfs_device := d', sfs_freemap := (sfs_freemap s1)\<lparr>v := set_sector j ?blk bits\<rparr>\<rparr>)"
      if "dev_ok d'" "lh_sectors d' = disk s" "lh_d_blocks d' = lh_d_blocks (sfs_device s)" for d'
      unfolding map_read_def
      by (intro exI [of _ d'] exI [of _ "set_sector j ?blk bits"])
        (use that d l in \<open>auto simp: length_set_sector nth_set_sector len less_Suc_eq\<close>)
    ultimately show "wp (?body j) (\<lambda>r s'. r = Inr () \<and> map_read (Suc j) s s') s1"
      using l d(1) by (auto simp: wp_simps map_sector_def elim!: wp_mono)
  qed
  then show ?thesis by (simp add: sfs_mapio_def wp_simps map_blocks_def)
qed

section \<open>Syncing\<close>

lemma sync_inode_keeps [keeps]: "keeps sfs_freemapdirty (sfs_sync_inode vn)"
  by (auto simp: sfs_sync_inode_def upd_vnode_def intro!: keeps)

text \<open>The disk after the inodes of the vnodes \<open>vs\<close> were written back.\<close>

definition with_inodes :: "sfs_fs \<Rightarrow> nat list \<Rightarrow> nat \<Rightarrow> bytes" where
  "with_inodes s vs b = (case List.find (\<lambda>vn. sv_ino (vnode_heap s vn) = b) vs of
     Some vn \<Rightarrow> if sv_dirty (vnode_heap s vn) then enc_inode (sv_i (vnode_heap s vn)) else disk s b
   | None \<Rightarrow> disk s b)"

lemma find_snoc: "List.find P (xs @ [x]) = (case List.find P xs of Some y \<Rightarrow> Some y | None \<Rightarrow> if P x then Some x else None)"
  by (induction xs) auto

definition inodes_synced :: "sfs_fs \<Rightarrow> nat list \<Rightarrow> sfs_fs \<Rightarrow> bool" where
  "inodes_synced s vs s' \<longleftrightarrow> fs_ok s' \<and> same_rest s s' \<and> sfs_freemap s' = sfs_freemap s \<and>
     sfs_freemapdirty s' = sfs_freemapdirty s \<and> disk s' = with_inodes s vs \<and>
     vnode_heap s' = (\<lambda>w. if w \<in> set vs then (vnode_heap s w)\<lparr>sv_dirty := False\<rparr> else vnode_heap s w)"

lemma inodes_synced_step:
  assumes i: "inodes_synced s vs s1" and vn: "vn \<notin> set vs" "sv_ino (vnode_heap s vn) \<notin> (\<lambda>w. sv_ino (vnode_heap s w)) ` set vs"
    and st: "synced vn s1 s2" "sfs_freemapdirty s2 = sfs_freemapdirty s1"
  shows "inodes_synced s (vs @ [vn]) s2"
proof -
  let ?ino = "sv_ino (vnode_heap s vn)"
  have h: "vnode_heap s1 vn = vnode_heap s vn" using i vn by (simp add: inodes_synced_def)
  have n: "List.find (\<lambda>w. sv_ino (vnode_heap s w) = ?ino) vs = None" using vn(2) unfolding find_None_iff by (metis imageI)
  have "with_inodes s (vs @ [vn]) b = (if b = ?ino \<and> sv_dirty (vnode_heap s vn)
      then enc_inode (sv_i (vnode_heap s vn)) else with_inodes s vs b)" for b
    using n by (auto simp: with_inodes_def find_snoc split: option.splits)
  moreover have "disk s1 = with_inodes s vs" using i by (simp add: inodes_synced_def)
  moreover have "disk s2 = (if sv_dirty (vnode_heap s vn) then (disk s1)(?ino := enc_inode (sv_i (vnode_heap s vn))) else disk s1)"
    using st h by (simp add: synced_def)
  ultimately have "disk s2 = with_inodes s (vs @ [vn])" by (simp add: fun_eq_iff)
  then show ?thesis using i st vn(1) by (auto simp: inodes_synced_def synced_def same_rest_def fun_eq_iff)
qed

lemma sync_inodes:
  assumes ok: "fs_ok s" "vnodes_ok s" and wf: "\<forall>vn\<in>set (sfs_vnodes s). inode_wf (sv_i (vnode_heap s vn))"
  shows "wp (forP (sfs_vnodes s) (\<lambda>vn. tryP (vop_fsync vn) (\<lambda>_. retP ())))
    (\<lambda>r s'. r = Inr () \<and> inodes_synced s (sfs_vnodes s) s') s"
proof -
  have "wp (forP (sfs_vnodes s) (\<lambda>vn. tryP (vop_fsync vn) (\<lambda>_. retP ())))
    (\<lambda>r s'. case r of Inl e \<Rightarrow> False | Inr _ \<Rightarrow> inodes_synced s (sfs_vnodes s) s') s"
  proof (rule wp_for)
    show "inodes_synced s [] s" using ok by (auto simp: inodes_synced_def same_rest_def with_inodes_def fun_eq_iff)
    fix pre vn rest s1 assume eq: "sfs_vnodes s = pre @ vn # rest" and i: "inodes_synced s pre s1"
    have vn: "vn \<in> set (sfs_vnodes s)" "vn \<notin> set pre" "sv_ino (vnode_heap s vn) \<notin> (\<lambda>w. sv_ino (vnode_heap s w)) ` set pre"
      using ok(2) by (auto simp: vnodes_ok_def eq)
    have h: "vnode_heap s1 vn = vnode_heap s vn" using i vn(2) by (simp add: inodes_synced_def)
    have pre: "fs_ok s1" "sv_ino (vnode_heap s1 vn) < sp_nblocks (sfs_super s1)" "inode_wf (sv_i (vnode_heap s1 vn))"
      "vn_refcount (vnode_heap s1 vn) > 0"
      using i ok vn(1) wf by (auto simp: inodes_synced_def same_rest_def vnodes_ok_def h)
    have "wp (sfs_sync_inode vn) (\<lambda>r s'. r = Inr () \<and> inodes_synced s (pre @ [vn]) s') s1"
      using wp_keeps [OF sync_spec [OF pre(1-3), folded synced_def] sync_inode_keeps]
      by (rule wp_mono) (use inodes_synced_step [OF i vn(2,3)] in auto)
    then show "wp (tryP (vop_fsync vn) (\<lambda>_. retP ()))
        (\<lambda>r s'. case r of Inl e \<Rightarrow> False | Inr _ \<Rightarrow> inodes_synced s (pre @ [vn]) s') s1"
      using pre(4) by (auto simp: vop_fsync_def sfs_fsync_def vnode_check_def wp_simps elim!: wp_mono)
  qed
  then show ?thesis by (rule wp_mono) (auto split: sum.splits)
qed

section \<open>Volumes\<close>

text \<open>
  A mounted volume: the superblock, the free map and every inode in memory are either marked
  dirty or as they are on disk, and they lie in different blocks.
\<close>

definition super_ok :: "sfs_super \<Rightarrow> bool" where
  "super_ok sp \<longleftrightarrow> sp_magic sp = SFS_MAGIC \<and> sp_nblocks sp < 2 ^ 32 \<and> length (sp_volname sp) = SFS_VOLNAME_SIZE \<and>
     sp_volname sp ! (SFS_VOLNAME_SIZE - 1) = 0 \<and> length (sp_reserved sp) = 472"

definition in_map :: "sfs_fs \<Rightarrow> nat \<Rightarrow> bool" where
  "in_map s b \<longleftrightarrow> SFS_MAP_LOCATION \<le> b \<and> b < SFS_MAP_LOCATION + map_blocks s"

definition volume_ok :: "sfs_fs \<Rightarrow> bool" where
  "volume_ok s \<longleftrightarrow> fs_ok s \<and> vnodes_ok s \<and> super_ok (sfs_super s) \<and>
     nbits (sfs_freemap s) = SFS_BITMAPSIZE (sp_nblocks (sfs_super s)) \<and>
     SFS_MAP_LOCATION + map_blocks s \<le> sp_nblocks (sfs_super s) \<and>
     (\<forall>vn\<in>set (sfs_vnodes s). let sv = vnode_heap s vn in inode_wf (sv_i sv) \<and> sv_ino sv \<noteq> SFS_SB_LOCATION \<and>
        \<not> in_map s (sv_ino sv) \<and> (\<not> sv_dirty sv \<longrightarrow> disk s (sv_ino sv) = enc_inode (sv_i sv))) \<and>
     (\<not> sfs_freemapdirty s \<longrightarrow> with_map (v (sfs_freemap s)) (map_blocks s) (disk s) = disk s) \<and>
     (\<not> sfs_superdirty s \<longrightarrow> disk s SFS_SB_LOCATION = enc_super (sfs_super s))"

lemma dec_enc_super:
  assumes "super_ok sp"
  shows "dec_super (enc_super sp) = sp" "length (enc_super sp) = SFS_BLOCKSIZE"
  using assms by (simp_all add: super_ok_def dec_super_def enc_super_def)

lemma volume_map: "volume_ok s \<Longrightarrow> length (v (sfs_freemap s)) = map_blocks s * SFS_BLOCKSIZE"
proof -
  assume ok: "volume_ok s"
  have "4096 dvd SFS_BITMAPSIZE n" for n
    unfolding SFS_BITMAPSIZE_def by (rule dvd_mod) simp_all
  then have "SFS_BITMAPSIZE n = 4096 * SFS_BITBLOCKS n" for n by (simp add: SFS_BITBLOCKS_def)
  then have "nbits (sfs_freemap s) = 4096 * map_blocks s" using ok by (simp add: volume_ok_def map_blocks_def)
  then show ?thesis
    using bitmap_inv_length [of "sfs_freemap s"] ok by (simp add: volume_ok_def fs_ok_def)
qed

text \<open>What is on disk after a sync. Data blocks are not written: the buffer cache is left alone.\<close>

definition flushed_disk :: "sfs_fs \<Rightarrow> nat \<Rightarrow> bytes" where
  "flushed_disk s b = (if b = SFS_SB_LOCATION then enc_super (sfs_super s)
     else if in_map s b then take SFS_BLOCKSIZE (drop ((b - SFS_MAP_LOCATION) * SFS_BLOCKSIZE) (v (sfs_freemap s)))
     else case loaded s b of Some vn \<Rightarrow> enc_inode (sv_i (vnode_heap s vn)) | None \<Rightarrow> disk s b)"

definition flushed :: "sfs_fs \<Rightarrow> sfs_fs \<Rightarrow> bool" where
  "flushed s s' \<longleftrightarrow> fs_ok s' \<and> \<not> sfs_superdirty s' \<and> \<not> sfs_freemapdirty s' \<and> disk s' = flushed_disk s \<and>
     sfs_super s' = sfs_super s \<and> sfs_freemap s' = sfs_freemap s \<and> sfs_vnodes s' = sfs_vnodes s \<and> sfs_rcache s' = sfs_rcache s \<and>
     vnode_heap s' = (\<lambda>w. if w \<in> set (sfs_vnodes s) then (vnode_heap s w)\<lparr>sv_dirty := False\<rparr> else vnode_heap s w)"

lemma with_inodes_volume:
  assumes "volume_ok s"
  shows "with_inodes s (sfs_vnodes s) b = (case loaded s b of Some vn \<Rightarrow> enc_inode (sv_i (vnode_heap s vn)) | None \<Rightarrow> disk s b)"
    "loaded s b = Some vn \<Longrightarrow> b \<noteq> SFS_SB_LOCATION \<and> \<not> in_map s b"
proof -
  have l: "vn \<in> set (sfs_vnodes s) \<and> sv_ino (vnode_heap s vn) = b" if "loaded s b = Some vn" for vn
    using that loaded_Some [of s b vn] assms by (simp add: volume_ok_def)
  show "with_inodes s (sfs_vnodes s) b = (case loaded s b of Some vn \<Rightarrow> enc_inode (sv_i (vnode_heap s vn)) | None \<Rightarrow> disk s b)"
    using assms l unfolding with_inodes_def loaded_def [symmetric]
    by (auto simp: volume_ok_def Let_def split: option.split)
  show "loaded s b = Some vn \<Longrightarrow> b \<noteq> SFS_SB_LOCATION \<and> \<not> in_map s b"
    using assms l [of vn] by (auto simp: volume_ok_def Let_def)
qed

text \<open>The two writes at the end of \<open>sfs_sync\<close>; skipping one changes nothing.\<close>

lemma sync_map:
  assumes ok: "volume_ok s" and i: "inodes_synced s (sfs_vnodes s) s1"
  shows "wp (if sfs_freemapdirty s1 then bindP (sfs_mapio UIO_WRITE) (\<lambda>_. modP (\<lambda>s. s\<lparr>sfs_freemapdirty := False\<rparr>)) else retP ())
    (\<lambda>r s'. r = Inr () \<and> (\<exists>d. s' = s1\<lparr>sfs_device := d, sfs_freemapdirty := False\<rparr> \<and> dev_ok d \<and>
       lh_sectors d = with_map (v (sfs_freemap s)) (map_blocks s) (with_inodes s (sfs_vnodes s)) \<and>
       lh_d_blocks d = lh_d_blocks (sfs_device s1))) s1" (is "wp _ ?Q s1")
proof -
  have s1: "fs_ok s1" "sfs_freemap s1 = sfs_freemap s" "map_blocks s1 = map_blocks s" "disk s1 = with_inodes s (sfs_vnodes s)"
    "sfs_freemapdirty s1 = sfs_freemapdirty s" "sfs_super s1 = sfs_super s"
    using i by (simp_all add: inodes_synced_def same_rest_def map_blocks_def)
  have dv: "dev_ok (sfs_device s1)" "SFS_MAP_LOCATION + map_blocks s1 \<le> lh_d_blocks (sfs_device s1)"
    using ok s1 by (simp_all add: fs_ok_def volume_ok_def)
  show ?thesis
  proof (cases "sfs_freemapdirty s1")
    case True
    then show ?thesis
      using mapio_write [OF dv] volume_map [OF ok] s1(2-4)
      by (auto simp: wp_simps dev_step_def elim!: wp_mono)
  next
    case False
    have "with_map (v (sfs_freemap s)) (map_blocks s) (disk s) = disk s" using ok s1(5) False by (simp add: volume_ok_def)
    then have m: "in_map s b \<Longrightarrow> take 512 (drop ((b - 2) * 512) (v (sfs_freemap s))) = disk s b" for b
      by (auto simp: with_map_def in_map_def fun_eq_iff dest: spec [of _ b])
    have "with_map (v (sfs_freemap s)) (map_blocks s) (with_inodes s (sfs_vnodes s)) b = with_inodes s (sfs_vnodes s) b" for b
    proof (cases "in_map s b")
      case True
      then have "loaded s b = None" using with_inodes_volume(2) [OF ok] by (cases "loaded s b") auto
      then show ?thesis using m [OF True] True by (simp add: with_map_def in_map_def with_inodes_volume(1) [OF ok])
    qed (auto simp: with_map_def in_map_def)
    then have "?Q (Inr ()) s1" using dv False s1(4) by (intro conjI refl exI [of _ "sfs_device s1"]) (simp_all add: fun_eq_iff)
    then show ?thesis using False by (simp add: wp_simps)
  qed
qed

lemma sync_all:
  assumes ok: "volume_ok s"
  shows "wp sfs_sync (\<lambda>r s'. r = Inr () \<and> flushed s s') s"
proof -
  let ?D = "with_map (v (sfs_freemap s)) (map_blocks s) (with_inodes s (sfs_vnodes s))"
  have ok': "fs_ok s" "vnodes_ok s" "\<forall>vn\<in>set (sfs_vnodes s). inode_wf (sv_i (vnode_heap s vn))" "super_ok (sfs_super s)"
    using ok by (auto simp: volume_ok_def Let_def)
  have D: "flushed_disk s = ?D(SFS_SB_LOCATION := enc_super (sfs_super s))"
    by (auto simp: flushed_disk_def with_map_def in_map_def with_inodes_volume(1) [OF ok] fun_eq_iff)
  have D0: "?D SFS_SB_LOCATION = disk s SFS_SB_LOCATION"
    using with_inodes_volume [OF ok, of SFS_SB_LOCATION] by (auto simp: with_map_def split: option.splits)
  have nb: "0 < sp_nblocks (sfs_super s)" using ok by (simp add: volume_ok_def)
  show ?thesis
    unfolding sfs_sync_def wp_bind [of "getP f" for f] wp_get sum.case
  proof (rule wp_call [OF sync_inodes [OF ok'(1-3)]], simp, goal_cases)
    case (1 x s1)
    then have i: "inodes_synced s (sfs_vnodes s) s1" by simp
    show ?case
      unfolding wp_bind [of "getP f" for f] wp_get sum.case
    proof (rule wp_call [OF sync_map [OF ok i]], simp, goal_cases)
      case (1 y s2)
      then obtain d where d: "s2 = s1\<lparr>sfs_device := d, sfs_freemapdirty := False\<rparr>" "dev_ok d" "lh_sectors d = ?D"
        "lh_d_blocks d = lh_d_blocks (sfs_device s1)" by auto
      have s1: "fs_ok s1" "sfs_super s1 = sfs_super s" "sfs_superdirty s1 = sfs_superdirty s"
        using i by (simp_all add: inodes_synced_def same_rest_def)
      have fl: "flushed s (s2\<lparr>sfs_device := d', sfs_superdirty := False\<rparr>)"
        if "dev_ok d'" "lh_sectors d' = flushed_disk s" "lh_d_blocks d' = lh_d_blocks d" for d'
        using that i d s1 by (auto simp: flushed_def inodes_synced_def same_rest_def fs_ok_def)
      have "wp (bindP (sfs_wblock (enc_super (sfs_super s)) SFS_SB_LOCATION) (\<lambda>_. modP (\<lambda>s. s\<lparr>sfs_superdirty := False\<rparr>)))
          (\<lambda>r s'. r = Inr () \<and> flushed s s') s2"
        unfolding wp_bind
        by (rule wp_wblock) (use d s1 fl D nb dec_enc_super(2) [OF ok'(4)] in \<open>auto simp: wp_simps fs_ok_def\<close>)
      moreover have "flushed s s2" if "\<not> sfs_superdirty s2"
      proof -
        have "?D = flushed_disk s" using that ok d(1) s1(3) D0 unfolding D by (simp add: volume_ok_def fun_eq_iff)
        moreover have "s2\<lparr>sfs_device := d, sfs_superdirty := False\<rparr> = s2" using d(1) that by (cases s1) simp
        ultimately show ?thesis using fl [of d] d(2,3) by simp
      qed
      ultimately show ?case
        using d(1) s1(2) by (auto simp: wp_bind [of "getP f" for f] wp_get wp_ret)
    qed
  qed
qed

section \<open>Mounting\<close>

lemma wp_mount_alloc [wp_simps]:
  "wp mount_alloc Q s \<longleftrightarrow> (if malloc_ok s then Q (Inr ()) (s\<lparr>env_malloc := tl (env_malloc s)\<rparr>)
     else Q (Inl ENOMEM) (s\<lparr>env_malloc := tl (env_malloc s)\<rparr>))"
  by (simp add: mount_alloc_def wp_simps)

text \<open>A device with the superblock \<open>sp\<close> and the free map \<open>fm\<close>.\<close>

definition holds_volume :: "lhd \<Rightarrow> sfs_super \<Rightarrow> bitmap \<Rightarrow> bool" where
  "holds_volume dev sp fm \<longleftrightarrow> dev_ok dev \<and> super_ok sp \<and> lh_sectors dev SFS_SB_LOCATION = enc_super sp \<and>
     bitmap_inv fm \<and> nbits fm = SFS_BITMAPSIZE (sp_nblocks sp) \<and>
     length (v fm) = SFS_BITBLOCKS (sp_nblocks sp) * SFS_BLOCKSIZE \<and>
     SFS_MAP_LOCATION + SFS_BITBLOCKS (sp_nblocks sp) \<le> lh_d_blocks dev \<and>
     (\<forall>i<length (v fm). lh_sectors dev (SFS_MAP_LOCATION + i div 512) ! (i mod 512) = v fm ! i)"

lemma mount_freemap_spec:
  assumes d: "holds_volume (sfs_device s) sp fm" "sfs_super s = sp"
  shows "wp mount_freemap (\<lambda>r s'. case r of
      Inl e \<Rightarrow> e = ENOMEM
    | Inr _ \<Rightarrow> (\<exists>dev m. s' = s\<lparr>sfs_device := dev, env_malloc := m, sfs_freemap := fm\<rparr> \<and> dev_ok dev \<and>
        lh_sectors dev = disk s \<and> lh_d_blocks dev = lh_d_blocks (sfs_device s))) s" (is "wp _ ?Q s")
proof -
  let ?n = "SFS_BITMAPSIZE (sp_nblocks sp)"
  have "?n + 8 \<le> 2 ^ 32" using d by (simp add: holds_volume_def bitmap_inv_def)
  then obtain b where b: "bitmap_create True True ?n = Some (Some b)" "bitmap_inv b" "nbits b = ?n"
    using bitmap_create_spec by blast
  have fail: "bitmap_create False ok ?n = Some None" "bitmap_create True False ?n = Some None" for ok
    by (simp_all add: bitmap_create_def Let_def)
  have lb: "length (v b) = length (v fm)" using b(2,3) d by (simp add: holds_volume_def bitmap_inv_def)
  have "wp (sfs_mapio UIO_READ) ?Q (s\<lparr>env_malloc := m, sfs_freemap := b\<rparr>)" for m
  proof -
    let ?s = "s\<lparr>env_malloc := m, sfs_freemap := b\<rparr>"
    have mb: "map_blocks ?s = SFS_BITBLOCKS (sp_nblocks sp)" using d(2) by (simp add: map_blocks_def)
    have "wp (sfs_mapio UIO_READ) (\<lambda>r s'. r = Inr () \<and> map_read (map_blocks ?s) ?s s') ?s"
      by (rule mapio_read) (use d lb mb in \<open>simp_all add: holds_volume_def\<close>)
    then show ?thesis
    proof (rule wp_mono, elim conjE)
      fix r :: "errno + unit" and s' assume r: "r = Inr ()" and "map_read (map_blocks ?s) ?s s'"
      then obtain dev bits where x: "s' = ?s\<lparr>sfs_device := dev, sfs_freemap := b\<lparr>v := bits\<rparr>\<rparr>" "dev_ok dev"
        "lh_sectors dev = disk s" "lh_d_blocks dev = lh_d_blocks (sfs_device s)" "length bits = length (v fm)"
        "\<forall>i<length bits. i div 512 < map_blocks ?s \<longrightarrow> bits ! i = disk s (SFS_MAP_LOCATION + i div 512) ! (i mod 512)"
        by (auto simp: map_read_def lb)
      have "bits ! i = v fm ! i" if "i < length (v fm)" for i
      proof -
        have "i div 512 < map_blocks ?s" using that d(1) mb by (simp add: holds_volume_def less_mult_imp_div_less)
        then show ?thesis using x(5,6) that d(1) by (simp add: holds_volume_def)
      qed
      then have "bits = v fm" using x(5) by (intro nth_equalityI) simp_all
      then have "b\<lparr>v := bits\<rparr> = fm" using b(3) d(1) by (cases b, cases fm) (simp add: holds_volume_def)
      then show "?Q r s'" using x(1-4) by (simp add: r) (intro exI [of _ dev] exI [of _ m] conjI, simp_all)
    qed
  qed
  then show ?thesis
    using b(1) fail d(2)
    by (cases "malloc_ok s"; cases "malloc_ok (s\<lparr>env_malloc := tl (env_malloc s)\<rparr>)")
      (simp_all add: mount_freemap_def wp_simps)
qed

lemma mount_spec:
  assumes d: "holds_volume dev sp fm"
  shows "wp (sfs_domount SFS_BLOCKSIZE dev) (\<lambda>r s'. case r of
      Inl e \<Rightarrow> e = ENOMEM
    | Inr _ \<Rightarrow> sfs_super s' = sp \<and> sfs_freemap s' = fm \<and> sfs_vnodes s' = [] \<and> disk s' = lh_sectors dev \<and>
        dev_ok (sfs_device s') \<and> lh_d_blocks (sfs_device s') = lh_d_blocks dev \<and> \<not> sfs_superdirty s' \<and> \<not> sfs_freemapdirty s' \<and>
        sfs_rcache s' = map (\<lambda>c. c\<lparr>inode_no := -1, block_no := -1\<rparr>) (sfs_rcache m)) m" (is "wp _ ?Q m")
proof -
  have vol: "(sp_volname sp)[31 := 0] = sp_volname sp" and mg: "sp_magic sp = SFS_MAGIC" and dx: "dec_super (enc_super sp) = sp"
    using d dec_enc_super(1) [of sp] list_update_id [of "sp_volname sp" 31] by (simp_all add: holds_volume_def super_ok_def)
  have dv: "dev_ok dev" "0 < lh_d_blocks dev" "lh_sectors dev 0 = enc_super sp"
    using d by (simp_all add: holds_volume_def)
  let ?s = "\<lambda>a d'. m\<lparr>env_malloc := a, sfs_vnodes := [], sfs_device := d', sfs_super := sp\<rparr>"
  have "wp (bindP mount_freemap (\<lambda>_.
      bindP mount_alloc (\<lambda>_. bindP mount_alloc (\<lambda>_. bindP mount_alloc (\<lambda>_. bindP mount_alloc (\<lambda>_.
      modP (\<lambda>s. s\<lparr>sfs_rcache := map (\<lambda>c. c\<lparr>inode_no := -1, block_no := -1\<rparr>) (sfs_rcache s),
        sfs_superdirty := False, sfs_freemapdirty := False\<rparr>))))))) ?Q (?s a d')"
    if "dev_ok d'" "lh_sectors d' = lh_sectors dev" "lh_d_blocks d' = lh_d_blocks dev" for a d'
    by (rule wp_call [OF mount_freemap_spec]) (use that d in \<open>auto simp: wp_simps holds_volume_def\<close>)
  then have "wp (bindP (sfs_rblock SFS_SB_LOCATION) (\<lambda>blk.
        bindP (modP (\<lambda>s. s\<lparr>sfs_super := dec_super blk\<rparr>)) (\<lambda>_.
        if sp_magic (dec_super blk) \<noteq> SFS_MAGIC then throwP EINVAL
        else
          bindP (modP (\<lambda>s. s\<lparr>sfs_super := (sfs_super s)\<lparr>
            sp_volname := (sp_volname (sfs_super s))[SFS_VOLNAME_SIZE - 1 := 0]\<rparr>\<rparr>)) (\<lambda>_.
          bindP mount_freemap (\<lambda>_.
          bindP mount_alloc (\<lambda>_. bindP mount_alloc (\<lambda>_. bindP mount_alloc (\<lambda>_. bindP mount_alloc (\<lambda>_.
          modP (\<lambda>s. s\<lparr>sfs_rcache := map (\<lambda>c. c\<lparr>inode_no := -1, block_no := -1\<rparr>) (sfs_rcache s),
            sfs_superdirty := False, sfs_freemapdirty := False\<rparr>)))))))))) ?Q
      (m\<lparr>env_malloc := a, sfs_vnodes := [], sfs_device := dev\<rparr>)" for a
    unfolding wp_bind [of "sfs_rblock b" for b]
    by (intro wp_rblock) (use dv in \<open>simp_all add: wp_bind [of "modP f" for f] wp_mod dx mg vol\<close>)
  then show ?thesis by (simp add: sfs_domount_def wp_bind [of mount_alloc] wp_bind [of "modP f" for f] wp_mod wp_mount_alloc)
qed

lemma flushed_volume:
  assumes ok: "volume_ok s" and f: "flushed s s1"
  shows "holds_volume (sfs_device s1) (sfs_super s) (sfs_freemap s)"
proof -
  let ?n = "SFS_BITBLOCKS (sp_nblocks (sfs_super s))" and ?bits = "v (sfs_freemap s)"
  have l: "length ?bits = ?n * 512" using volume_map [OF ok] by (simp add: map_blocks_def)
  have "disk s1 (2 + i div 512) ! (i mod 512) = ?bits ! i" if i: "i < length ?bits" for i
  proof -
    have "i div 512 < ?n" using i l by (simp add: less_mult_imp_div_less)
    then have "disk s1 (2 + i div 512) = take 512 (drop (i div 512 * 512) ?bits)"
      using f by (simp add: flushed_def flushed_disk_def in_map_def map_blocks_def)
    then show ?thesis using i by (simp add: mult.commute [of "i div 512"])
  qed
  then show ?thesis
    using ok f l unfolding holds_volume_def flushed_def
    by (auto simp: volume_ok_def fs_ok_def map_blocks_def flushed_disk_def)
qed

section \<open>An example volume\<close>

text \<open>A new volume, with the root directory in memory and nothing written yet.\<close>

definition sfsv :: sfs_fs where
  "sfsv = (sfs0 (lhd0 []))\<lparr>sfs_superdirty := True, sfs_freemapdirty := True, sfs_vnodes := [0], vnode_heap := (\<lambda>_.
     \<lparr>vn_refcount = 1, vn_opencount = 0, vn_ops = sfs_dirops, sv_i = \<lparr>sfi_size = 0, sfi_type = SFS_TYPE_DIR,
       sfi_linkcount = 1, sfi_direct = replicate 15 0, sfi_indirect = 0, sfi_waste = replicate 440 0\<rparr>,
       sv_ino = 1, sv_dirty = True\<rparr>)\<rparr>"

lemma sfsv_ok: "volume_ok sfsv"
proof -
  have "fs_ok (sfs0 (lhd0 []))" using sfs1_ready [of 0] by (simp add: sfs1_def ready_def fs_ok_def)
  moreover have u: "used (sfs_freemap sfsv) = {..<3} \<union> {100..<4096}" by (simp add: sfsv_def sfs0_used)
  moreover have n: "sp_nblocks (sfs_super sfsv) = 100" "map_blocks sfsv = 1"
    by (simp_all add: sfsv_def sfs0_def map_blocks_def SFS_BITBLOCKS_def SFS_BITMAPSIZE_def)
  moreover have "vnodes_ok sfsv" by (simp add: vnodes_ok_def u n) (simp add: sfsv_def type_ops_def)
  ultimately show ?thesis
    by (simp add: volume_ok_def in_map_def Let_def)
      (simp add: sfsv_def fs_ok_def super_ok_def inode_wf_def sfs0_def SFS_BITMAPSIZE_def)
qed

section \<open>Properties\<close>

text \<open>
  C4: Syncing a volume and mounting it again. The sync always succeeds; a mount of its device
  then fails with \<open>ENOMEM\<close> or gives a well-formed file system with the same superblock and the
  same free map, and every inode that was in memory is on disk as it was there. All other blocks
  keep what they held before the sync. In particular what the buffer cache held for them is not
  written, so that data written to part of a block, which is only in the cache, is lost.
\<close>

theorem sfs_sync_mount:
  assumes "volume_ok s"
  shows "\<exists>s1. sfs_sync s = Some (Inr (), s1) \<and> sfs_rcache s1 = sfs_rcache s \<and>
    (\<exists>r s2. sfs_domount SFS_BLOCKSIZE (sfs_device s1) m = Some (r, s2) \<and>
      (case r of
         Inl e \<Rightarrow> e = ENOMEM
       | Inr _ \<Rightarrow> fs_ok s2 \<and> sfs_super s2 = sfs_super s \<and> sfs_freemap s2 = sfs_freemap s \<and> sfs_vnodes s2 = [] \<and>
           (\<forall>vn\<in>set (sfs_vnodes s). dec_inode (disk s2 (sv_ino (vnode_heap s vn))) = sv_i (vnode_heap s vn)) \<and>
           (\<forall>b. b \<noteq> SFS_SB_LOCATION \<and> \<not> in_map s b \<and> loaded s b = None \<longrightarrow> disk s2 b = disk s b)))"
proof -
  obtain s1 where s1: "sfs_sync s = Some (Inr (), s1)" "flushed s s1" using sync_all [OF assms] by (auto simp: wp_def)
  obtain r s2 where r: "sfs_domount SFS_BLOCKSIZE (sfs_device s1) m = Some (r, s2)"
    "case r of Inl e \<Rightarrow> e = ENOMEM
     | Inr _ \<Rightarrow> sfs_super s2 = sfs_super s \<and> sfs_freemap s2 = sfs_freemap s \<and> sfs_vnodes s2 = [] \<and> disk s2 = disk s1 \<and>
        dev_ok (sfs_device s2) \<and> lh_d_blocks (sfs_device s2) = lh_d_blocks (sfs_device s1) \<and> \<not> sfs_superdirty s2 \<and> \<not> sfs_freemapdirty s2 \<and>
        sfs_rcache s2 = map (\<lambda>c. c\<lparr>inode_no := -1, block_no := -1\<rparr>) (sfs_rcache m)"
    using mount_spec [OF flushed_volume [OF assms s1(2)], of m] by (auto simp: wp_def)
  have D: "disk s1 = flushed_disk s" using s1(2) by (simp add: flushed_def)
  have "dec_inode (disk s1 (sv_ino (vnode_heap s vn))) = sv_i (vnode_heap s vn)" if vn: "vn \<in> set (sfs_vnodes s)" for vn
  proof -
    have l: "loaded s (sv_ino (vnode_heap s vn)) = Some vn"
      using loaded_Some [of s "sv_ino (vnode_heap s vn)" vn] assms vn by (simp add: volume_ok_def)
    moreover have "inode_wf (sv_i (vnode_heap s vn))" using assms vn by (simp add: volume_ok_def Let_def)
    ultimately show ?thesis
      using with_inodes_volume(2) [OF assms l] by (simp add: D flushed_disk_def dec_enc_inode)
  qed
  moreover have "fs_ok s2" if "r = Inr u" for u
    using r(2) that s1(2) by (auto simp: flushed_def fs_ok_def)
  ultimately show ?thesis
    using s1 r by (cases r) (auto simp: flushed_def flushed_disk_def D)
qed

theorem sfs_sync_mount_witness:
  "\<exists>s1. sfs_sync sfsv = Some (Inr (), s1) \<and>
    (\<exists>r s2. sfs_domount SFS_BLOCKSIZE (sfs_device s1) sfsv = Some (r, s2) \<and> (r = Inr () \<longrightarrow> sfs_freemap s2 = sfs_freemap sfsv))"
proof -
  obtain s1 r s2 where "sfs_sync sfsv = Some (Inr (), s1)" "sfs_domount SFS_BLOCKSIZE (sfs_device s1) sfsv = Some (r, s2)"
    "\<not> isl r \<longrightarrow> sfs_freemap s2 = sfs_freemap sfsv"
    using sfs_sync_mount [OF sfsv_ok, of sfsv] by (auto simp: sum.case_eq_if split: if_split_asm)
  then show ?thesis by (metis sum.disc(2))
qed

end
