(* ===== verification/Wchan.thy ===== *)
theory Wchan
  imports Os_Prelude
begin

text \<open>
  Spinlocks and wait channels (\<open>kern/thread/spinlock.c\<close>, \<open>kern/thread/thread.c\<close>) as the atomic
  steps that threads take on them.

  A step is blocked while the thread spins on a lock, and stops the kernel when an assertion
  fails. A thread holds a spinlock with interrupts off, so it stays on its processor and the
  holder of the lock, in the source a processor, is that thread.
\<close>

type_synonym tid = nat

datatype 'a step = Blocked | Stop | Go 'a

fun map_go :: "('a \<Rightarrow> 'b) \<Rightarrow> 'a step \<Rightarrow> 'b step" where
  "map_go f (Go x) = Go (f x)"
| "map_go f Blocked = Blocked"
| "map_go f Stop = Stop"

lemma map_go_eq [simp]: "map_go f x = Go y \<longleftrightarrow> (\<exists>z. x = Go z \<and> y = f z)" "map_go f x = Stop \<longleftrightarrow> x = Stop"
  "map_go f x = Blocked \<longleftrightarrow> x = Blocked"
  by (cases x; auto)+

section \<open>Spinlocks\<close>

definition spinlock_acquire :: "tid \<Rightarrow> tid option \<Rightarrow> tid option step" where
  "spinlock_acquire t lk_holder = (case lk_holder of
     None \<Rightarrow> Go (Some t)
   | Some h \<Rightarrow> if h = t then Stop else Blocked)"

definition spinlock_release :: "tid \<Rightarrow> tid option \<Rightarrow> tid option step" where
  "spinlock_release t lk_holder = (if lk_holder = Some t then Go None else Stop)"

definition spinlock_cleanup :: "tid option \<Rightarrow> unit step" where
  "spinlock_cleanup lk_holder = (if lk_holder = None then Go () else Stop)"

lemma spinlock_simps [simp]:
  "spinlock_acquire t l = Go l' \<longleftrightarrow> l = None \<and> l' = Some t" "spinlock_acquire t l = Stop \<longleftrightarrow> l = Some t"
  "spinlock_release t l = Go l' \<longleftrightarrow> l = Some t \<and> l' = None" "spinlock_release t l = Stop \<longleftrightarrow> l \<noteq> Some t"
  "spinlock_release t l \<noteq> Blocked"
  by (auto simp: spinlock_acquire_def spinlock_release_def split: option.splits)

section \<open>Wait channels\<close>

record wchan =
  wc_lock :: "tid option"
  wc_threads :: "tid list"

definition wchan_create :: wchan where
  "wchan_create = \<lparr>wc_lock = None, wc_threads = []\<rparr>"

text \<open>Destroying a channel checks that nobody holds its spinlock and nobody sleeps on it.\<close>

definition wchan_destroy :: "wchan \<Rightarrow> unit step" where
  "wchan_destroy wc = (case spinlock_cleanup (wc_lock wc) of
     Go _ \<Rightarrow> if wc_threads wc = [] then Go () else Stop
   | r \<Rightarrow> r)"

definition wchan_lock :: "tid \<Rightarrow> wchan \<Rightarrow> wchan step" where
  "wchan_lock t wc = map_go (\<lambda>l. wc\<lparr>wc_lock := l\<rparr>) (spinlock_acquire t (wc_lock wc))"

definition wchan_unlock :: "tid \<Rightarrow> wchan \<Rightarrow> wchan step" where
  "wchan_unlock t wc = map_go (\<lambda>l. wc\<lparr>wc_lock := l\<rparr>) (spinlock_release t (wc_lock wc))"

text \<open>
  The branch of \<open>thread_switch\<close> for a thread that goes to sleep: the thread is on the list before
  the channel is unlocked. The switch to another thread is the next step of that thread.
\<close>

definition thread_switch_sleep :: "tid \<Rightarrow> wchan \<Rightarrow> wchan step" where
  "thread_switch_sleep cur wc = wchan_unlock cur (wc\<lparr>wc_threads := wc_threads wc @ [cur]\<rparr>)"

definition wchan_sleep :: "tid \<Rightarrow> wchan \<Rightarrow> wchan step" where
  "wchan_sleep t wc = thread_switch_sleep t wc"

text \<open>
  The steps of \<open>wchan_wakeone\<close>. The last one makes the target runnable; the thread it makes
  runnable, if any, is returned.
\<close>

datatype wake_pc = W_lock | W_take | W_unlock "tid option" | W_run "tid option"

fun wakeone_step :: "tid \<Rightarrow> wake_pc \<Rightarrow> wchan \<Rightarrow> (wake_pc option \<times> tid option \<times> wchan) step" where
  "wakeone_step t W_lock wc = map_go (\<lambda>wc. (Some W_take, None, wc)) (wchan_lock t wc)"
| "wakeone_step t W_take wc =
     (case wc_threads wc of
        [] \<Rightarrow> Go (Some (W_unlock None), None, wc)
      | target # rest \<Rightarrow> Go (Some (W_unlock (Some target)), None, wc\<lparr>wc_threads := rest\<rparr>))"
| "wakeone_step t (W_unlock target) wc = map_go (\<lambda>wc. (Some (W_run target), None, wc)) (wchan_unlock t wc)"
| "wakeone_step t (W_run target) wc = Go (None, target, wc)"

text \<open>
  The steps of \<open>wchan_wakeall\<close>, which first moves all threads to a private list with the channel
  locked.
\<close>

datatype wakeall_pc = A_lock | A_take "tid list" | A_run "tid list"

fun wakeall_step :: "tid \<Rightarrow> wakeall_pc \<Rightarrow> wchan \<Rightarrow> (wakeall_pc option \<times> tid option \<times> wchan) step" where
  "wakeall_step t A_lock wc = map_go (\<lambda>wc. (Some (A_take []), None, wc)) (wchan_lock t wc)"
| "wakeall_step t (A_take lst) wc =
     (case wc_threads wc of
        target # rest \<Rightarrow> Go (Some (A_take (lst @ [target])), None, wc\<lparr>wc_threads := rest\<rparr>)
      | [] \<Rightarrow> map_go (\<lambda>wc. (Some (A_run lst), None, wc)) (wchan_unlock t wc))"
| "wakeall_step t (A_run []) wc = Go (None, None, wc)"
| "wakeall_step t (A_run (target # lst)) wc = Go (Some (A_run lst), Some target, wc)"

text \<open>The two halves of a wait channel: its spinlock and the sleepers.\<close>

lemma wchan_simps [simp]:
  "wchan_lock t wc = Go wc' \<longleftrightarrow> wc_lock wc = None \<and> wc' = wc\<lparr>wc_lock := Some t\<rparr>"
  "wchan_lock t wc = Stop \<longleftrightarrow> wc_lock wc = Some t"
  "wchan_unlock t wc = Go wc' \<longleftrightarrow> wc_lock wc = Some t \<and> wc' = wc\<lparr>wc_lock := None\<rparr>"
  "wchan_unlock t wc = Stop \<longleftrightarrow> wc_lock wc \<noteq> Some t"
  "wchan_sleep t wc = Go wc' \<longleftrightarrow> wc_lock wc = Some t \<and> wc' = \<lparr>wc_lock = None, wc_threads = wc_threads wc @ [t]\<rparr>"
  "wchan_sleep t wc = Stop \<longleftrightarrow> wc_lock wc \<noteq> Some t"
  by (auto simp: wchan_lock_def wchan_unlock_def wchan_sleep_def thread_switch_sleep_def)

end
