(* ===== verification/Synch_Sem.thy ===== *)
theory Synch_Sem
  imports Wchan
begin

text \<open>
  Semaphores, \<open>kern/thread/synch.c\<close>. Any number of threads call \<open>P\<close> and \<open>V\<close> on one semaphore; a
  step of the system is one atomic action of one thread. \<open>todo\<close> is what a thread still has to
  call, \<open>ready\<close> whether it may run.

  The control points of \<open>P\<close> are the calls and tests in the order of the source; \<open>P_again\<close> is the
  point after \<open>wchan_sleep\<close> returns.
\<close>

section \<open>Operations\<close>

datatype sem_op = Call_P | Call_V

datatype sem_pc = Idle
  | P_acquire | P_while | P_wlock | P_release | P_sleep | P_again | P_take | P_done
  | V_acquire | V_count | V_wake wake_pc | V_done

record semsys =
  sem_count :: int
  sem_lock :: "tid option"
  sem_wchan :: wchan
  pc :: "tid \<Rightarrow> sem_pc"
  ready :: "tid \<Rightarrow> bool"
  todo :: "tid \<Rightarrow> sem_op list"

definition goto :: "tid \<Rightarrow> sem_pc \<Rightarrow> semsys \<Rightarrow> semsys" where
  "goto t p s = s\<lparr>pc := (pc s)(t := p)\<rparr>"

text \<open>
  The flags say whether the memory for the semaphore, its name and its wait channel could be
  allocated; the result is \<open>NULL\<close> (\<open>Some None\<close>) if not.
\<close>

definition sem_create :: "bool \<Rightarrow> bool \<Rightarrow> bool \<Rightarrow> int \<Rightarrow> (tid \<Rightarrow> sem_op list) \<Rightarrow> semsys option option" where
  "sem_create ok_sem ok_name ok_wchan initial_count calls =
     (if \<not> initial_count \<ge> 0 then None
      else if \<not> ok_sem then Some None
      else if \<not> ok_name then Some None
      else if \<not> ok_wchan then Some None
      else Some (Some \<lparr>sem_count = initial_count, sem_lock = None, sem_wchan = wchan_create, pc = (\<lambda>_. Idle),
        ready = (\<lambda>_. True), todo = calls\<rparr>))"

definition sem_destroy :: "semsys \<Rightarrow> unit step" where
  "sem_destroy s = (case spinlock_cleanup (sem_lock s) of
     Go _ \<Rightarrow> wchan_destroy (sem_wchan s)
   | r \<Rightarrow> r)"

definition set_lock :: "semsys \<Rightarrow> tid option \<Rightarrow> semsys" where
  "set_lock s l = s\<lparr>sem_lock := l\<rparr>"

definition P_step :: "tid \<Rightarrow> semsys \<Rightarrow> semsys step" where
  "P_step t s = (case pc s t of
     P_acquire \<Rightarrow> map_go (\<lambda>l. goto t P_while (set_lock s l)) (spinlock_acquire t (sem_lock s))
   | P_while \<Rightarrow> Go (goto t (if sem_count s = 0 then P_wlock else P_take) s)
   | P_wlock \<Rightarrow> map_go (\<lambda>wc. goto t P_release (s\<lparr>sem_wchan := wc\<rparr>)) (wchan_lock t (sem_wchan s))
   | P_release \<Rightarrow> map_go (\<lambda>l. goto t P_sleep (set_lock s l)) (spinlock_release t (sem_lock s))
   | P_sleep \<Rightarrow> map_go (\<lambda>wc. goto t P_again (s\<lparr>sem_wchan := wc, ready := (ready s)(t := False)\<rparr>))
       (wchan_sleep t (sem_wchan s))
   | P_again \<Rightarrow> map_go (\<lambda>l. goto t P_while (set_lock s l)) (spinlock_acquire t (sem_lock s))
   | P_take \<Rightarrow> if sem_count s > 0 then Go (goto t P_done (s\<lparr>sem_count := sem_count s - 1\<rparr>)) else Stop
   | P_done \<Rightarrow> map_go (\<lambda>l. goto t Idle (set_lock s l)) (spinlock_release t (sem_lock s))
   | _ \<Rightarrow> Blocked)"

text \<open>The count is a signed 32-bit integer: an increment that overflows fails the assertion.\<close>

definition V_step :: "tid \<Rightarrow> semsys \<Rightarrow> semsys step" where
  "V_step t s = (case pc s t of
     V_acquire \<Rightarrow> map_go (\<lambda>l. goto t V_count (set_lock s l)) (spinlock_acquire t (sem_lock s))
   | V_count \<Rightarrow> if sem_count s + 1 > 0 \<and> sem_count s + 1 < 2 ^ 31
       then Go (goto t (V_wake W_lock) (s\<lparr>sem_count := sem_count s + 1\<rparr>)) else Stop
   | V_wake w \<Rightarrow> map_go (\<lambda>(next, target, wc). goto t (case next of Some w \<Rightarrow> V_wake w | None \<Rightarrow> V_done)
         (s\<lparr>sem_wchan := wc, ready := (case target of Some u \<Rightarrow> (ready s)(u := True) | None \<Rightarrow> ready s)\<rparr>))
       (wakeone_step t w (sem_wchan s))
   | V_done \<Rightarrow> map_go (\<lambda>l. goto t Idle (set_lock s l)) (spinlock_release t (sem_lock s))
   | _ \<Rightarrow> Blocked)"

text \<open>One action of thread \<open>t\<close>: a call, or a step of the call it is in.\<close>

definition sem_step :: "tid \<Rightarrow> semsys \<Rightarrow> semsys step" where
  "sem_step t s =
     (if \<not> ready s t then Blocked
      else case pc s t of
        Idle \<Rightarrow> (case todo s t of
            [] \<Rightarrow> Blocked
          | Call_P # ops \<Rightarrow> Go (goto t P_acquire (s\<lparr>todo := (todo s)(t := ops)\<rparr>))
          | Call_V # ops \<Rightarrow> Go (goto t V_acquire (s\<lparr>todo := (todo s)(t := ops)\<rparr>)))
      | V_acquire \<Rightarrow> V_step t s
      | V_count \<Rightarrow> V_step t s
      | V_wake _ \<Rightarrow> V_step t s
      | V_done \<Rightarrow> V_step t s
      | _ \<Rightarrow> P_step t s)"

text \<open>The states that \<open>n\<close> threads can reach.\<close>

inductive sem_reach :: "nat \<Rightarrow> semsys \<Rightarrow> semsys \<Rightarrow> bool" for n s0 where
  start: "sem_reach n s0 s0"
| step: "sem_reach n s0 s \<Longrightarrow> t < n \<Longrightarrow> sem_step t s = Go s' \<Longrightarrow> sem_reach n s0 s'"

lemma goto_sel [simp]:
  "pc (goto t p s) = (pc s)(t := p)" "sem_count (goto t p s) = sem_count s" "sem_lock (goto t p s) = sem_lock s"
  "sem_wchan (goto t p s) = sem_wchan s" "ready (goto t p s) = ready s" "todo (goto t p s) = todo s"
  "pc (set_lock s l) = pc s" "sem_count (set_lock s l) = sem_count s" "sem_lock (set_lock s l) = l"
  "sem_wchan (set_lock s l) = sem_wchan s" "ready (set_lock s l) = ready s" "todo (set_lock s l) = todo s"
  by (simp_all add: goto_def set_lock_def)

text \<open>The cases of a step.\<close>

inductive sem_trans :: "tid \<Rightarrow> semsys \<Rightarrow> semsys \<Rightarrow> bool" for t s where
  call_P: "pc s t = Idle \<Longrightarrow> todo s t = Call_P # ops \<Longrightarrow> sem_trans t s (goto t P_acquire (s\<lparr>todo := (todo s)(t := ops)\<rparr>))"
| call_V: "pc s t = Idle \<Longrightarrow> todo s t = Call_V # ops \<Longrightarrow> sem_trans t s (goto t V_acquire (s\<lparr>todo := (todo s)(t := ops)\<rparr>))"
| lock: "(pc s t, q) \<in> {(P_acquire, P_while), (P_again, P_while), (V_acquire, V_count)} \<Longrightarrow> sem_lock s = None \<Longrightarrow>
    sem_trans t s (goto t q (set_lock s (Some t)))"
| unlock: "(pc s t, q) \<in> {(P_release, P_sleep), (P_done, Idle), (V_done, Idle)} \<Longrightarrow> sem_lock s = Some t \<Longrightarrow>
    sem_trans t s (goto t q (set_lock s None))"
| empty: "pc s t = P_while \<Longrightarrow> sem_count s = 0 \<Longrightarrow> sem_trans t s (goto t P_wlock s)"
| full: "pc s t = P_while \<Longrightarrow> sem_count s \<noteq> 0 \<Longrightarrow> sem_trans t s (goto t P_take s)"
| wlock: "(pc s t, q) \<in> {(P_wlock, P_release), (V_wake W_lock, V_wake W_take)} \<Longrightarrow> wc_lock (sem_wchan s) = None \<Longrightarrow>
    sem_trans t s (goto t q (s\<lparr>sem_wchan := (sem_wchan s)\<lparr>wc_lock := Some t\<rparr>\<rparr>))"
| sleep: "pc s t = P_sleep \<Longrightarrow> wc_lock (sem_wchan s) = Some t \<Longrightarrow> sem_trans t s (goto t P_again
    (s\<lparr>sem_wchan := (sem_wchan s)\<lparr>wc_threads := wc_threads (sem_wchan s) @ [t], wc_lock := None\<rparr>, ready := (ready s)(t := False)\<rparr>))"
| down: "pc s t = P_take \<Longrightarrow> 0 < sem_count s \<Longrightarrow> sem_trans t s (goto t P_done (s\<lparr>sem_count := sem_count s - 1\<rparr>))"
| up: "pc s t = V_count \<Longrightarrow> 0 < sem_count s + 1 \<Longrightarrow> sem_count s + 1 < 2 ^ 31 \<Longrightarrow>
    sem_trans t s (goto t (V_wake W_lock) (s\<lparr>sem_count := sem_count s + 1\<rparr>))"
| nobody: "pc s t = V_wake W_take \<Longrightarrow> wc_threads (sem_wchan s) = [] \<Longrightarrow> sem_trans t s (goto t (V_wake (W_unlock None)) s)"
| take: "pc s t = V_wake W_take \<Longrightarrow> wc_threads (sem_wchan s) = u # us \<Longrightarrow>
    sem_trans t s (goto t (V_wake (W_unlock (Some u))) (s\<lparr>sem_wchan := (sem_wchan s)\<lparr>wc_threads := us\<rparr>\<rparr>))"
| wunlock: "pc s t = V_wake (W_unlock x) \<Longrightarrow> wc_lock (sem_wchan s) = Some t \<Longrightarrow>
    sem_trans t s (goto t (V_wake (W_run x)) (s\<lparr>sem_wchan := (sem_wchan s)\<lparr>wc_lock := None\<rparr>\<rparr>))"
| nowake: "pc s t = V_wake (W_run None) \<Longrightarrow> sem_trans t s (goto t V_done s)"
| wake: "pc s t = V_wake (W_run (Some u)) \<Longrightarrow> sem_trans t s (goto t V_done (s\<lparr>ready := (ready s)(u := True)\<rparr>))"

lemma sem_step_trans: "sem_step t s = Go s' \<Longrightarrow> ready s t \<and> sem_trans t s s'"
proof -
  assume st: "sem_step t s = Go s'"
  then have r: "ready s t" by (simp add: sem_step_def split: if_splits)
  note defs = sem_step_def P_step_def V_step_def wchan_lock_def wchan_unlock_def wchan_sleep_def thread_switch_sleep_def
  have "sem_trans t s s'"
  proof (cases "pc s t")
    case Idle
    then show ?thesis using st r by (auto simp: defs split: list.splits sem_op.splits intro: sem_trans.intros)
  next
    case (V_wake w)
    then show ?thesis
      using st r by (cases w) (auto simp: defs split: list.splits option.splits intro: sem_trans.intros)
  qed (use st r in \<open>auto simp: defs split: if_splits intro: sem_trans.intros\<close>)
  then show ?thesis using r by simp
qed

section \<open>Invariants\<close>

text \<open>Who holds the spinlocks, and whom a thread in \<open>wchan_wakeone\<close> is about to wake.\<close>

fun locked :: "sem_pc \<Rightarrow> bool" where
  "locked P_while = True"
| "locked P_wlock = True"
| "locked P_release = True"
| "locked P_take = True"
| "locked P_done = True"
| "locked V_count = True"
| "locked (V_wake _) = True"
| "locked V_done = True"
| "locked _ = False"

fun wlocked :: "sem_pc \<Rightarrow> bool" where
  "wlocked P_release = True"
| "wlocked P_sleep = True"
| "wlocked (V_wake W_take) = True"
| "wlocked (V_wake (W_unlock _)) = True"
| "wlocked _ = False"

fun waking :: "sem_pc \<Rightarrow> tid option" where
  "waking (V_wake (W_unlock x)) = x"
| "waking (V_wake (W_run x)) = x"
| "waking _ = None"

definition locks_ok :: "semsys \<Rightarrow> bool" where
  "locks_ok s \<longleftrightarrow> (\<forall>t. sem_lock s = Some t \<longleftrightarrow> locked (pc s t)) \<and>
     (\<forall>t. wc_lock (sem_wchan s) = Some t \<longleftrightarrow> wlocked (pc s t)) \<and> 0 \<le> sem_count s \<and>
     (\<forall>t. pc s t = P_wlock \<or> pc s t = P_release \<longrightarrow> sem_count s = 0) \<and> (\<forall>t. pc s t = P_take \<longrightarrow> sem_count s \<noteq> 0)"

definition sleepers_ok :: "semsys \<Rightarrow> bool" where
  "sleepers_ok s \<longleftrightarrow> distinct (wc_threads (sem_wchan s)) \<and>
     (\<forall>t\<in>set (wc_threads (sem_wchan s)). pc s t = P_again \<and> \<not> ready s t) \<and>
     (\<forall>v u. waking (pc s v) = Some u \<longrightarrow> pc s u = P_again \<and> \<not> ready s u \<and> u \<notin> set (wc_threads (sem_wchan s))) \<and>
     (\<forall>t. \<not> ready s t \<longrightarrow> t \<in> set (wc_threads (sem_wchan s)) \<or> (\<exists>v. waking (pc s v) = Some t))"

lemma one_holder: "locks_ok s \<Longrightarrow> locked (pc s t) \<Longrightarrow> locked (pc s u) \<Longrightarrow> u = t"
  unfolding locks_ok_def by (metis option.inject)

lemma locks_ok_step:
  assumes st: "sem_trans t s s'" and ok: "locks_ok s"
  shows "locks_ok s'"
proof -
  have o: "\<And>u. u \<noteq> t \<Longrightarrow> locked (pc s t) \<Longrightarrow> \<not> locked (pc s u)" using one_holder [OF ok] by blast
  from st ok show ?thesis
    by (cases rule: sem_trans.cases) (auto simp: locks_ok_def dest: o)
qed

text \<open>Most steps only move a thread that is awake.\<close>

lemma sleepersD:
  assumes "sleepers_ok s"
  shows "distinct (wc_threads (sem_wchan s))"
    "t \<in> set (wc_threads (sem_wchan s)) \<Longrightarrow> pc s t = P_again \<and> \<not> ready s t"
    "waking (pc s v) = Some u \<Longrightarrow> pc s u = P_again \<and> \<not> ready s u \<and> u \<notin> set (wc_threads (sem_wchan s))"
    "\<not> ready s t \<Longrightarrow> t \<in> set (wc_threads (sem_wchan s)) \<or> (\<exists>v. waking (pc s v) = Some t)"
  using assms unfolding sleepers_ok_def by blast+

lemma sleepersI:
  assumes "distinct (wc_threads (sem_wchan s))"
    "\<And>t. t \<in> set (wc_threads (sem_wchan s)) \<Longrightarrow> pc s t = P_again \<and> \<not> ready s t"
    "\<And>v u. waking (pc s v) = Some u \<Longrightarrow> pc s u = P_again \<and> \<not> ready s u \<and> u \<notin> set (wc_threads (sem_wchan s))"
    "\<And>t. \<not> ready s t \<Longrightarrow> t \<in> set (wc_threads (sem_wchan s)) \<or> (\<exists>v. waking (pc s v) = Some t)"
  shows "sleepers_ok s"
  using assms unfolding sleepers_ok_def by blast

lemma sleepers_move:
  assumes ok: "sleepers_ok s" and t: "ready s t" "waking (pc s' t) = waking (pc s t)"
    and s': "\<And>u. u \<noteq> t \<Longrightarrow> pc s' u = pc s u" "ready s' = ready s" "wc_threads (sem_wchan s') = wc_threads (sem_wchan s)"
  shows "sleepers_ok s'"
proof -
  have w: "waking (pc s' v) = waking (pc s v)" for v using t(2) s'(1) by (cases "v = t") simp_all
  have p: "pc s' u = pc s u" if "\<not> ready s u" for u using t(1) s'(1) that by (cases "u = t") simp_all
  show ?thesis
  proof (rule sleepersI; unfold s'(2,3) w)
    fix x assume "x \<in> set (wc_threads (sem_wchan s))"
    then show "pc s' x = P_again \<and> \<not> ready s x" using sleepersD(2) [OF ok, of x] p by simp
  next
    fix v u assume "waking (pc s v) = Some u"
    then show "pc s' u = P_again \<and> \<not> ready s u \<and> u \<notin> set (wc_threads (sem_wchan s))"
      using sleepersD(3) [OF ok, of v u] p by simp
  qed (fact sleepersD(1) [OF ok], erule sleepersD(4) [OF ok])
qed

lemma sleepers_sleep:
  assumes ok: "sleepers_ok s" and t: "ready s t" "waking (pc s t) = None"
    and s': "pc s' = (pc s)(t := P_again)" "ready s' = (ready s)(t := False)" "wc_threads (sem_wchan s') = wc_threads (sem_wchan s) @ [t]"
  shows "sleepers_ok s'"
proof -
  have w: "waking (pc s' v) = waking (pc s v)" for v using t(2) s'(1) by simp
  have n: "t \<notin> set (wc_threads (sem_wchan s))" "waking (pc s v) \<noteq> Some t" for v using sleepersD [OF ok] t(1) by blast+
  show ?thesis
  proof (rule sleepersI)
    show "distinct (wc_threads (sem_wchan s'))" using sleepersD(1) [OF ok] n(1) s'(3) by simp
    fix x assume "x \<in> set (wc_threads (sem_wchan s'))"
    then show "pc s' x = P_again \<and> \<not> ready s' x" using sleepersD(2) [OF ok, of x] s' by auto
  next
    fix v u assume "waking (pc s' v) = Some u"
    then have a: "waking (pc s v) = Some u" by (simp add: w)
    then show "pc s' u = P_again \<and> \<not> ready s' u \<and> u \<notin> set (wc_threads (sem_wchan s'))"
      using sleepersD(3) [OF ok a] n(2) [of v] s' by auto
  next
    fix x assume "\<not> ready s' x"
    then show "x \<in> set (wc_threads (sem_wchan s')) \<or> (\<exists>v. waking (pc s' v) = Some x)"
      using sleepersD(4) [OF ok, of x] s'(2,3) by (cases "x = t") (simp_all add: w)
  qed
qed

lemma sleepers_take:
  assumes ok: "sleepers_ok s" and t: "ready s t" "wc_threads (sem_wchan s) = u # us" "\<And>v. waking (pc s v) = None"
    and s': "pc s' = (pc s)(t := q)" "waking q = Some u" "ready s' = ready s" "wc_threads (sem_wchan s') = us"
  shows "sleepers_ok s'"
proof -
  have w: "waking (pc s' v) = (if v = t then Some u else None)" for v using t(3) s'(1,2) by simp
  have p: "pc s' x = pc s x" if "\<not> ready s x" for x using t(1) s'(1) that by auto
  have "pc s u = P_again" "\<not> ready s u" "u \<notin> set us" "distinct us"
    and us: "x \<in> set us \<Longrightarrow> pc s x = P_again \<and> \<not> ready s x" "\<not> ready s x \<Longrightarrow> x = u \<or> x \<in> set us" for x
    using sleepersD [OF ok] t(2,3) by auto
  then show ?thesis
    by (intro sleepersI; unfold s'(3,4) w) (auto simp: p split: if_splits)
qed

lemma sleepers_wake:
  assumes ok: "sleepers_ok s" and t: "ready s t" "waking (pc s t) = Some u" "\<And>v. v \<noteq> t \<Longrightarrow> waking (pc s v) = None"
    and s': "pc s' = (pc s)(t := q)" "waking q = None" "ready s' = (ready s)(u := True)" "wc_threads (sem_wchan s') = wc_threads (sem_wchan s)"
  shows "sleepers_ok s'"
proof -
  have w: "waking (pc s' v) = None" for v using t(3) s'(1,2) by simp
  have p: "pc s' x = pc s x" if "\<not> ready s x" for x using t(1) s'(1) that by auto
  have u: "u \<notin> set (wc_threads (sem_wchan s))" using sleepersD(3) [OF ok t(2)] by blast
  have x: "x \<in> set (wc_threads (sem_wchan s))" if "\<not> ready s x" "x \<noteq> u" for x
    using sleepersD(4) [OF ok that(1)] t(2,3) that(2) by (metis option.distinct(1) option.inject)
  have y: "pc s' x = P_again \<and> \<not> ready s' x" if "x \<in> set (wc_threads (sem_wchan s))" for x
  proof -
    have "pc s x = P_again \<and> \<not> ready s x" using sleepersD(2) [OF ok that] .
    moreover have "x \<noteq> u" using u that by blast
    ultimately show ?thesis using p s'(3) by simp
  qed
  have "x \<in> set (wc_threads (sem_wchan s))" if "\<not> ready s' x" for x using x that s'(3) by (auto split: if_splits)
  then show ?thesis
    using sleepersD(1) [OF ok] y unfolding sleepers_ok_def w s'(4) by blast
qed

lemma sleepers_ok_step:
  assumes st: "sem_trans t s s'" and r: "ready s t" and ok: "locks_ok s" "sleepers_ok s"
  shows "sleepers_ok s'"
proof -
  have w: "waking p = Some u \<Longrightarrow> locked p" for p u by (auto elim: waking.elims)
  have one: "waking (pc s v) = None" if "locked (pc s t)" "v \<noteq> t" for v
    using one_holder [OF ok(1) that(1), of v] w [of "pc s v"] that(2) by (cases "waking (pc s v)") auto
  from st show ?thesis
  proof (cases rule: sem_trans.cases)
    case sleep
    then show ?thesis by (intro sleepers_sleep [OF ok(2) r]) auto
  next
    case (take u us)
    have "waking (pc s v) = None" for v using one [of v] take(2) by (cases "v = t") auto
    then show ?thesis using take by (intro sleepers_take [OF ok(2) r]) auto
  next
    case (wake u)
    then show ?thesis using one by (intro sleepers_wake [OF ok(2) r, of u]) auto
  qed (rule sleepers_move [OF ok(2) r]; auto)+
qed

text \<open>
  Threads that will test the count or wake another thread before they sleep again. As long as
  somebody sleeps, there are at least as many of them as the count.
\<close>

definition hot :: "semsys \<Rightarrow> tid \<Rightarrow> bool" where
  "hot s t \<longleftrightarrow> pc s t \<in> {P_while, P_take, V_wake W_lock, V_wake W_take} \<or> waking (pc s t) \<noteq> None \<or>
     pc s t = P_again \<and> ready s t"

definition hots :: "nat \<Rightarrow> semsys \<Rightarrow> int" where
  "hots n s = (\<Sum>t<n. of_bool (hot s t))"

definition wake_ok :: "nat \<Rightarrow> semsys \<Rightarrow> bool" where
  "wake_ok n s \<longleftrightarrow> (wc_threads (sem_wchan s) \<noteq> [] \<or> (\<exists>t. pc s t = P_sleep) \<longrightarrow> sem_count s \<le> hots n s)"

lemma sum_change:
  fixes f g :: "nat \<Rightarrow> int"
  assumes "t < n" "\<And>u. u \<noteq> t \<Longrightarrow> g u = f u"
  shows "(\<Sum>u<n. g u) = (\<Sum>u<n. f u) + g t - f t"
proof -
  have "(\<Sum>u<n. h u) = h t + (\<Sum>u\<in>{..<n} - {t}. h u)" for h :: "nat \<Rightarrow> int"
    using sum.remove [of "{..<n}" t h] assms(1) by simp
  moreover have "(\<Sum>u\<in>{..<n} - {t}. g u) = (\<Sum>u\<in>{..<n} - {t}. f u)" using assms(2) by (intro sum.cong) auto
  ultimately show ?thesis by simp
qed

lemma hots_move:
  assumes "t < n" "\<And>u. u \<noteq> t \<Longrightarrow> pc s' u = pc s u \<and> ready s' u = ready s u"
  shows "hots n s' = hots n s + of_bool (hot s' t) - of_bool (hot s t)"
proof -
  have "hot s' u = hot s u" if "u \<noteq> t" for u using assms(2) [OF that] by (simp add: hot_def)
  then show ?thesis
    unfolding hots_def using sum_change [OF assms(1), of "\<lambda>u. of_bool (hot s' u)" "\<lambda>u. of_bool (hot s u)"] by simp
qed

lemma hots_nonneg: "0 \<le> hots n s"
  unfolding hots_def by (rule sum_nonneg) simp

lemma wake_ok_move:
  assumes t: "t < n" "\<And>u. u \<noteq> t \<Longrightarrow> pc s' u = pc s u \<and> ready s' u = ready s u" and ok: "wake_ok n s"
    and c: "sem_count s' = 0 \<or> sem_count s' - of_bool (hot s' t) \<le> sem_count s - of_bool (hot s t) \<and>
      (wc_threads (sem_wchan s') \<noteq> [] \<or> pc s' t = P_sleep \<longrightarrow> wc_threads (sem_wchan s) \<noteq> [] \<or> pc s t = P_sleep)"
  shows "wake_ok n s'"
proof (cases "sem_count s' = 0")
  case True
  then show ?thesis using hots_nonneg [of n s'] by (simp add: wake_ok_def)
next
  case False
  have a: "wc_threads (sem_wchan s) \<noteq> [] \<or> (\<exists>u. pc s u = P_sleep)" if "wc_threads (sem_wchan s') \<noteq> [] \<or> pc s' u = P_sleep" for u
    using that c False t(2) [of u] by (cases "u = t") auto
  have h: "sem_count s' - of_bool (hot s' t) \<le> sem_count s - of_bool (hot s t)" using c False by blast
  have "sem_count s' \<le> hots n s'" if "wc_threads (sem_wchan s') \<noteq> [] \<or> pc s' u = P_sleep" for u
  proof -
    have "sem_count s \<le> hots n s" using a [OF that] ok unfolding wake_ok_def by blast
    then show ?thesis using hots_move [OF t] h by linarith
  qed
  then show ?thesis unfolding wake_ok_def by blast
qed

lemma wake_ok_wake:
  assumes st: "pc s t = V_wake (W_run (Some u))" "s' = goto t V_done (s\<lparr>ready := (ready s)(u := True)\<rparr>)"
    and t: "t < n" "u < n" and ok: "sleepers_ok s" "wake_ok n s"
  shows "wake_ok n s'"
proof -
  have u: "pc s u = P_again" "\<not> ready s u" using sleepersD(3) [OF ok(1), of t u] st(1) by auto
  let ?m = "s\<lparr>ready := (ready s)(u := True)\<rparr>"
  have "hots n ?m = hots n s + of_bool (hot ?m u) - of_bool (hot s u)" by (rule hots_move [OF t(2)]) simp
  moreover have "hots n s' = hots n ?m + of_bool (hot s' t) - of_bool (hot ?m t)" by (rule hots_move [OF t(1)]) (simp add: st)
  moreover have "hot ?m u" "\<not> hot s u" "hot ?m t" using st(1) u by (simp_all add: hot_def)
  ultimately have h: "hots n s \<le> hots n s'" by simp
  have "sem_count s' = sem_count s" "wc_threads (sem_wchan s') = wc_threads (sem_wchan s)"
    "pc s' x = P_sleep \<Longrightarrow> pc s x = P_sleep" for x using st by (auto split: if_splits)
  then show ?thesis using ok(2) h unfolding wake_ok_def by (metis order_trans)
qed

lemma wake_ok_step:
  assumes st: "sem_trans t s s'" and r: "ready s t" and t: "t < n" and idle: "\<And>u. n \<le> u \<Longrightarrow> pc s u = Idle"
    and ok: "locks_ok s" "sleepers_ok s" "wake_ok n s"
  shows "wake_ok n s'"
proof -
  have o: "pc s u \<noteq> P_sleep" if "wlocked (pc s t)" "pc s t \<noteq> P_sleep" for u
  proof
    assume "pc s u = P_sleep"
    then have "wc_lock (sem_wchan s) = Some u" "wc_lock (sem_wchan s) = Some t" using ok(1) that(1) by (auto simp: locks_ok_def)
    then show False using that(2) \<open>pc s u = P_sleep\<close> by simp
  qed
  have c0: "pc s t = P_release \<Longrightarrow> sem_count s = 0" using ok(1) by (auto simp: locks_ok_def)
  from st show ?thesis
  proof (cases rule: sem_trans.cases)
    case (wake u)
    moreover have "u < n" using sleepersD(3) [OF ok(2), of t u] idle [of u] wake(2) by (cases "u < n") auto
    ultimately show ?thesis using wake_ok_wake t ok by blast
  next
    case (take u us)
    have "hots n s' = hots n s + of_bool (hot s' t) - of_bool (hot s t)" by (rule hots_move [OF t]) (simp add: take(1))
    then have "hots n s' = hots n s" using take by (simp add: hot_def)
    then show ?thesis using ok(3) take by (auto simp: wake_ok_def split: if_splits)
  next
    case nobody
    then show ?thesis using o by (auto simp: wake_ok_def)
  qed (use r c0 in \<open>auto simp: hot_def intro!: wake_ok_move [OF t _ ok(3)]\<close>)
qed

section \<open>Reachable states\<close>

definition sem_inv :: "nat \<Rightarrow> semsys \<Rightarrow> bool" where
  "sem_inv n s \<longleftrightarrow> locks_ok s \<and> sleepers_ok s \<and> wake_ok n s \<and> (\<forall>u\<ge>n. pc s u = Idle)"

lemma sem_trans_other: "sem_trans t s s' \<Longrightarrow> u \<noteq> t \<Longrightarrow> pc s' u = pc s u"
  by (cases rule: sem_trans.cases) auto

lemma sem_inv_step:
  assumes "sem_step t s = Go s'" "t < n" "sem_inv n s"
  shows "sem_inv n s'"
proof -
  have tr: "sem_trans t s s'" and r: "ready s t" using sem_step_trans [OF assms(1)] by simp_all
  have "pc s' u = Idle" if "n \<le> u" for u using sem_trans_other [OF tr, of u] that assms(2,3) by (auto simp: sem_inv_def)
  then show ?thesis
    using assms(2,3) locks_ok_step [OF tr] sleepers_ok_step [OF tr r] wake_ok_step [OF tr r assms(2)] by (simp add: sem_inv_def)
qed

lemma sem_create_inv: "sem_create ok1 ok2 ok3 c calls = Some (Some s0) \<Longrightarrow> sem_inv n s0 \<and> sem_count s0 = c"
  by (auto simp: sem_create_def sem_inv_def locks_ok_def sleepers_ok_def wake_ok_def wchan_create_def split: if_splits)

lemma sem_reach_inv: "sem_reach n s0 s \<Longrightarrow> sem_inv n s0 \<Longrightarrow> sem_inv n s"
  by (induction rule: sem_reach.induct) (auto intro: sem_inv_step)

text \<open>A semaphore can be destroyed when no thread is inside an operation on it.\<close>

lemma sem_destroy_idle: "sem_inv n s \<Longrightarrow> \<forall>t. pc s t = Idle \<and> ready s t \<Longrightarrow> sem_destroy s = Go ()"
  by (cases "sem_lock s"; cases "wc_lock (sem_wchan s)"; cases "wc_threads (sem_wchan s)")
    (auto simp: sem_inv_def locks_ok_def sleepers_ok_def sem_destroy_def spinlock_cleanup_def wchan_destroy_def)

text \<open>What the calls still to be made and the unfinished ones will add to the count.\<close>

fun pending :: "sem_pc \<Rightarrow> int" where
  "pending V_acquire = 1"
| "pending V_count = 1"
| "pending Idle = 0"
| "pending P_done = 0"
| "pending (V_wake _) = 0"
| "pending V_done = 0"
| "pending _ = -1"

fun effect :: "sem_op \<Rightarrow> int" where
  "effect Call_P = -1"
| "effect Call_V = 1"

definition owed :: "semsys \<Rightarrow> tid \<Rightarrow> int" where
  "owed s t = pending (pc s t) + (\<Sum>x\<leftarrow>todo s t. effect x)"

definition balance :: "nat \<Rightarrow> semsys \<Rightarrow> int" where
  "balance n s = sem_count s + (\<Sum>t<n. owed s t)"

lemma balance_step:
  assumes "sem_trans t s s'" "t < n"
  shows "balance n s' = balance n s"
proof -
  have "owed s' u = owed s u" if "u \<noteq> t" for u
    using assms(1) that by (cases rule: sem_trans.cases) (auto simp: owed_def)
  then have "(\<Sum>u<n. owed s' u) = (\<Sum>u<n. owed s u) + owed s' t - owed s t" by (rule sum_change [OF assms(2)])
  moreover have "sem_count s' + owed s' t = sem_count s + owed s t"
    using assms(1) by (cases rule: sem_trans.cases) (auto simp: owed_def)
  ultimately show ?thesis by (simp add: balance_def)
qed

lemma sem_reach_balance: "sem_reach n s0 s \<Longrightarrow> balance n s = balance n s0"
  by (induction rule: sem_reach.induct) (auto dest: sem_step_trans simp: balance_step)

section \<open>Stopping and blocking\<close>

lemma sem_step_Stop:
  assumes "locks_ok s" "sem_step t s = Stop"
  shows "pc s t = V_count \<and> 2 ^ 31 - 1 \<le> sem_count s"
proof -
  have l: "sem_lock s = Some t \<longleftrightarrow> locked (pc s t)" "wc_lock (sem_wchan s) = Some t \<longleftrightarrow> wlocked (pc s t)"
    "0 \<le> sem_count s" "pc s t = P_take \<Longrightarrow> sem_count s \<noteq> 0"
    using assms(1) by (auto simp: locks_ok_def)
  note defs = sem_step_def P_step_def V_step_def wchan_lock_def wchan_unlock_def wchan_sleep_def thread_switch_sleep_def
  show ?thesis
  proof (cases "pc s t")
    case (V_wake w)
    then show ?thesis using assms(2) l by (cases w) (auto simp: defs split: if_splits list.splits)
  qed (use assms(2) l in \<open>auto simp: defs split: if_splits list.splits sem_op.splits\<close>)
qed

lemma sem_step_Go:
  assumes ok: "locks_ok s" "ready s t" and c: "sem_count s < 2 ^ 31 - 1"
  shows "wlocked (pc s t) \<Longrightarrow> \<exists>s'. sem_step t s = Go s'"
    "locked (pc s t) \<Longrightarrow> wc_lock (sem_wchan s) = None \<Longrightarrow> \<exists>s'. sem_step t s = Go s'"
    "pc s t \<in> {P_acquire, P_again, V_acquire} \<Longrightarrow> sem_lock s = None \<Longrightarrow> \<exists>s'. sem_step t s = Go s'"
proof -
  have l: "sem_lock s = Some t \<longleftrightarrow> locked (pc s t)" "wc_lock (sem_wchan s) = Some t \<longleftrightarrow> wlocked (pc s t)"
    "0 \<le> sem_count s" "pc s t = P_take \<Longrightarrow> sem_count s \<noteq> 0"
    using ok(1) by (auto simp: locks_ok_def)
  note defs = sem_step_def P_step_def V_step_def wchan_lock_def wchan_unlock_def wchan_sleep_def thread_switch_sleep_def spinlock_acquire_def
    spinlock_release_def
  show "\<exists>s'. sem_step t s = Go s'" if "wlocked (pc s t)"
    using that l ok(2) by (cases rule: wlocked.cases [of "pc s t"]) (auto simp: defs split: list.split)
  show "\<exists>s'. sem_step t s = Go s'" if "locked (pc s t)" "wc_lock (sem_wchan s) = None"
  proof (cases "pc s t")
    case (V_wake w)
    then show ?thesis using that l ok(2) by (cases w) (auto simp: defs split: list.split)
  qed (use that l ok(2) c in \<open>auto simp: defs\<close>)
  show "\<exists>s'. sem_step t s = Go s'" if "pc s t \<in> {P_acquire, P_again, V_acquire}" "sem_lock s = None"
    using that ok(2) by (auto simp: defs)
qed

lemma sem_stuck:
  assumes inv: "sem_inv n s" and stuck: "\<forall>t<n. \<forall>s'. sem_step t s \<noteq> Go s'" and c: "sem_count s < 2 ^ 31 - 1"
  shows "sem_lock s = None \<and> wc_lock (sem_wchan s) = None" "t < n \<Longrightarrow> pc s t = Idle \<and> todo s t = [] \<or> pc s t = P_again \<and> \<not> ready s t"
proof -
  have ok: "locks_ok s" "sleepers_ok s" using inv by (simp_all add: sem_inv_def)
  have n: "u < n" if "pc s u \<noteq> Idle" for u using inv that by (meson not_le sem_inv_def)
  have r: "ready s u" if "pc s u \<noteq> P_again" for u using sleepersD(2-4) [OF ok(2)] that by blast
  have wc: "wc_lock (sem_wchan s) = None"
  proof (cases "wc_lock (sem_wchan s)")
    case (Some u)
    then have u: "wlocked (pc s u)" using ok(1) by (auto simp: locks_ok_def)
    then have "pc s u \<noteq> Idle \<and> pc s u \<noteq> P_again" by auto
    then have "u < n" "ready s u" using n r by blast+
    then show ?thesis using sem_step_Go(1) [OF ok(1) _ c u] stuck by blast
  qed
  moreover have sl: "sem_lock s = None"
  proof (cases "sem_lock s")
    case (Some u)
    then have u: "locked (pc s u)" using ok(1) by (auto simp: locks_ok_def)
    then have "pc s u \<noteq> Idle \<and> pc s u \<noteq> P_again" by auto
    then have "u < n" "ready s u" using n r by blast+
    then show ?thesis using sem_step_Go(2) [OF ok(1) _ c u wc] stuck by blast
  qed
  ultimately show "sem_lock s = None \<and> wc_lock (sem_wchan s) = None" by simp
  have "\<not> locked (pc s t)" "\<not> wlocked (pc s t)" using ok(1) sl wc by (auto simp: locks_ok_def)
  moreover have "\<not> (ready s t \<and> pc s t \<in> {P_acquire, P_again, V_acquire})" if "t < n"
    using sem_step_Go(3) [OF ok(1) _ c _ sl] stuck that by blast
  moreover have "todo s t = []" if "pc s t = Idle" "t < n"
  proof -
    have "\<exists>s'. sem_step t s = Go s'" if "todo s t = x # ops" for x ops
      using that \<open>pc s t = Idle\<close> r [of t] by (cases x) (simp_all add: sem_step_def)
    then show ?thesis using stuck that(2) by (cases "todo s t") blast+
  qed
  ultimately show "pc s t = Idle \<and> todo s t = [] \<or> pc s t = P_again \<and> \<not> ready s t" if "t < n"
    using that r [of t] by (cases "pc s t") auto
qed

section \<open>Schedules\<close>

text \<open>Running a sequence of threads, one step each.\<close>

fun sem_run :: "tid list \<Rightarrow> semsys \<Rightarrow> semsys option" where
  "sem_run [] s = Some s"
| "sem_run (t # ts) s = (case sem_step t s of Go s' \<Rightarrow> sem_run ts s' | _ \<Rightarrow> None)"

lemma sem_run_reach: "sem_run ts s = Some s' \<Longrightarrow> set ts \<subseteq> {..<n} \<Longrightarrow> sem_reach n s0 s \<Longrightarrow> sem_reach n s0 s'"
  by (induction ts s rule: sem_run.induct) (auto split: step.splits intro: sem_reach.step)

section \<open>Properties\<close>

text \<open>
  C19: Semaphores are safe. However the threads interleave, the count is never negative, and it
  is the initial count plus one for each \<open>V\<close> and minus one for each \<open>P\<close> that took effect. No
  assertion fails and no spinlock is misused, except that \<open>V\<close> stops the kernel when the count
  would leave the range of an \<open>int\<close>.
\<close>

theorem sem_safe:
  assumes "sem_create ok1 ok2 ok3 c calls = Some (Some s0)" "sem_reach n s0 s"
  shows "0 \<le> sem_count s \<and>
    sem_count s + (\<Sum>t<n. owed s t) = c + (\<Sum>t<n. \<Sum>x\<leftarrow>calls t. effect x) \<and>
    (\<forall>t. sem_step t s = Stop \<longrightarrow> pc s t = V_count \<and> 2 ^ 31 - 1 \<le> sem_count s)"
proof -
  have inv: "sem_inv n s0" "sem_count s0 = c" using sem_create_inv [OF assms(1)] by blast+
  have ok: "locks_ok s" using sem_reach_inv [OF assms(2) inv(1)] by (simp add: sem_inv_def)
  have "owed s0 t = (\<Sum>x\<leftarrow>calls t. effect x)" for t
    using assms(1) by (auto simp: sem_create_def owed_def split: if_splits)
  then have "balance n s = c + (\<Sum>t<n. \<Sum>x\<leftarrow>calls t. effect x)"
    using sem_reach_balance [OF assms(2)] inv(2) by (simp add: balance_def)
  then show ?thesis using ok sem_step_Stop [OF ok] by (auto simp: balance_def locks_ok_def)
qed

definition one_waiter :: semsys where
  "one_waiter = the (the (sem_create True True True 0 ((\<lambda>_. [])(0 := [Call_P]))))"

lemma one_waiter_run:
  "sem_create True True True 0 ((\<lambda>_. [])(0 := [Call_P])) = Some (Some one_waiter)"
  "\<exists>s. sem_run [0, 0, 0, 0, 0, 0] one_waiter = Some s \<and> pc s 0 = P_again \<and> \<not> ready s 0 \<and> sem_count s = 0 \<and>
     wc_threads (sem_wchan s) = [0]"
  by (simp_all add: one_waiter_def sem_create_def sem_step_def P_step_def wchan_lock_def wchan_unlock_def wchan_sleep_def thread_switch_sleep_def
      spinlock_acquire_def spinlock_release_def wchan_create_def)

theorem sem_safe_witness: "\<exists>s. sem_reach 1 one_waiter s \<and> pc s 0 = P_again \<and> 0 \<le> sem_count s"
proof -
  obtain s where s: "sem_run [0, 0, 0, 0, 0, 0] one_waiter = Some s" "pc s 0 = P_again" using one_waiter_run(2) by blast
  have "sem_reach 1 one_waiter s" by (rule sem_run_reach [OF s(1) _ sem_reach.start]) simp
  then show ?thesis using sem_safe [OF one_waiter_run(1)] s(2) by blast
qed

text \<open>
  C7: No wakeup is lost. When no thread can take a step any more, every thread has made all its
  calls or sleeps in \<open>P\<close>, and a thread sleeps only if the count is zero. So a thread in \<open>P\<close> is
  never left asleep while the semaphore could be taken, and the spinlocks never deadlock.
\<close>

theorem sem_no_lost_wakeup:
  assumes "sem_create ok1 ok2 ok3 c calls = Some (Some s0)" "sem_reach n s0 s"
    and "\<forall>t<n. \<forall>s'. sem_step t s \<noteq> Go s'" "sem_count s < 2 ^ 31 - 1" "t < n"
  shows "pc s t = Idle \<and> todo s t = [] \<or>
    pc s t = P_again \<and> t \<in> set (wc_threads (sem_wchan s)) \<and> sem_count s = 0"
proof -
  have inv: "sem_inv n s" using sem_create_inv [OF assms(1)] sem_reach_inv [OF assms(2)] by blast
  note st = sem_stuck [OF inv assms(3,4)]
  have ok: "locks_ok s" "sleepers_ok s" "wake_ok n s" using inv by (simp_all add: sem_inv_def)
  have l: "\<not> locked (pc s u)" for u using st(1) ok(1) by (auto simp: locks_ok_def)
  then have w: "waking (pc s u) = None" for u by (cases "pc s u" rule: waking.cases) (use l [of u] in auto)
  have "\<not> hot s u" if "u < n" for u using st(2) [OF that] w [of u] by (auto simp: hot_def)
  then have h: "hots n s = 0" by (simp add: hots_def)
  show ?thesis
  proof (cases "ready s t")
    case True
    then show ?thesis using st(2) [OF assms(5)] by blast
  next
    case False
    then have t: "t \<in> set (wc_threads (sem_wchan s))" using sleepersD(4) [OF ok(2)] w by fastforce
    then have "sem_count s \<le> 0" using ok(3) h by (auto simp: wake_ok_def)
    then show ?thesis using t sleepersD(2) [OF ok(2) t] ok(1) by (simp add: locks_ok_def)
  qed
qed

theorem sem_no_lost_wakeup_witness:
  "\<exists>s. sem_reach 1 one_waiter s \<and> (\<forall>t<1. \<forall>s'. sem_step t s \<noteq> Go s') \<and> 0 \<in> set (wc_threads (sem_wchan s))"
proof -
  obtain s where s: "sem_run [0, 0, 0, 0, 0, 0] one_waiter = Some s" "pc s 0 = P_again" "\<not> ready s 0" "sem_count s = 0"
    using one_waiter_run(2) by blast
  have r: "sem_reach 1 one_waiter s" by (rule sem_run_reach [OF s(1) _ sem_reach.start]) simp
  have "\<forall>t<1. \<forall>s'. sem_step t s \<noteq> Go s'" using s(3) by (simp add: sem_step_def)
  then show ?thesis using sem_no_lost_wakeup [OF one_waiter_run(1) r, of 0] r s(2,4) by auto
qed

end
