(* ===== verification/Synch_Lock.thy ===== *)
theory Synch_Lock
  imports Wchan
begin

text \<open>
  Locks and condition variables, \<open>kern/thread/synch.c\<close>. Any number of threads call the operations
  on one lock and one condition variable; a step of the system is one atomic action of one
  thread. The control points of an operation are the calls and tests in the order of the source;
  those of \<open>lock_release\<close> carry the place it returns to, since \<open>cv_wait\<close> calls it.
\<close>

section \<open>Operations\<close>

datatype lock_op = Acquire | Release | Wait | Signal | Broadcast

text \<open>Where \<open>lock_release\<close> returns to: the caller, or the rest of \<open>cv_wait\<close>.\<close>

datatype ret = To_caller | To_wait

datatype lock_pc = Idle
  | L_acquire | L_check | L_while | L_wlock | L_release | L_sleep | L_again | L_take | L_done
  | R_acquire ret | R_clear ret | R_wake ret wake_pc | R_done ret
  | C_wlock | C_sleep | C_again
  | S_check | S_wake wake_pc
  | B_check | B_wake wakeall_pc

record locksys =
  lk_owner :: "tid option"
  lk_lock :: "tid option"
  lk_wchan :: wchan
  cv_wchan :: wchan
  pc :: "tid \<Rightarrow> lock_pc"
  ready :: "tid \<Rightarrow> bool"
  todo :: "tid \<Rightarrow> lock_op list"

definition goto :: "tid \<Rightarrow> lock_pc \<Rightarrow> locksys \<Rightarrow> locksys" where
  "goto t p s = s\<lparr>pc := (pc s)(t := p)\<rparr>"

definition wake :: "tid option \<Rightarrow> locksys \<Rightarrow> locksys" where
  "wake target s = (case target of Some u \<Rightarrow> s\<lparr>ready := (ready s)(u := True)\<rparr> | None \<Rightarrow> s)"

text \<open>The flags of the two constructors say which allocations succeed; the result is \<open>NULL\<close> if one fails.\<close>

definition lock_create :: "bool \<Rightarrow> bool \<Rightarrow> bool \<Rightarrow> (tid option \<times> tid option \<times> wchan) option" where
  "lock_create ok_lock ok_name ok_wchan =
     (if \<not> ok_lock then None
      else if \<not> ok_name then None
      else if \<not> ok_wchan then None
      else Some (None, None, wchan_create))"

definition cv_create :: "bool \<Rightarrow> bool \<Rightarrow> bool \<Rightarrow> wchan option" where
  "cv_create ok_cv ok_name ok_wchan =
     (if \<not> ok_cv then None
      else if \<not> ok_name then None
      else if \<not> ok_wchan then None
      else Some wchan_create)"

text \<open>The wait channel of a lock is never \<open>NULL\<close> once \<open>lock_create\<close> has succeeded.\<close>

definition lock_destroy :: "locksys \<Rightarrow> unit step" where
  "lock_destroy s = (case spinlock_cleanup (lk_lock s) of
     Go _ \<Rightarrow> wchan_destroy (lk_wchan s)
   | r \<Rightarrow> r)"

definition cv_destroy :: "locksys \<Rightarrow> unit step" where
  "cv_destroy s = wchan_destroy (cv_wchan s)"

text \<open>A system of threads with a new lock and a new condition variable.\<close>

definition lock_system :: "(tid \<Rightarrow> lock_op list) \<Rightarrow> locksys" where
  "lock_system calls = (case (lock_create True True True, cv_create True True True) of
     (Some (owner, lk, wc), Some cv) \<Rightarrow>
       \<lparr>lk_owner = owner, lk_lock = lk, lk_wchan = wc, cv_wchan = cv, pc = (\<lambda>_. Idle), ready = (\<lambda>_. True), todo = calls\<rparr>)"

definition lock_do_i_hold :: "tid \<Rightarrow> locksys \<Rightarrow> bool" where
  "lock_do_i_hold t s \<longleftrightarrow> lk_owner s = Some t"

definition acquire_step :: "tid \<Rightarrow> locksys \<Rightarrow> locksys step" where
  "acquire_step t s = (case pc s t of
     L_acquire \<Rightarrow> map_go (\<lambda>l. goto t L_check (s\<lparr>lk_lock := l\<rparr>)) (spinlock_acquire t (lk_lock s))
   | L_check \<Rightarrow> if lock_do_i_hold t s then Stop else Go (goto t L_while s)
   | L_while \<Rightarrow> Go (goto t (if lk_owner s \<noteq> None then L_wlock else L_take) s)
   | L_wlock \<Rightarrow> map_go (\<lambda>wc. goto t L_release (s\<lparr>lk_wchan := wc\<rparr>)) (wchan_lock t (lk_wchan s))
   | L_release \<Rightarrow> map_go (\<lambda>l. goto t L_sleep (s\<lparr>lk_lock := l\<rparr>)) (spinlock_release t (lk_lock s))
   | L_sleep \<Rightarrow> map_go (\<lambda>wc. goto t L_again (s\<lparr>lk_wchan := wc, ready := (ready s)(t := False)\<rparr>)) (wchan_sleep t (lk_wchan s))
   | L_again \<Rightarrow> map_go (\<lambda>l. goto t L_while (s\<lparr>lk_lock := l\<rparr>)) (spinlock_acquire t (lk_lock s))
   | L_take \<Rightarrow> if lk_owner s = None then Go (goto t L_done (s\<lparr>lk_owner := Some t\<rparr>)) else Stop
   | L_done \<Rightarrow> map_go (\<lambda>l. goto t Idle (s\<lparr>lk_lock := l\<rparr>)) (spinlock_release t (lk_lock s))
   | _ \<Rightarrow> Blocked)"

definition release_step :: "tid \<Rightarrow> locksys \<Rightarrow> locksys step" where
  "release_step t s = (case pc s t of
     R_acquire r \<Rightarrow> map_go (\<lambda>l. goto t (R_clear r) (s\<lparr>lk_lock := l\<rparr>)) (spinlock_acquire t (lk_lock s))
   | R_clear r \<Rightarrow> Go (goto t (R_wake r W_lock) (s\<lparr>lk_owner := None\<rparr>))
   | R_wake r w \<Rightarrow> map_go (\<lambda>(next, target, wc).
         goto t (case next of Some w \<Rightarrow> R_wake r w | None \<Rightarrow> R_done r) (wake target (s\<lparr>lk_wchan := wc\<rparr>)))
       (wakeone_step t w (lk_wchan s))
   | R_done r \<Rightarrow> map_go (\<lambda>l. goto t (case r of To_caller \<Rightarrow> Idle | To_wait \<Rightarrow> C_wlock) (s\<lparr>lk_lock := l\<rparr>))
       (spinlock_release t (lk_lock s))
   | _ \<Rightarrow> Blocked)"

text \<open>The part of \<open>cv_wait\<close> between its calls of \<open>lock_release\<close> and \<open>lock_acquire\<close>.\<close>

definition wait_step :: "tid \<Rightarrow> locksys \<Rightarrow> locksys step" where
  "wait_step t s = (case pc s t of
     C_wlock \<Rightarrow> map_go (\<lambda>wc. goto t C_sleep (s\<lparr>cv_wchan := wc\<rparr>)) (wchan_lock t (cv_wchan s))
   | C_sleep \<Rightarrow> map_go (\<lambda>wc. goto t C_again (s\<lparr>cv_wchan := wc, ready := (ready s)(t := False)\<rparr>)) (wchan_sleep t (cv_wchan s))
   | C_again \<Rightarrow> Go (goto t L_acquire s)
   | _ \<Rightarrow> Blocked)"

definition signal_step :: "tid \<Rightarrow> locksys \<Rightarrow> locksys step" where
  "signal_step t s = (case pc s t of
     S_check \<Rightarrow> if lock_do_i_hold t s then Go (goto t (S_wake W_lock) s) else Stop
   | S_wake w \<Rightarrow> map_go (\<lambda>(next, target, wc).
         goto t (case next of Some w \<Rightarrow> S_wake w | None \<Rightarrow> Idle) (wake target (s\<lparr>cv_wchan := wc\<rparr>)))
       (wakeone_step t w (cv_wchan s))
   | _ \<Rightarrow> Blocked)"

definition broadcast_step :: "tid \<Rightarrow> locksys \<Rightarrow> locksys step" where
  "broadcast_step t s = (case pc s t of
     B_check \<Rightarrow> if lock_do_i_hold t s then Go (goto t (B_wake A_lock) s) else Stop
   | B_wake a \<Rightarrow> map_go (\<lambda>(next, target, wc).
         goto t (case next of Some a \<Rightarrow> B_wake a | None \<Rightarrow> Idle) (wake target (s\<lparr>cv_wchan := wc\<rparr>)))
       (wakeall_step t a (cv_wchan s))
   | _ \<Rightarrow> Blocked)"

fun entry :: "lock_op \<Rightarrow> lock_pc" where
  "entry Acquire = L_acquire"
| "entry Release = R_acquire To_caller"
| "entry Wait = R_acquire To_wait"
| "entry Signal = S_check"
| "entry Broadcast = B_check"

text \<open>One action of thread \<open>t\<close>: a call, or a step of the call it is in.\<close>

definition lock_step :: "tid \<Rightarrow> locksys \<Rightarrow> locksys step" where
  "lock_step t s =
     (if \<not> ready s t then Blocked
      else case pc s t of
        Idle \<Rightarrow> (case todo s t of
            [] \<Rightarrow> Blocked
          | call # ops \<Rightarrow> Go (goto t (entry call) (s\<lparr>todo := (todo s)(t := ops)\<rparr>)))
      | R_acquire _ \<Rightarrow> release_step t s
      | R_clear _ \<Rightarrow> release_step t s
      | R_wake _ _ \<Rightarrow> release_step t s
      | R_done _ \<Rightarrow> release_step t s
      | C_wlock \<Rightarrow> wait_step t s
      | C_sleep \<Rightarrow> wait_step t s
      | C_again \<Rightarrow> wait_step t s
      | S_check \<Rightarrow> signal_step t s
      | S_wake _ \<Rightarrow> signal_step t s
      | B_check \<Rightarrow> broadcast_step t s
      | B_wake _ \<Rightarrow> broadcast_step t s
      | _ \<Rightarrow> acquire_step t s)"

inductive lock_reach :: "locksys \<Rightarrow> locksys \<Rightarrow> bool" for s0 where
  start: "lock_reach s0 s0"
| step: "lock_reach s0 s \<Longrightarrow> lock_step t s = Go s' \<Longrightarrow> lock_reach s0 s'"

fun lock_run :: "tid list \<Rightarrow> locksys \<Rightarrow> locksys option" where
  "lock_run [] s = Some s"
| "lock_run (t # ts) s = (case lock_step t s of Go s' \<Rightarrow> lock_run ts s' | _ \<Rightarrow> None)"

lemma lock_run_reach: "lock_run ts s = Some s' \<Longrightarrow> lock_reach s0 s \<Longrightarrow> lock_reach s0 s'"
  by (induction ts s rule: lock_run.induct) (auto split: step.splits intro: lock_reach.step)

lemma lock_goto_sel [simp]:
  "pc (goto t p s) = (pc s)(t := p)" "lk_owner (goto t p s) = lk_owner s" "lk_lock (goto t p s) = lk_lock s"
  "lk_wchan (goto t p s) = lk_wchan s" "cv_wchan (goto t p s) = cv_wchan s" "ready (goto t p s) = ready s"
  "todo (goto t p s) = todo s" "pc (wake x s) = pc s" "lk_owner (wake x s) = lk_owner s" "lk_lock (wake x s) = lk_lock s"
  "todo (wake x s) = todo s" "lk_wchan (wake x s) = lk_wchan s" "cv_wchan (wake x s) = cv_wchan s"
  by (auto simp: goto_def wake_def split: option.splits)

section \<open>Mutual exclusion\<close>

text \<open>
  The calls of a thread that follows the rules of \<open>synch.h\<close>, given whether it holds the lock: it
  acquires the lock only when it does not hold it, and does everything else only when it does.
\<close>

fun disciplined :: "bool \<Rightarrow> lock_op list \<Rightarrow> bool" where
  "disciplined held [] = True"
| "disciplined held (Acquire # ops) = (\<not> held \<and> disciplined True ops)"
| "disciplined held (Release # ops) = (held \<and> disciplined False ops)"
| "disciplined held (call # ops) = (held \<and> disciplined True ops)"

fun locked :: "lock_pc \<Rightarrow> bool" where
  "locked L_check = True"
| "locked L_while = True"
| "locked L_wlock = True"
| "locked L_release = True"
| "locked L_take = True"
| "locked L_done = True"
| "locked (R_clear _) = True"
| "locked (R_wake _ _) = True"
| "locked (R_done _) = True"
| "locked _ = False"

text \<open>Whether a thread at a control point holds the lock, and will hold it when it is idle again.\<close>

fun holding :: "lock_pc \<Rightarrow> bool" where
  "holding L_done = True"
| "holding (R_acquire _) = True"
| "holding (R_clear _) = True"
| "holding S_check = True"
| "holding (S_wake _) = True"
| "holding B_check = True"
| "holding (B_wake _) = True"
| "holding _ = False"

fun leaving :: "lock_pc \<Rightarrow> bool" where
  "leaving (R_acquire r) = (r = To_caller)"
| "leaving (R_clear r) = (r = To_caller)"
| "leaving (R_wake r _) = (r = To_caller)"
| "leaving (R_done r) = (r = To_caller)"
| "leaving _ = False"

text \<open>Whether it holds the spinlock of a wait channel.\<close>

fun wake_locked :: "wake_pc \<Rightarrow> bool" where
  "wake_locked W_take = True"
| "wake_locked (W_unlock _) = True"
| "wake_locked _ = False"

fun wakeall_locked :: "wakeall_pc \<Rightarrow> bool" where
  "wakeall_locked (A_take _) = True"
| "wakeall_locked _ = False"

fun lk_chan :: "lock_pc \<Rightarrow> bool" where
  "lk_chan L_release = True"
| "lk_chan L_sleep = True"
| "lk_chan (R_wake _ w) = wake_locked w"
| "lk_chan _ = False"

fun cv_chan :: "lock_pc \<Rightarrow> bool" where
  "cv_chan C_sleep = True"
| "cv_chan (S_wake w) = wake_locked w"
| "cv_chan (B_wake a) = wakeall_locked a"
| "cv_chan _ = False"

definition thread_inv :: "locksys \<Rightarrow> tid \<Rightarrow> bool" where
  "thread_inv s t \<longleftrightarrow> (lk_lock s = Some t \<longleftrightarrow> locked (pc s t)) \<and>
     (wc_lock (lk_wchan s) = Some t \<longleftrightarrow> lk_chan (pc s t)) \<and> (wc_lock (cv_wchan s) = Some t \<longleftrightarrow> cv_chan (pc s t)) \<and>
     (pc s t = L_take \<longrightarrow> lk_owner s = None) \<and>
     (if pc s t = Idle then disciplined (lk_owner s = Some t) (todo s t)
      else (lk_owner s = Some t \<longleftrightarrow> holding (pc s t)) \<and> disciplined (\<not> leaving (pc s t)) (todo s t))"

definition lock_inv :: "locksys \<Rightarrow> bool" where
  "lock_inv s \<longleftrightarrow> (\<forall>t. thread_inv s t)"

lemmas step_defs = acquire_step_def release_step_def wait_step_def signal_step_def broadcast_step_def lock_do_i_hold_def

lemma lock_inv_start: "\<forall>t. disciplined False (calls t) \<Longrightarrow> lock_inv (lock_system calls)"
  by (simp add: lock_inv_def thread_inv_def lock_system_def lock_create_def cv_create_def wchan_create_def)

lemma entry_inv: "disciplined h (call # ops) \<Longrightarrow>
    holding (entry call) = h \<and> disciplined (\<not> leaving (entry call)) ops \<and> \<not> locked (entry call) \<and> entry call \<noteq> Idle \<and>
      entry call \<noteq> L_take \<and> \<not> lk_chan (entry call) \<and> \<not> cv_chan (entry call)"
  by (cases call) auto

text \<open>The control points, with those of the wakers inside the operations that call them.\<close>

lemma lock_pc_cases:
  fixes p :: lock_pc
  obtains "p = Idle" | "p \<in> {L_acquire, L_check, L_while, L_wlock, L_release, L_sleep, L_again, L_take, L_done}"
  | r where "p \<in> {R_acquire r, R_clear r, R_wake r W_lock, R_wake r W_take, R_done r}"
  | r x where "p \<in> {R_wake r (W_unlock x), R_wake r (W_run x)}"
  | "p \<in> {C_wlock, C_sleep, C_again, S_check, S_wake W_lock, S_wake W_take, B_check, B_wake A_lock, B_wake (A_run [])}"
  | x where "p \<in> {S_wake (W_unlock x), S_wake (W_run x)}" | us u where "p \<in> {B_wake (A_take us), B_wake (A_run (u # us))}"
proof (cases p)
  case (R_wake r w)
  then show ?thesis by (cases w) (rule that(3)[of r] that(4)[of r], blast)+
next
  case (S_wake w)
  then show ?thesis by (cases w) (rule that(5) that(6), blast)+
next
  case (B_wake a)
  then show ?thesis by (cases "(0 :: nat, a, wchan_create)" rule: wakeall_step.cases) (rule that(5) that(7), blast)+
qed (rule that(1) that(2) that(5) that(3), blast)+

text \<open>A step of a thread keeps its own part of the invariant.\<close>

lemma thread_inv_own: "lock_step t s = Go s' \<Longrightarrow> thread_inv s t \<Longrightarrow> thread_inv s' t"
proof (cases "pc s t = Idle")
  case True
  then show "lock_step t s = Go s' \<Longrightarrow> thread_inv s t \<Longrightarrow> thread_inv s' t"
    by (auto simp: lock_step_def thread_inv_def dest!: entry_inv split: list.splits if_splits)
next
  case False
  then show "lock_step t s = Go s' \<Longrightarrow> thread_inv s t \<Longrightarrow> thread_inv s' t"
    by (cases "pc s t" rule: lock_pc_cases; (elim insertE emptyE)?;
        auto simp: lock_step_def step_defs thread_inv_def split: list.splits if_splits ret.splits)
qed

text \<open>It changes the spinlocks and the owner only where this is the thread's to do.\<close>

lemma lock_step_frame: "lock_step t s = Go s' \<Longrightarrow> thread_inv s t \<Longrightarrow> u \<noteq> t \<Longrightarrow>
    pc s' u = pc s u \<and> todo s' u = todo s u \<and> (lk_lock s' = Some u \<longleftrightarrow> lk_lock s = Some u) \<and>
    (wc_lock (lk_wchan s') = Some u \<longleftrightarrow> wc_lock (lk_wchan s) = Some u) \<and>
    (wc_lock (cv_wchan s') = Some u \<longleftrightarrow> wc_lock (cv_wchan s) = Some u) \<and>
    (lk_owner s' = Some u \<longleftrightarrow> lk_owner s = Some u) \<and> (lk_lock s = Some u \<longrightarrow> lk_owner s = None \<longrightarrow> lk_owner s' = None)"
  by (cases "pc s t" rule: lock_pc_cases; (elim insertE emptyE)?;
      auto simp: lock_step_def step_defs thread_inv_def split: list.splits if_splits)

lemma thread_inv_other: "lock_step t s = Go s' \<Longrightarrow> thread_inv s t \<Longrightarrow> u \<noteq> t \<Longrightarrow> thread_inv s u \<Longrightarrow> thread_inv s' u"
  using lock_step_frame[of t s s' u] by (auto simp: thread_inv_def split: if_splits)

lemma lock_step_Go: "lock_step t s = Go s' \<Longrightarrow> lock_inv s \<Longrightarrow> lock_inv s'"
  unfolding lock_inv_def by (metis thread_inv_own thread_inv_other)

lemma lock_reach_inv: "lock_reach s0 s \<Longrightarrow> lock_inv s0 \<Longrightarrow> lock_inv s"
  by (induction rule: lock_reach.induct) (auto dest: lock_step_Go)

lemma lock_step_Stop: "thread_inv s t \<Longrightarrow> lock_step t s \<noteq> Stop"
  by (cases "pc s t" rule: lock_pc_cases; (elim insertE emptyE)?;
      auto simp: lock_step_def step_defs thread_inv_def split: list.splits)

text \<open>
  A thread is in its critical section when its next call is one that needs the lock, or when it
  is inside such a call and has not released the lock.
\<close>

definition critical :: "locksys \<Rightarrow> tid \<Rightarrow> bool" where
  "critical s t \<longleftrightarrow> (if pc s t = Idle then todo s t \<noteq> [] \<and> hd (todo s t) \<noteq> Acquire else holding (pc s t))"

lemma critical_owner: "thread_inv s t \<Longrightarrow> critical s t \<Longrightarrow> lk_owner s = Some t"
  using disciplined.elims(2)[of "lk_owner s = Some t" "todo s t"]
  by (fastforce simp: thread_inv_def critical_def split: if_splits)

text \<open>
  C8: If every thread follows the rules (it acquires the lock only when it does not hold it, and
  releases, waits, signals and broadcasts only when it does), then in every reachable state the
  threads in their critical sections own the lock, so there is at most one, and no assertion of
  the lock and condition variable operations, the spinlocks and the wait channels fails.
\<close>

theorem lock_mutex:
  assumes "\<forall>t. disciplined False (calls t)" "lock_reach (lock_system calls) s"
  shows "(critical s t \<longrightarrow> lk_owner s = Some t) \<and> (critical s t \<and> critical s u \<longrightarrow> t = u) \<and> lock_step t s \<noteq> Stop"
proof -
  have "thread_inv s t" "thread_inv s u"
    using lock_reach_inv[OF assms(2) lock_inv_start[OF assms(1)]] by (auto simp: lock_inv_def)
  then show ?thesis using critical_owner[of s t] critical_owner[of s u] lock_step_Stop[of s t] by auto
qed

text \<open>One thread waits for a condition and another one signals it.\<close>

definition wait_and_signal :: "tid \<Rightarrow> lock_op list" where
  "wait_and_signal = (\<lambda>_. [])(0 := [Acquire, Wait, Release], 1 := [Acquire, Signal, Release])"

lemmas run_simps = lock_step_def step_defs spinlock_acquire_def spinlock_release_def wchan_lock_def wchan_unlock_def
  wchan_sleep_def thread_switch_sleep_def wchan_create_def lock_system_def lock_create_def cv_create_def goto_def wake_def wait_and_signal_def

text \<open>The state in which the waiting thread has released the lock but does not sleep yet.\<close>

definition half_waiting :: locksys where
  "half_waiting = (lock_system wait_and_signal)
     \<lparr>pc := (\<lambda>_. Idle)(0 := C_wlock), todo := (\<lambda>_. [])(0 := [Release], 1 := [Acquire, Signal, Release])\<rparr>"

lemma run_half_waiting: "lock_run (replicate 14 0) (lock_system wait_and_signal) = Some half_waiting"
  by (simp add: half_waiting_def run_simps eval_nat_numeral fun_eq_iff)

theorem lock_mutex_witness:
  "\<exists>s. lock_reach (lock_system wait_and_signal) s \<and> critical s 0 \<and> lk_owner s = Some 0 \<and> lock_step 0 s \<noteq> Stop"
proof -
  have 1: "\<forall>t. disciplined False (wait_and_signal t)" by (simp add: wait_and_signal_def)
  have "\<exists>s. lock_run (replicate 6 0) (lock_system wait_and_signal) = Some s \<and> critical s 0"
    by (simp add: run_simps eval_nat_numeral critical_def)
  then obtain s where s: "lock_reach (lock_system wait_and_signal) s" "critical s 0"
    using lock_run_reach lock_reach.start by blast
  then show ?thesis using lock_mutex[OF 1 s(1), of 0 0] by blast
qed

section \<open>Sleepers\<close>

text \<open>
  A sleeping thread is in one spot: on one of the two wait channels, or in the hand of the thread
  that has taken it off a channel and is about to make it runnable.
\<close>

datatype spot = On_lk | On_cv | In_hand tid

fun target_list :: "tid option \<Rightarrow> tid list" where
  "target_list None = []"
| "target_list (Some u) = [u]"

fun wake_hand :: "wake_pc \<Rightarrow> tid list" where
  "wake_hand (W_unlock target) = target_list target"
| "wake_hand (W_run target) = target_list target"
| "wake_hand _ = []"

fun wakeall_hand :: "wakeall_pc \<Rightarrow> tid list" where
  "wakeall_hand A_lock = []"
| "wakeall_hand (A_take us) = us"
| "wakeall_hand (A_run us) = us"

fun hand :: "lock_pc \<Rightarrow> tid list" where
  "hand (R_wake _ w) = wake_hand w"
| "hand (S_wake w) = wake_hand w"
| "hand (B_wake a) = wakeall_hand a"
| "hand _ = []"

fun spots :: "locksys \<Rightarrow> spot \<Rightarrow> tid list" where
  "spots s On_lk = wc_threads (lk_wchan s)"
| "spots s On_cv = wc_threads (cv_wchan s)"
| "spots s (In_hand u) = hand (pc s u)"

fun signalling :: "lock_pc \<Rightarrow> bool" where
  "signalling S_check = True"
| "signalling (S_wake _) = True"
| "signalling B_check = True"
| "signalling (B_wake _) = True"
| "signalling _ = False"

text \<open>What a step does to the sleepers: nothing, take the first one, make it runnable, or go to sleep.\<close>

inductive moved :: "tid \<Rightarrow> locksys \<Rightarrow> locksys \<Rightarrow> bool" for t s s' where
  none: "spots s' = spots s \<Longrightarrow> ready s' = ready s \<Longrightarrow> moved t s s'"
| taken: "x = On_lk \<or> x = On_cv \<and> signalling (pc s t) \<and> signalling (pc s' t) \<Longrightarrow> spots s x = w # ws \<Longrightarrow>
    spots s' = (spots s)(x := ws, In_hand t := spots s (In_hand t) @ [w]) \<Longrightarrow> ready s' = ready s \<Longrightarrow> moved t s s'"
| woken: "spots s (In_hand t) = w # ws \<Longrightarrow> spots s' = (spots s)(In_hand t := ws) \<Longrightarrow>
    ready s' = (ready s)(w := True) \<Longrightarrow> moved t s s'"
| slept: "x = On_lk \<and> pc s t = L_sleep \<or> x = On_cv \<and> pc s t = C_sleep \<Longrightarrow> ready s t \<Longrightarrow>
    spots s' = (spots s)(x := spots s x @ [t]) \<Longrightarrow> ready s' = (ready s)(t := False) \<Longrightarrow> moved t s s'"

lemma spots_eq: "spots s' = f \<longleftrightarrow>
    wc_threads (lk_wchan s') = f On_lk \<and> wc_threads (cv_wchan s') = f On_cv \<and> (\<forall>u. hand (pc s' u) = f (In_hand u))"
proof
  assume *: "wc_threads (lk_wchan s') = f On_lk \<and> wc_threads (cv_wchan s') = f On_cv \<and> (\<forall>u. hand (pc s' u) = f (In_hand u))"
  have "spots s' x = f x" for x using * by (cases x) auto
  then show "spots s' = f" by blast
qed auto

lemma hand_entry [simp]: "hand (entry call) = []"
  by (cases call) auto

lemma ready_wake [simp]: "ready (wake None s) = ready s" "ready (wake (Some u) s) = (ready s)(u := True)"
  by (simp_all add: wake_def)

lemma lock_step_moved:
  assumes "lock_step t s = Go s'"
  shows "moved t s s'"
proof (cases "spots s' = spots s \<and> ready s' = ready s")
  case False
  then show ?thesis using assms
  proof (cases "pc s t" rule: lock_pc_cases)
    case 1
    then show ?thesis using False assms by (auto simp: lock_step_def spots_eq split: list.splits if_splits)
  next
    case 2
    then show ?thesis using False assms
      by (elim insertE emptyE; force simp: lock_step_def step_defs spots_eq intro!: moved.slept [of On_lk] split: if_splits)
  next
    case (3 r)
    then show ?thesis using False assms
      by (elim insertE emptyE; force simp: lock_step_def step_defs spots_eq intro!: moved.taken [of On_lk]
        split: if_splits list.splits ret.splits)
  next
    case (4 r x)
    then show ?thesis using False assms
      by (cases x; elim insertE emptyE; force simp: lock_step_def step_defs spots_eq intro!: moved.woken split: if_splits)
  next
    case 5
    then show ?thesis using False assms
    proof (cases "pc s t = C_sleep")
      case True
      then show ?thesis using assms
        by (force simp: lock_step_def step_defs spots_eq intro!: moved.slept [of On_cv] split: if_splits)
    qed (elim insertE emptyE; force simp: lock_step_def step_defs spots_eq intro!: moved.taken [of On_cv]
        split: if_splits list.splits)
  next
    case (6 x)
    then show ?thesis using False assms
      by (cases x; elim insertE emptyE; force simp: lock_step_def step_defs spots_eq intro!: moved.woken split: if_splits)
  next
    case (7 us u)
    then show ?thesis using False assms
    proof (elim insertE emptyE)
      assume "pc s t = B_wake (A_take us)"
      then show ?thesis using False assms
        by (force simp: lock_step_def step_defs spots_eq intro!: moved.taken [of On_cv] split: if_splits list.splits)
    next
      assume "pc s t = B_wake (A_run (u # us))"
      then show ?thesis using False assms
        by (force simp: lock_step_def step_defs spots_eq intro!: moved.woken split: if_splits)
    qed
  qed
qed (simp add: moved.none)

definition apart :: "('x \<Rightarrow> tid list) \<Rightarrow> (tid \<Rightarrow> bool) \<Rightarrow> bool" where
  "apart f rd \<longleftrightarrow> (\<forall>x. distinct (f x)) \<and> (\<forall>x y w. w \<in> set (f x) \<longrightarrow> w \<in> set (f y) \<longrightarrow> x = y) \<and>
     (\<forall>x w. w \<in> set (f x) \<longrightarrow> \<not> rd w)"

lemma apart_hd:
  assumes "apart f rd" "f x = w # ws"
  shows "w \<notin> set ws" "z \<noteq> x \<Longrightarrow> w \<notin> set (f z)"
  using assms unfolding apart_def by (metis distinct.simps(2), metis list.set_intros(1))

lemma apart_take:
  assumes "apart f rd" "f x = w # ws" "x \<noteq> y"
  shows "apart (f(x := ws, y := f y @ [w])) rd"
proof -
  let ?g = "f(x := ws, y := f y @ [w])"
  note w = apart_hd [OF assms(1,2)]
  have "v \<in> set (?g z) \<longleftrightarrow> (if v = w then z = y else v \<in> set (f z))" for v z
    using w assms(2,3) by auto
  moreover have "distinct (?g z)" for z
    using assms w(2) unfolding apart_def by (auto dest: spec [of _ x])
  ultimately show ?thesis using assms(1,2) unfolding apart_def by (metis list.set_intros(1))
qed

lemma apart_wake:
  assumes "apart f rd" "f x = w # ws"
  shows "apart (f(x := ws)) (rd(w := True))"
proof -
  have "v \<in> set ((f(x := ws)) z) \<longleftrightarrow> v \<noteq> w \<and> v \<in> set (f z)" for v z
    using apart_hd [OF assms] assms(2) by auto
  moreover have "distinct ((f(x := ws)) z)" for z
    using assms unfolding apart_def by (auto dest: spec [of _ x])
  ultimately show ?thesis using assms(1) unfolding apart_def by auto
qed

lemma apart_sleep:
  assumes "apart f rd" "rd t"
  shows "apart (f(x := f x @ [t])) (rd(t := False))"
  using assms unfolding apart_def by auto

definition sleep_inv :: "locksys \<Rightarrow> bool" where
  "sleep_inv s \<longleftrightarrow> apart (spots s) (ready s)"

lemma sleep_inv_start: "sleep_inv (lock_system calls)"
proof -
  have "spots (lock_system calls) x = []" for x
    by (cases x) (simp_all add: lock_system_def lock_create_def cv_create_def wchan_create_def)
  then show ?thesis by (simp add: sleep_inv_def apart_def)
qed

lemma moved_sleep_inv:
  assumes "moved t s s'" "sleep_inv s"
  shows "sleep_inv s'"
  using assms(1)
proof cases
  case none
  then show ?thesis using assms(2) by (simp add: sleep_inv_def)
next
  case (taken x w ws)
  have "x \<noteq> In_hand t" using taken(1) by auto
  then show ?thesis using apart_take [of "spots s" "ready s" x w ws "In_hand t"] taken assms(2) by (simp add: sleep_inv_def)
next
  case (woken w ws)
  then show ?thesis using apart_wake [of "spots s" "ready s" "In_hand t" w ws] assms(2) by (simp add: sleep_inv_def)
next
  case (slept x)
  then show ?thesis using apart_sleep [of "spots s" "ready s" t x] assms(2) by (simp add: sleep_inv_def)
qed

lemma lock_reach_sleep_inv: "lock_reach s0 s \<Longrightarrow> sleep_inv s0 \<Longrightarrow> sleep_inv s"
  by (induction rule: lock_reach.induct) (auto intro: moved_sleep_inv lock_step_moved)

lemma lock_step_pc: "lock_step t s = Go s' \<Longrightarrow> u \<noteq> t \<Longrightarrow> pc s' u = pc s u \<and> todo s' u = todo s u"
  by (cases "pc s t" rule: lock_pc_cases; (elim insertE emptyE)?;
      auto simp: lock_step_def step_defs split: list.splits if_splits)

text \<open>The sleepers on the condition variable only get more, or a signaller takes the first one.\<close>

lemma cv_threads_step: "lock_step t s = Go s' \<Longrightarrow>
    (\<exists>ws. wc_threads (cv_wchan s') = wc_threads (cv_wchan s) @ ws) \<or>
    (\<exists>v. wc_threads (cv_wchan s) = v # wc_threads (cv_wchan s') \<and> v \<in> set (hand (pc s' t)) \<and>
      signalling (pc s t) \<and> signalling (pc s' t))"
proof (drule lock_step_moved, erule moved.cases, goal_cases)
  case (2 x w ws)
  then show ?case by (simp only: spots_eq) auto
qed (auto simp: spots_eq)

text \<open>
  The lock and the condition variable can be destroyed when no thread is inside an operation on
  them. The owner of the lock is not checked.
\<close>

lemma lock_destroy_idle:
  assumes "lock_inv s" "sleep_inv s" "\<forall>t. pc s t = Idle \<and> ready s t"
  shows "lock_destroy s = Go ()" "cv_destroy s = Go ()"
proof -
  have "lk_lock s \<noteq> Some t" "wc_lock (lk_wchan s) \<noteq> Some t" "wc_lock (cv_wchan s) \<noteq> Some t" for t
    using assms(1,3) by (auto simp: lock_inv_def thread_inv_def dest!: spec [of _ t])
  moreover have "spots s x = []" for x
    using assms(2,3) unfolding sleep_inv_def apart_def by (metis list.set_intros(1) neq_Nil_conv)
  from this [of On_lk] this [of On_cv] have "wc_threads (lk_wchan s) = []" "wc_threads (cv_wchan s) = []" by simp_all
  ultimately show "lock_destroy s = Go ()" "cv_destroy s = Go ()"
    by (simp_all add: lock_destroy_def cv_destroy_def spinlock_cleanup_def wchan_destroy_def)
qed

text \<open>A thread that is runnable stays so while it takes no step.\<close>

lemma ready_step: "lock_step t s = Go s' \<Longrightarrow> t \<noteq> w \<Longrightarrow> ready s w \<Longrightarrow> ready s' w"
  by (drule lock_step_moved) (auto elim: moved.cases)

section \<open>Signals that arrive and signals that are lost\<close>

text \<open>No signal or broadcast is under way or still to come.\<close>

definition silent :: "locksys \<Rightarrow> tid \<Rightarrow> bool" where
  "silent s t \<longleftrightarrow> \<not> signalling (pc s t) \<and> Signal \<notin> set (todo s t) \<and> Broadcast \<notin> set (todo s t)"

definition no_signals :: "locksys \<Rightarrow> bool" where
  "no_signals s \<longleftrightarrow> (\<forall>t. silent s t)"

text \<open>Thread \<open>w\<close> has released the lock in \<open>cv_wait\<close> and cannot go on to acquire it again.\<close>

definition in_wait :: "locksys \<Rightarrow> tid \<Rightarrow> bool" where
  "in_wait s w \<longleftrightarrow> pc s w \<in> {C_wlock, C_sleep} \<or> pc s w = C_again \<and> \<not> ready s w"

text \<open>A signal or a broadcast of thread \<open>u\<close> that has not looked at the wait channel yet.\<close>

definition sg_due :: "locksys \<Rightarrow> tid \<Rightarrow> bool" where
  "sg_due s u \<longleftrightarrow> Signal \<in> set (todo s u) \<or> pc s u \<in> {S_check, S_wake W_lock, S_wake W_take}"

definition bc_due :: "locksys \<Rightarrow> tid \<Rightarrow> bool" where
  "bc_due s u \<longleftrightarrow> Broadcast \<in> set (todo s u) \<or> pc s u \<in> {B_check, B_wake A_lock} \<or> (\<exists>us. pc s u = B_wake (A_take us))"

text \<open>Thread \<open>u\<close> is going to wake the sleeper \<open>w\<close>.\<close>

definition waker :: "locksys \<Rightarrow> tid \<Rightarrow> tid \<Rightarrow> bool" where
  "waker s w u \<longleftrightarrow> signalling (pc s u) \<and> w \<in> set (hand (pc s u)) \<or> w \<in> set (wc_threads (cv_wchan s)) \<and> bc_due s u \<or>
     (\<exists>ws. wc_threads (cv_wchan s) = w # ws) \<and> sg_due s u"

lemma entry_signalling [simp]: "signalling (entry call) \<longleftrightarrow> call = Signal \<or> call = Broadcast"
  by (cases call) auto

lemmas waker_defs = waker_def sg_due_def bc_due_def

lemma waker_own: "lock_step u s = Go s' \<Longrightarrow> waker s w u \<Longrightarrow> waker s' w u \<or> ready s' w"
proof (cases "pc s u" rule: lock_pc_cases)
  case 1
  then show "lock_step u s = Go s' \<Longrightarrow> waker s w u \<Longrightarrow> waker s' w u \<or> ready s' w"
    by (auto simp: lock_step_def waker_defs split: list.splits if_splits)
next
  case (4 r x)
  then show "lock_step u s = Go s' \<Longrightarrow> waker s w u \<Longrightarrow> waker s' w u \<or> ready s' w"
    by (elim insertE emptyE; auto simp: lock_step_def step_defs waker_defs split: if_splits)
next
  case (6 x)
  then show "lock_step u s = Go s' \<Longrightarrow> waker s w u \<Longrightarrow> waker s' w u \<or> ready s' w"
    by (cases x; elim insertE emptyE; auto simp: lock_step_def step_defs waker_defs split: if_splits)
qed (elim insertE emptyE; auto simp: lock_step_def step_defs waker_defs split: list.splits if_splits ret.splits)+

lemma waker_other: "lock_step t s = Go s' \<Longrightarrow> waker s w u \<Longrightarrow> u \<noteq> t \<Longrightarrow> waker s' w u \<or> waker s' w t"
  using cv_threads_step [of t s s'] lock_step_pc [of t s s' u] by (auto simp: waker_defs)

lemma waker_run: "lock_run ts s = Some s' \<Longrightarrow> w \<notin> set ts \<Longrightarrow> ready s w \<or> (\<exists>u. waker s w u) \<Longrightarrow>
    ready s' w \<or> (\<exists>u. waker s' w u)"
proof (induction ts s rule: lock_run.induct)
  case (2 t ts s)
  then obtain s1 where s1: "lock_step t s = Go s1" "lock_run ts s1 = Some s'" by (auto split: step.splits)
  have "ready s1 w \<or> (\<exists>u. waker s1 w u)"
    using 2(4) ready_step [OF s1(1)] waker_own [of t s s1 w] waker_other [OF s1(1), of w] s1(1) 2(3)
    by (metis list.set_intros(1))
  then show ?case using 2(1) [OF s1] 2(3) by simp
qed auto

lemma no_signals_waker: "no_signals s \<Longrightarrow> \<not> waker s w u"
  by (auto simp: no_signals_def silent_def waker_defs dest!: spec [of _ u])

text \<open>Without signals a thread that is about to sleep stays in \<open>cv_wait\<close>.\<close>

definition stuck :: "tid \<Rightarrow> locksys \<Rightarrow> bool" where
  "stuck w s \<longleftrightarrow> sleep_inv s \<and> no_signals s \<and>
     (pc s w \<in> {C_wlock, C_sleep} \<or> pc s w = C_again \<and> w \<in> set (wc_threads (cv_wchan s)))"

lemma silent_own: "lock_step t s = Go s' \<Longrightarrow> silent s t \<Longrightarrow> silent s' t"
  by (cases "pc s t" rule: lock_pc_cases; (elim insertE emptyE)?;
      auto simp: lock_step_def step_defs silent_def split: list.splits if_splits ret.splits)

lemma no_signals_step: "lock_step t s = Go s' \<Longrightarrow> no_signals s \<Longrightarrow> no_signals s'"
  using silent_own [of t s s'] lock_step_pc [of t s s'] by (metis no_signals_def silent_def)

lemma sleep_inv_cv: "sleep_inv s \<Longrightarrow> w \<in> set (wc_threads (cv_wchan s)) \<Longrightarrow> \<not> ready s w"
  unfolding sleep_inv_def apart_def by (metis spots.simps(2))

lemma stuck_step:
  assumes step: "lock_step t s = Go s'" and s: "stuck w s"
  shows "stuck w s'"
proof -
  have inv: "sleep_inv s'" "no_signals s'"
    using s moved_sleep_inv [OF lock_step_moved [OF step]] no_signals_step [OF step] by (simp_all add: stuck_def)
  have "pc s' w \<in> {C_wlock, C_sleep} \<or> pc s' w = C_again \<and> w \<in> set (wc_threads (cv_wchan s'))"
  proof (cases "t = w")
    case True
    have "ready s w" using step True by (simp add: lock_step_def split: if_splits)
    then have "w \<notin> set (wc_threads (cv_wchan s))" using s sleep_inv_cv by (auto simp: stuck_def)
    then show ?thesis using True step s by (auto simp: stuck_def lock_step_def wait_step_def split: if_splits)
  next
    case False
    then have "pc s' w = pc s w" by (simp add: lock_step_pc [OF step])
    moreover have "\<not> signalling (pc s t)" using s by (simp add: stuck_def no_signals_def silent_def)
    then have "set (wc_threads (cv_wchan s)) \<subseteq> set (wc_threads (cv_wchan s'))" using cv_threads_step [OF step] by auto
    ultimately show ?thesis using s by (auto simp: stuck_def)
  qed
  then show ?thesis using inv by (simp add: stuck_def)
qed

lemma stuck_reach: "lock_reach s s' \<Longrightarrow> stuck w s \<Longrightarrow> stuck w s'"
  by (induction rule: lock_reach.induct) (auto intro: stuck_step)

lemma stuck_in_wait: "stuck w s \<Longrightarrow> in_wait s w"
  using sleep_inv_cv by (auto simp: stuck_def in_wait_def)

lemma lock_run_pc: "lock_run ts s = Some s' \<Longrightarrow> w \<notin> set ts \<Longrightarrow> pc s' w = pc s w"
  by (induction ts s rule: lock_run.induct) (auto split: step.splits dest: lock_step_pc)

text \<open>
  C40: Which signals of a condition variable arrive. Take any threads, any reachable state and
  any further steps of the threads other than \<open>w\<close> after which no signal or broadcast is left. If
  \<open>w\<close> slept on the condition variable, and a broadcast was to come, or a signal while \<open>w\<close> was the
  first sleeper, then \<open>w\<close> has been made runnable. But if \<open>w\<close> was between the two halves of
  \<open>cv_wait\<close>, which releases the lock before it locks the wait channel, then all signals and
  broadcasts of these steps are lost: whatever happens later, \<open>w\<close> never gets out of the wait.
\<close>

theorem cv_signal_lost:
  assumes "lock_reach (lock_system calls) s" "lock_run ts s = Some s'" "w \<notin> set ts" "no_signals s'"
  shows "(w \<in> set (wc_threads (cv_wchan s)) \<and> Broadcast \<in> set (todo s u) \<longrightarrow> \<not> ready s w \<and> ready s' w) \<and>
    (wc_threads (cv_wchan s) = w # ws \<and> Signal \<in> set (todo s u) \<longrightarrow> \<not> ready s w \<and> ready s' w) \<and>
    (pc s w = C_wlock \<longrightarrow> (\<forall>s''. lock_reach s' s'' \<longrightarrow> in_wait s'' w))"
proof (intro conjI impI allI)
  have inv: "sleep_inv s" by (rule lock_reach_sleep_inv [OF assms(1) sleep_inv_start])
  have wake: "\<not> ready s w \<and> ready s' w" if "waker s w u" "w \<in> set (wc_threads (cv_wchan s))"
    using waker_run [OF assms(2,3)] that no_signals_waker [OF assms(4)] sleep_inv_cv [OF inv] by blast
  show "\<not> ready s w" "ready s' w" if "w \<in> set (wc_threads (cv_wchan s)) \<and> Broadcast \<in> set (todo s u)"
    using wake that by (auto simp: waker_defs)
  show "\<not> ready s w" "ready s' w" if "wc_threads (cv_wchan s) = w # ws \<and> Signal \<in> set (todo s u)"
    using wake that by (auto simp: waker_defs)
  fix s'' assume "pc s w = C_wlock" "lock_reach s' s''"
  moreover have "sleep_inv s'" using lock_reach_sleep_inv [OF lock_run_reach [OF assms(2,1)] sleep_inv_start] .
  moreover have "pc s' w = pc s w" by (rule lock_run_pc [OF assms(2,3)])
  ultimately have "stuck w s'" using assms(4) by (simp add: stuck_def)
  then show "in_wait s'' w" using stuck_reach [OF \<open>lock_reach s' s''\<close>] stuck_in_wait by blast
qed

text \<open>The two orders of \<open>wait_and_signal\<close>; with the signal first, no thread can take a step at the end.\<close>

theorem cv_signal_lost_witness:
  "(\<exists>s s'. lock_run [0, 0] half_waiting = Some s \<and> wc_threads (cv_wchan s) = [0] \<and> \<not> ready s 0 \<and>
      lock_run (replicate 20 1) s = Some s' \<and> ready s' 0) \<and>
   (\<exists>s s'. lock_run (replicate 20 1) half_waiting = Some s \<and> \<not> (\<exists>s''. lock_reach s s'' \<and> \<not> in_wait s'' 0) \<and>
      lock_run [0, 0] s = Some s' \<and> wc_threads (cv_wchan s') = [0] \<and> (\<forall>t. lock_step t s' = Blocked))"
proof -
  let ?asleep = "half_waiting\<lparr>cv_wchan := \<lparr>wc_lock = None, wc_threads = [0]\<rparr>, pc := (\<lambda>_. Idle)(0 := C_again),
    ready := (\<lambda>_. True)(0 := False)\<rparr>"
  let ?woken = "half_waiting\<lparr>pc := (\<lambda>_. Idle)(0 := C_again), todo := (\<lambda>_. [])(0 := [Release])\<rparr>"
  let ?signalled = "half_waiting\<lparr>todo := (\<lambda>_. [])(0 := [Release])\<rparr>"
  let ?final = "?asleep\<lparr>todo := (\<lambda>_. [])(0 := [Release])\<rparr>"
  have reach: "lock_reach (lock_system wait_and_signal) half_waiting"
    by (rule lock_run_reach [OF run_half_waiting lock_reach.start])
  have 1: "lock_run [0, 0] half_waiting = Some ?asleep" "lock_run [0, 0] ?signalled = Some ?final"
    by (simp_all add: half_waiting_def run_simps fun_eq_iff)
  have 2: "lock_run (replicate 20 1) ?asleep = Some ?woken" "lock_run (replicate 20 1) half_waiting = Some ?signalled"
    by (simp_all add: half_waiting_def run_simps eval_nat_numeral fun_eq_iff)
  have 3: "no_signals ?woken" "no_signals ?signalled"
    by (simp_all add: no_signals_def silent_def half_waiting_def lock_system_def lock_create_def cv_create_def)
  have "ready ?woken 0"
    using cv_signal_lost [OF lock_run_reach [OF 1(1) reach] 2(1) _ 3(1), of 0 1 "[]"] by (simp add: half_waiting_def)
  moreover have "\<not> (\<exists>s''. lock_reach ?signalled s'' \<and> \<not> in_wait s'' 0)"
    using cv_signal_lost [OF reach 2(2) _ 3(2), of 0] by (simp add: half_waiting_def)
  moreover have "\<forall>t. lock_step t ?final = Blocked" by (simp add: lock_step_def)
  ultimately show ?thesis
    using 1 2 by (intro conjI exI [of _ ?asleep] exI [of _ ?woken] exI [of _ ?signalled] exI [of _ ?final]) simp_all
qed

text \<open>
  \<open>lock_release\<close> does not check its caller: a thread that never acquired the lock can release it
  and lets a third one in while the first is still in its critical section.
\<close>

theorem lock_release_unchecked:
  "\<exists>s. lock_run (replicate 6 0 @ replicate 8 1 @ replicate 6 2)
       (lock_system ((\<lambda>_. [])(0 := [Acquire, Release], 1 := [Release], 2 := [Acquire, Release]))) = Some s \<and>
     critical s 0 \<and> critical s 2"
  by (simp add: run_simps eval_nat_numeral critical_def)

end
