(* ===== verification/Libc_Printf.thy ===== *)
theory Libc_Printf
  imports Libc_String
begin

text \<open>
  Formatted printing, \<open>src/common/libc/printf\<close>: the interpreter of format strings
  (\<open>__printf.c\<close>) and printing into a buffer (\<open>snprintf.c\<close>).

  The interpreter sends its output to a function of its client, here a function on the client's
  data that may stop (\<open>None\<close>). The argument list is a list of machine words of the two sizes and
  of strings; fetching an argument of another type than the one passed is undefined and stops.
  The types \<open>int\<close>, \<open>long\<close> and pointers have 32 bits, \<open>long long\<close> has 64.
\<close>

datatype pf_arg = Arg_word "32 word" | Arg_llong "64 word" | Arg_str "8 word list option"

datatype pf_size = INTSZ | LONGSZ | LLONGSZ

record PF =
  pf_ap :: "pf_arg list"
  charcount :: "32 word"
  in_pct :: bool
  pf_size :: pf_size
  pf_num :: "64 word"
  pf_sign :: bool
  spacing :: "32 word"
  rightspc :: bool
  fillchar :: "8 word"
  pf_base :: nat
  baseprefix :: bool
  altformat :: bool

definition NUMBER_BUF_SIZE :: nat where
  "NUMBER_BUF_SIZE = 64 div 3 + 2"

text \<open>The bytes of a string constant, without and with its terminator.\<close>

definition ascii :: "string \<Rightarrow> 8 word list" where
  "ascii s = map of_char s"

definition cconst :: "string \<Rightarrow> 8 word list" where
  "cconst s = ascii s @ [0]"

type_synonym 'c sender = "'c \<Rightarrow> 8 word list \<Rightarrow> 'c option"

section \<open>The interpreter\<close>

definition pf_print :: "'c sender \<Rightarrow> 8 word list \<Rightarrow> PF \<times> 'c \<Rightarrow> (PF \<times> 'c) option" where
  "pf_print send txt = (\<lambda>(pf, c). do {
     c \<leftarrow> send c txt;
     Some (pf\<lparr>charcount := charcount pf + of_nat (length txt)\<rparr>, c)
   })"

definition pf_endfield :: "PF \<Rightarrow> PF" where
  "pf_endfield pf = pf\<lparr>in_pct := False, pf_size := INTSZ, pf_num := 0, pf_sign := False, spacing := 0,
     rightspc := False, fillchar := of_char CHR '' '', pf_base := 0, baseprefix := False, altformat := False\<rparr>"

definition pf_modifier :: "8 word \<Rightarrow> PF \<Rightarrow> PF option" where
  "pf_modifier ch pf =
     (if ch = of_char CHR ''#'' then Some (pf\<lparr>altformat := True\<rparr>)
      else if ch = of_char CHR ''-'' then Some (pf\<lparr>rightspc := True\<rparr>)
      else if ch = of_char CHR ''l'' then
        Some (pf\<lparr>pf_size := if pf_size pf = LONGSZ then LLONGSZ else LONGSZ\<rparr>)
      else if ch = of_char CHR ''0'' then
        (if sint (spacing pf) > 0 then Some (pf\<lparr>spacing := spacing pf * 10\<rparr>)
         else Some (pf\<lparr>fillchar := of_char CHR ''0''\<rparr>))
      else if ch > of_char CHR ''0'' \<and> ch \<le> of_char CHR ''9'' then
        Some (pf\<lparr>spacing := spacing pf * 10 + ucast (ch - of_char CHR ''0'')\<rparr>)
      else None)"

text \<open>Fetching an argument with \<open>va_arg\<close>.\<close>

definition next_word :: "PF \<Rightarrow> (32 word \<times> PF) option" where
  "next_word pf = (case pf_ap pf of Arg_word w # ap \<Rightarrow> Some (w, pf\<lparr>pf_ap := ap\<rparr>) | _ \<Rightarrow> None)"

definition next_llong :: "PF \<Rightarrow> (64 word \<times> PF) option" where
  "next_llong pf = (case pf_ap pf of Arg_llong w # ap \<Rightarrow> Some (w, pf\<lparr>pf_ap := ap\<rparr>) | _ \<Rightarrow> None)"

definition next_str :: "PF \<Rightarrow> (8 word list option \<times> PF) option" where
  "next_str pf = (case pf_ap pf of Arg_str s # ap \<Rightarrow> Some (s, pf\<lparr>pf_ap := ap\<rparr>) | _ \<Rightarrow> None)"

definition pf_getnum :: "8 word \<Rightarrow> PF \<Rightarrow> PF option" where
  "pf_getnum ch pf =
     (if ch = of_char CHR ''p'' then do { (w, pf) \<leftarrow> next_word pf; Some (pf\<lparr>pf_num := ucast w\<rparr>) }
      else if ch = of_char CHR ''d'' then do {
        (signednum, pf) \<leftarrow> (case pf_size pf of
            LLONGSZ \<Rightarrow> next_llong pf
          | _ \<Rightarrow> map_option (\<lambda>(w, pf). (scast w :: 64 word, pf)) (next_word pf));
        if sint signednum < 0 then Some (pf\<lparr>pf_sign := True, pf_num := - signednum\<rparr>)
        else Some (pf\<lparr>pf_num := signednum\<rparr>)
      }
      else do {
        (w, pf) \<leftarrow> (case pf_size pf of
            LLONGSZ \<Rightarrow> next_llong pf
          | _ \<Rightarrow> map_option (\<lambda>(w, pf). (ucast w :: 64 word, pf)) (next_word pf));
        Some (pf\<lparr>pf_num := w\<rparr>)
      })"

definition pf_setbase :: "8 word \<Rightarrow> PF \<Rightarrow> PF" where
  "pf_setbase ch pf =
     (let pf = (if ch = of_char CHR ''d'' \<or> ch = of_char CHR ''u'' then pf\<lparr>pf_base := 10\<rparr>
                else if ch = of_char CHR ''x'' \<or> ch = of_char CHR ''p'' then pf\<lparr>pf_base := 16\<rparr>
                else if ch = of_char CHR ''o'' then pf\<lparr>pf_base := 8\<rparr> else pf)
      in if altformat pf \<or> ch = of_char CHR ''p'' then pf\<lparr>baseprefix := True\<rparr> else pf)"

fun fill_loop :: "'c sender \<Rightarrow> 8 word \<Rightarrow> nat \<Rightarrow> PF \<times> 'c \<Rightarrow> (PF \<times> 'c) option" where
  "fill_loop send f 0 st = Some st"
| "fill_loop send f (Suc n) st = pf_print send [f] st \<bind> fill_loop send f n"

definition pf_fill :: "'c sender \<Rightarrow> 32 word \<Rightarrow> PF \<times> 'c \<Rightarrow> (PF \<times> 'c) option" where
  "pf_fill send spc st = fill_loop send (fillchar (fst st)) (nat (sint spc)) st"

text \<open>The three texts are arrays that hold a terminator.\<close>

definition pf_printstuff :: "'c sender \<Rightarrow> 8 word list \<Rightarrow> 8 word list \<Rightarrow> 8 word list \<Rightarrow> PF \<times> 'c \<Rightarrow> (PF \<times> 'c) option" where
  "pf_printstuff send prefix prefix2 stuff st = do {
     n1 \<leftarrow> strlen prefix;
     n2 \<leftarrow> strlen prefix2;
     n3 \<leftarrow> strlen stuff;
     let len = (of_nat (n1 + n2 + n3) :: 32 word);
     let pf = fst st;
     let spc = (if sint (spacing pf) > sint len then spacing pf - len else 0);
     st \<leftarrow> (if sint spc > 0 \<and> \<not> rightspc pf \<and> fillchar pf \<noteq> of_char CHR ''0'' then pf_fill send spc st else Some st);
     st \<leftarrow> pf_print send (take n1 prefix) st;
     st \<leftarrow> pf_print send (take n2 prefix2) st;
     st \<leftarrow> (if sint spc > 0 \<and> \<not> rightspc pf \<and> fillchar pf = of_char CHR ''0'' then pf_fill send spc st else Some st);
     st \<leftarrow> pf_print send (take n3 stuff) st;
     if sint spc > 0 \<and> rightspc pf then pf_fill send spc st else Some st
   }"

text \<open>
  The loop of \<open>__pf_printnum\<close>. The pointer into the buffer is an index; it is one below the buffer
  when the number fills it. A base of 0 is a division by zero, and with base 1 the loop would not
  end.
\<close>

definition digits :: "8 word list" where
  "digits = ascii ''0123456789abcdef''"

function digit_loop :: "nat \<Rightarrow> 8 word list \<Rightarrow> int \<Rightarrow> nat \<Rightarrow> (8 word list \<times> int) option" where
  "digit_loop base buf x xnum =
     (if base < 2 \<or> x < 0 then None
      else do {
        d \<leftarrow> aget digits (xnum mod base);
        buf \<leftarrow> aset buf (nat x) d;
        if xnum div base > 0 then digit_loop base buf (x - 1) (xnum div base) else Some (buf, x - 1)
      })"
  by pat_completeness auto
termination
  by (relation "measure (\<lambda>(base, buf, x, xnum). xnum)") (auto simp: div_greater_zero_iff)

declare digit_loop.simps [simp del]

text \<open>\<open>junk\<close> is the uninitialised buffer.\<close>

definition pf_printnum :: "8 word list \<Rightarrow> 'c sender \<Rightarrow> PF \<times> 'c \<Rightarrow> (PF \<times> 'c) option" where
  "pf_printnum junk send st = do {
     let pf = fst st;
     buf \<leftarrow> aset junk (NUMBER_BUF_SIZE - 1) 0;
     (buf, x) \<leftarrow> digit_loop (pf_base pf) buf (int NUMBER_BUF_SIZE - 2) (unat (pf_num pf));
     let bprefix = (if baseprefix pf \<and> pf_base pf = 16 then cconst ''0x''
                    else if baseprefix pf \<and> pf_base pf = 8 then cconst ''0'' else cconst '''');
     let sprefix = (if pf_sign pf then cconst ''-'' else cconst '''');
     pf_printstuff send sprefix bprefix (drop (nat (x + 1)) buf) st
   }"

definition pf_send :: "8 word list \<Rightarrow> 'c sender \<Rightarrow> 8 word \<Rightarrow> PF \<times> 'c \<Rightarrow> (PF \<times> 'c) option" where
  "pf_send junk send ch = (\<lambda>(pf, c). do {
     kassert (ch \<noteq> 0);
     if \<not> in_pct pf \<and> ch \<noteq> of_char CHR ''%'' then pf_print send [ch] (pf, c)
     else if \<not> in_pct pf then Some (pf\<lparr>in_pct := True\<rparr>, c)
     else if strchr (cconst ''#-l0123456789'') ch \<noteq> Some None then map_option (\<lambda>pf. (pf, c)) (pf_modifier ch pf)
     else if strchr (cconst ''doupx'') ch \<noteq> Some None then do {
       pf \<leftarrow> pf_getnum ch pf;
       (pf, c) \<leftarrow> pf_printnum junk send (pf_setbase ch pf, c);
       Some (pf_endfield pf, c)
     }
     else if ch = of_char CHR ''s'' then do {
       (str, pf) \<leftarrow> next_str pf;
       (pf, c) \<leftarrow> pf_printstuff send (cconst '''') (cconst '''') (case str of Some s \<Rightarrow> s | None \<Rightarrow> cconst ''(null)'') (pf, c);
       Some (pf_endfield pf, c)
     }
     else do {
       (x, pf) \<leftarrow> (if ch = of_char CHR ''c'' then map_option (\<lambda>(w, pf). (ucast w, pf)) (next_word pf) else Some (ch, pf));
       (pf, c) \<leftarrow> pf_printstuff send (cconst '''') (cconst '''') [x, 0] (pf, c);
       Some (pf_endfield pf, c)
     }
   })"

fun send_loop :: "8 word list \<Rightarrow> 'c sender \<Rightarrow> 8 word list \<Rightarrow> PF \<times> 'c \<Rightarrow> (PF \<times> 'c) option" where
  "send_loop junk send [] st = None"
| "send_loop junk send (ch # format) st =
     (if ch = 0 then Some st else pf_send junk send ch st \<bind> send_loop junk send format)"

definition pf_start :: "pf_arg list \<Rightarrow> PF" where
  "pf_start ap = pf_endfield \<lparr>pf_ap = ap, charcount = 0, in_pct = False, pf_size = INTSZ, pf_num = 0, pf_sign = False,
     spacing = 0, rightspc = False, fillchar = 0, pf_base = 0, baseprefix = False, altformat = False\<rparr>"

definition vprintf :: "8 word list \<Rightarrow> 'c sender \<Rightarrow> 'c \<Rightarrow> 8 word list \<Rightarrow> pf_arg list \<Rightarrow> (32 word \<times> 'c) option" where
  "vprintf junk send clientdata format ap =
     map_option (\<lambda>(pf, c). (charcount pf, c)) (send_loop junk send format (pf_start ap, clientdata))"

section \<open>Printing into a buffer\<close>

record SNP =
  snp_buf :: "8 word list"
  buflen :: nat
  bufpos :: nat

fun snprintf_send :: "SNP \<Rightarrow> 8 word list \<Rightarrow> SNP option" where
  "snprintf_send snp [] = Some snp"
| "snprintf_send snp (d # data) =
     (if bufpos snp < buflen snp
      then do {
        buf \<leftarrow> aset (snp_buf snp) (bufpos snp) d;
        snprintf_send (snp\<lparr>snp_buf := buf, bufpos := bufpos snp + 1\<rparr>) data
      }
      else snprintf_send snp data)"

definition vsnprintf :: "8 word list \<Rightarrow> 8 word list \<Rightarrow> nat \<Rightarrow> 8 word list \<Rightarrow> pf_arg list \<Rightarrow> (32 word \<times> 8 word list) option" where
  "vsnprintf junk buf len fmt ap = do {
     let snp = \<lparr>snp_buf = buf, buflen = (if len = 0 then 0 else len - 1), bufpos = 0\<rparr>;
     (chars, snp) \<leftarrow> vprintf junk snprintf_send snp fmt ap;
     buf \<leftarrow> (if len > 0 then aset (snp_buf snp) (bufpos snp) 0 else Some (snp_buf snp));
     Some (chars, buf)
   }"

definition snprintf :: "8 word list \<Rightarrow> 8 word list \<Rightarrow> nat \<Rightarrow> 8 word list \<Rightarrow> pf_arg list \<Rightarrow> (32 word \<times> 8 word list) option" where
  "snprintf junk buf len fmt ap = vsnprintf junk buf len fmt ap"

section \<open>Clients\<close>

text \<open>The client that collects the whole output.\<close>

definition collect :: "8 word list sender" where
  "collect out txt = Some (out @ txt)"

text \<open>
  A client whose data is a function of the output so far. Every step of the interpreter for it is
  the step for the collecting client.
\<close>

locale pf_client =
  fixes send :: "'c sender" and h :: "8 word list \<Rightarrow> 'c"
  assumes send_h: "send (h out) txt = Some (h (out @ txt))"
begin

lemma print_h: "pf_print send txt (apsnd h st) = map_option (apsnd h) (pf_print collect txt st)"
  by (cases st) (simp add: pf_print_def send_h collect_def)

lemma fill_loop_h: "fill_loop send f n (apsnd h st) = map_option (apsnd h) (fill_loop collect f n st)"
  by (induction n arbitrary: st) (simp_all add: print_h Option.bind_map_option map_option_bind comp_def)

lemma fill_h: "pf_fill send spc (apsnd h st) = map_option (apsnd h) (pf_fill collect spc st)"
  by (simp add: pf_fill_def fill_loop_h)

lemma if_h: "(if b then pf_fill send spc (apsnd h st) else Some (apsnd h st)) =
    map_option (apsnd h) (if b then pf_fill collect spc st else Some st)"
  by (simp add: fill_h)

lemma printstuff_h: "pf_printstuff send p1 p2 s (apsnd h st) = map_option (apsnd h) (pf_printstuff collect p1 p2 s st)"
  unfolding pf_printstuff_def Let_def fst_apsnd if_h print_h
  by (simp only: map_option_bind Option.bind_map_option comp_def if_h print_h)

lemma printnum_h: "pf_printnum junk send (apsnd h st) = map_option (apsnd h) (pf_printnum junk collect st)"
  unfolding pf_printnum_def Let_def fst_apsnd
  by (simp only: map_option_bind comp_def case_prod_unfold printstuff_h)

lemma send_char_h: "pf_send junk send ch (apsnd h st) = map_option (apsnd h) (pf_send junk collect ch st)"
proof -
  obtain pf out where st: "st = (pf, out)" by fastforce
  have p: "pf_printstuff send p1 p2 s (pf, h out) = map_option (apsnd h) (pf_printstuff collect p1 p2 s (pf, out))"
    "pf_printnum junk send (pf, h out) = map_option (apsnd h) (pf_printnum junk collect (pf, out))"
    "pf_print send xs (pf, h out) = map_option (apsnd h) (pf_print collect xs (pf, out))" for p1 p2 s xs pf
    using printstuff_h[of p1 p2 s "(pf, out)"] printnum_h[of junk "(pf, out)"] print_h[of xs "(pf, out)"] by simp_all
  show ?thesis
    unfolding st pf_send_def apsnd_conv prod.case
    by (simp add: p map_option_bind Option.bind_map_option comp_def case_prod_unfold option.map_comp)
qed

lemma send_loop_h: "send_loop junk send fmt (apsnd h st) = map_option (apsnd h) (send_loop junk collect fmt st)"
  by (induction fmt arbitrary: st) (simp_all add: send_char_h Option.bind_map_option map_option_bind comp_def)

lemma vprintf_h: "vprintf junk send (h []) fmt ap = map_option (apsnd h) (vprintf junk collect [] fmt ap)"
  using send_loop_h[of junk fmt "(pf_start ap, [])"] by (simp add: vprintf_def option.map_comp comp_def split_beta)

end


section \<open>The output of the interpreter\<close>

text \<open>The number printed in a base, most significant digit first.\<close>

fun numeral_of :: "nat \<Rightarrow> nat \<Rightarrow> 8 word list" where
  "numeral_of base n =
     (if base < 2 then [] else (if n < base then [] else numeral_of base (n div base)) @ [digits ! (n mod base)])"

declare numeral_of.simps [simp del]

lemma length_digits [simp]: "length digits = 16"
  by (simp add: digits_def ascii_def)

lemma length_numeral_of: "2 \<le> base \<Longrightarrow> n < base ^ k \<Longrightarrow> 0 < k \<Longrightarrow> length (numeral_of base n) \<le> k"
proof (induction base n arbitrary: k rule: numeral_of.induct)
  case (1 base n)
  show ?case
  proof (cases "n < base")
    case True
    then show ?thesis using 1(2,4) by (simp add: numeral_of.simps[of base n])
  next
    case False
    then obtain j where k: "k = Suc j" "0 < j" using 1(3,4) by (cases k; cases "k = 1") auto
    have "n div base < base ^ j" using 1(2,3) k by (simp add: less_mult_imp_div_less mult.commute)
    then show ?thesis using 1 False k by (simp add: numeral_of.simps[of base n])
  qed
qed

lemma digit_loop_spec:
  "2 \<le> base \<Longrightarrow> base \<le> 16 \<Longrightarrow> length (numeral_of base n) \<le> Suc x \<Longrightarrow> x < length buf \<Longrightarrow>
   digit_loop base buf (int x) n =
     Some (take (Suc x - length (numeral_of base n)) buf @ numeral_of base n @ drop (Suc x) buf,
       int x - int (length (numeral_of base n)))"
proof (induction base n arbitrary: buf x rule: numeral_of.induct)
  case (1 base n)
  have m: "n mod base < 16" using 1(2,3) mod_less_divisor[of base n] by linarith
  show ?case
  proof (cases "n < base")
    case True
    then show ?thesis using 1(2,3,5) m
      by (simp add: numeral_of.simps[of base n] digit_loop.simps[of base buf] upd_conv_take_nth_drop)
  next
    case False
    let ?d = "digits ! (n mod base)" and ?xs = "numeral_of base (n div base)"
    obtain y where x: "x = Suc y" "length ?xs \<le> Suc y"
      using 1(2,4) False by (cases x) (auto simp: numeral_of.simps[of base n] numeral_of.simps[of base "n div base"] split: if_splits)
    have "digit_loop base buf (int x) n = digit_loop base (buf[x := ?d]) (int y) (n div base)"
      using False 1(2,5) m x(1) nat_int[of "Suc y"] by (simp add: digit_loop.simps[of base buf] div_greater_zero_iff)
    also have "\<dots> = Some (take (Suc y - length ?xs) (buf[x := ?d]) @ ?xs @ drop (Suc y) (buf[x := ?d]), int y - int (length ?xs))"
      using 1(1)[of y "buf[x := ?d]"] 1(2,3,5) False x by auto
    also have "drop (Suc y) (buf[x := ?d]) = ?d # drop (Suc x) buf"
      using 1(5) x(1) by (simp add: upd_conv_take_nth_drop)
    finally show ?thesis using False 1(2) x by (simp add: numeral_of.simps[of base n])
  qed
qed

text \<open>The buffer of \<open>__pf_printnum\<close> is large enough for every number in the bases 8, 10 and 16.\<close>

lemma printnum_spec:
  assumes "length junk = NUMBER_BUF_SIZE" "pf_base (fst st) \<in> {8, 10, 16}"
  shows "pf_printnum junk send st = pf_printstuff send (cconst (if pf_sign (fst st) then ''-'' else ''''))
    (cconst (if baseprefix (fst st) \<and> pf_base (fst st) = 16 then ''0x'' else if baseprefix (fst st) \<and> pf_base (fst st) = 8 then ''0'' else ''''))
    (numeral_of (pf_base (fst st)) (unat (pf_num (fst st))) @ [0]) st"
proof -
  let ?b = "pf_base (fst st)" and ?n = "unat (pf_num (fst st))"
  let ?ds = "numeral_of ?b ?n"
  have "?n < 8 ^ 22" using unsigned_less[where 'a = nat and 'b = 64, of "pf_num (fst st)"] by simp
  also have "(8::nat) ^ 22 \<le> ?b ^ 22" using assms(2) by (intro power_mono) auto
  finally have l: "length ?ds \<le> 22" using length_numeral_of[of ?b ?n 22] assms(2) by auto
  have "digit_loop ?b (junk[22 := 0]) 21 ?n = Some (take (22 - length ?ds) (junk[22 := 0]) @ ?ds @ [0], 21 - int (length ?ds))"
    using digit_loop_spec[of ?b ?n 21 "junk[22 := 0]"] l assms
    by (auto simp: NUMBER_BUF_SIZE_def drop_update_swap Cons_nth_drop_Suc[symmetric])
  then show ?thesis
    using assms(1) l by (simp add: pf_printnum_def Let_def NUMBER_BUF_SIZE_def nat_diff_distrib')
qed

text \<open>The steps that send output return, count what they send, and keep the arguments.\<close>

definition sent :: "PF \<times> 8 word list \<Rightarrow> (PF \<times> 8 word list) option \<Rightarrow> bool" where
  "sent st r \<longleftrightarrow> (\<exists>pf txt. r = Some (pf, snd st @ txt) \<and> pf = (fst st)\<lparr>charcount := charcount (fst st) + of_nat (length txt)\<rparr>)"

lemma sent_print: "sent st (pf_print collect txt st)"
  by (auto simp: sent_def pf_print_def collect_def split: prod.splits)

lemma sent_refl: "sent st (Some st)"
  by (cases st) (auto simp: sent_def intro!: exI[of _ "[]"])

lemma sent_bind:
  assumes "sent st r" "\<And>st'. sent st' (f st')"
  shows "sent st (r \<bind> f)"
proof -
  obtain xs where r: "r = Some ((fst st)\<lparr>charcount := charcount (fst st) + of_nat (length xs)\<rparr>, snd st @ xs)"
    using assms(1) by (auto simp: sent_def)
  show ?thesis
    using assms(2)[of "the r"] unfolding r sent_def by (auto simp: algebra_simps)
qed

lemma sent_fill: "sent st (pf_fill collect spc st)"
proof -
  have "sent st (fill_loop collect f n st)" for f n
    by (induction n arbitrary: st) (auto intro: sent_refl sent_bind sent_print)
  then show ?thesis by (simp add: pf_fill_def)
qed

lemma sent_fill_if: "sent st (if b then pf_fill collect spc st else Some st)"
  by (simp add: sent_fill sent_refl)

lemma sent_printstuff: "0 \<in> set p1 \<Longrightarrow> 0 \<in> set p2 \<Longrightarrow> 0 \<in> set s \<Longrightarrow> sent st (pf_printstuff collect p1 p2 s st)"
  unfolding pf_printstuff_def Let_def strlen_cstr Option.bind.bind_lunit
  by (intro sent_bind sent_print sent_fill_if)

lemma zero_cconst [simp]: "0 \<in> set (cconst s)"
  by (simp add: cconst_def)

lemma sent_printnum: "length junk = NUMBER_BUF_SIZE \<Longrightarrow> pf_base (fst st) \<in> {8, 10, 16} \<Longrightarrow> sent st (pf_printnum junk collect st)"
  unfolding printnum_spec by (rule sent_printstuff) auto

text \<open>The formats and argument lists that go together, given the state of the interpreter.\<close>

fun args_ok :: "bool \<Rightarrow> pf_size \<Rightarrow> 8 word list \<Rightarrow> pf_arg list \<Rightarrow> bool" where
  "args_ok pct sz [] ap = False"
| "args_ok pct sz (ch # fmt) ap =
     (if ch = 0 then True
      else if \<not> pct then args_ok (ch = of_char CHR ''%'') INTSZ fmt ap
      else if ch = of_char CHR ''l'' then args_ok True (if sz = LONGSZ then LLONGSZ else LONGSZ) fmt ap
      else if ch \<in> set (ascii ''#-0123456789'') then args_ok True sz fmt ap
      else if ch \<in> set (ascii ''doux'') then
        (case ap of
           Arg_word w # ap \<Rightarrow> sz \<noteq> LLONGSZ \<and> args_ok False INTSZ fmt ap
         | Arg_llong w # ap \<Rightarrow> sz = LLONGSZ \<and> args_ok False INTSZ fmt ap
         | _ \<Rightarrow> False)
      else if ch = of_char CHR ''p'' \<or> ch = of_char CHR ''c'' then
        (case ap of Arg_word w # ap \<Rightarrow> args_ok False INTSZ fmt ap | _ \<Rightarrow> False)
      else if ch = of_char CHR ''s'' then
        (case ap of
           Arg_str s # ap \<Rightarrow> (case s of Some s \<Rightarrow> 0 \<in> set s | None \<Rightarrow> True) \<and> args_ok False INTSZ fmt ap
         | _ \<Rightarrow> False)
      else args_ok False INTSZ fmt ap)"

definition counted :: "PF \<times> 8 word list \<Rightarrow> bool" where
  "counted st \<longleftrightarrow> charcount (fst st) = of_nat (length (snd st)) \<and> (\<not> in_pct (fst st) \<longrightarrow> pf_size (fst st) = INTSZ)"

lemma sent_counted: "sent st r \<Longrightarrow> charcount (fst st) = of_nat (length (snd st)) \<Longrightarrow>
    \<exists>pf out. r = Some (pf, out) \<and> charcount pf = of_nat (length out) \<and> pf_ap pf = pf_ap (fst st) \<and>
      in_pct pf = in_pct (fst st) \<and> pf_size pf = pf_size (fst st)"
  by (auto simp: sent_def)

lemma in_const: "ch \<noteq> 0 \<Longrightarrow> 0 \<notin> set (ascii s) \<Longrightarrow> strchr (cconst s) ch \<noteq> Some None \<longleftrightarrow> ch \<in> set (ascii s)"
  using is_sep_iff[of ch "ascii s"] by (simp add: is_sep_def cconst_def)

lemma endfield_sel [simp]: "charcount (pf_endfield pf) = charcount pf" "pf_ap (pf_endfield pf) = pf_ap pf"
  "in_pct (pf_endfield pf) = False" "pf_size (pf_endfield pf) = INTSZ"
  by (simp_all add: pf_endfield_def)

lemma setbase_sel [simp]: "charcount (pf_setbase ch pf) = charcount pf" "pf_ap (pf_setbase ch pf) = pf_ap pf"
  "in_pct (pf_setbase ch pf) = in_pct pf" "pf_size (pf_setbase ch pf) = pf_size pf"
  by (simp_all add: pf_setbase_def Let_def)

text \<open>One character of the format.\<close>

definition step_ok :: "8 word list \<Rightarrow> (PF \<times> 8 word list) option \<Rightarrow> bool" where
  "step_ok fmt r \<longleftrightarrow> (\<exists>st. r = Some st \<and> counted st \<and> args_ok (in_pct (fst st)) (pf_size (fst st)) fmt (pf_ap (fst st)))"

lemma step_field:
  assumes "sent st r" "charcount (fst st) = of_nat (length (snd st))" "args_ok False INTSZ fmt (pf_ap (fst st))"
  shows "step_ok fmt (r \<bind> (\<lambda>(pf, c). Some (pf_endfield pf, c)))"
  using sent_counted[OF assms(1,2)] assms(3) by (auto simp: step_ok_def counted_def)

lemma pf_modifier_ok:
  assumes "ch = of_char CHR ''l'' \<or> ch \<in> set (ascii ''#-0123456789'')"
  shows "\<exists>pf'. pf_modifier ch pf = Some pf' \<and> charcount pf' = charcount pf \<and> pf_ap pf' = pf_ap pf \<and> in_pct pf' = in_pct pf \<and>
    pf_size pf' = (if ch = of_char CHR ''l'' then if pf_size pf = LONGSZ then LLONGSZ else LONGSZ else pf_size pf)"
  using assms by (auto simp: ascii_def pf_modifier_def)

lemma pf_getnum_ok:
  assumes "ch \<in> set (ascii ''doupx'')" "args_ok True (pf_size pf) (ch # fmt) (pf_ap pf)"
  shows "\<exists>pf'. pf_getnum ch pf = Some pf' \<and> charcount pf' = charcount pf \<and> args_ok False INTSZ fmt (pf_ap pf')"
  using assms by (cases "pf_size pf")
    (auto simp: ascii_def pf_getnum_def next_word_def next_llong_def split: list.splits pf_arg.splits)

lemma field_num:
  assumes j: "length junk = NUMBER_BUF_SIZE" and c: "charcount pf = of_nat (length out)"
    and ch: "ch \<in> set (ascii ''doupx'')" and g: "pf_getnum ch pf = Some pf'" "charcount pf' = charcount pf"
    and a: "args_ok False INTSZ fmt (pf_ap pf')"
  shows "step_ok fmt (pf_getnum ch pf \<bind> (\<lambda>pf. pf_printnum junk collect (pf_setbase ch pf, out) \<bind>
    (\<lambda>(pf, c). Some (pf_endfield pf, c))))"
proof -
  have "pf_base (pf_setbase ch pf') \<in> {8, 10, 16}" using ch by (auto simp: ascii_def pf_setbase_def)
  then have "sent (pf_setbase ch pf', out) (pf_printnum junk collect (pf_setbase ch pf', out))"
    by (intro sent_printnum[OF j]) simp
  then show ?thesis using step_field[of "(pf_setbase ch pf', out)" _ fmt] g c a by simp
qed

lemma field_str:
  assumes "charcount pf = of_nat (length out)" "0 \<in> set s" "args_ok False INTSZ fmt (pf_ap pf)"
  shows "step_ok fmt (pf_printstuff collect (cconst '''') (cconst '''') s (pf, out) \<bind> (\<lambda>(pf, c). Some (pf_endfield pf, c)))"
  using step_field[OF sent_printstuff[of "cconst ''''" "cconst ''''" s "(pf, out)"]] assms by simp

lemma send_step_ok:
  assumes j: "length junk = NUMBER_BUF_SIZE" and c: "counted (pf, out)" and ch: "ch \<noteq> 0"
    and a: "args_ok (in_pct pf) (pf_size pf) (ch # fmt) (pf_ap pf)"
  shows "step_ok fmt (pf_send junk collect ch (pf, out))"
proof -
  have z: "0 \<notin> set (ascii ''#-l0123456789'')" "0 \<notin> set (ascii ''doupx'')" by (simp_all add: ascii_def)
  note in' = in_const[OF ch z(1)] in_const[OF ch z(2)]
  have sets: "ch \<in> set (ascii ''#-l0123456789'') \<longleftrightarrow> ch = of_char CHR ''l'' \<or> ch \<in> set (ascii ''#-0123456789'')"
    "ch \<in> set (ascii ''doupx'') \<longleftrightarrow> ch = of_char CHR ''p'' \<or> ch \<in> set (ascii ''doux'')"
    by (auto simp: ascii_def)
  have cc: "charcount pf = of_nat (length out)" using c by (simp add: counted_def)
  consider "\<not> in_pct pf" | "in_pct pf" "ch \<in> set (ascii ''#-l0123456789'')"
    | "in_pct pf" "ch \<notin> set (ascii ''#-l0123456789'')" "ch \<in> set (ascii ''doupx'')"
    | "in_pct pf" "ch \<notin> set (ascii ''#-l0123456789'')" "ch \<notin> set (ascii ''doupx'')" by blast
  then show ?thesis
  proof cases
    case 1
    then show ?thesis using a ch c
      by (auto simp: pf_send_def step_ok_def counted_def pf_print_def collect_def)
  next
    case 2
    then show ?thesis using a ch c pf_modifier_ok[of ch pf] in'(1) sets(1)
      by (auto simp: pf_send_def step_ok_def counted_def split: if_splits)
  next
    case 3
    obtain pf' where "pf_getnum ch pf = Some pf'" "charcount pf' = charcount pf" "args_ok False INTSZ fmt (pf_ap pf')"
      using pf_getnum_ok[OF 3(3)] a 3(1) by (metis (full_types))
    then show ?thesis using 3 ch in' field_num[OF j cc 3(3)] by (simp add: pf_send_def)
  next
    case 4
    then show ?thesis using a ch in' sets field_str[OF cc] field_str[of "pf\<lparr>pf_ap := tl (pf_ap pf)\<rparr>"] cc
      by (auto simp: pf_send_def next_word_def next_str_def split: list.splits pf_arg.splits if_splits option.splits)
  qed
qed

lemma send_loop_ok:
  "length junk = NUMBER_BUF_SIZE \<Longrightarrow> counted st \<Longrightarrow> args_ok (in_pct (fst st)) (pf_size (fst st)) fmt (pf_ap (fst st)) \<Longrightarrow>
   \<exists>st'. send_loop junk collect fmt st = Some st' \<and> counted st'"
proof (induction fmt arbitrary: st)
  case (Cons ch fmt)
  show ?case
  proof (cases "ch = 0")
    case False
    then obtain st' where "pf_send junk collect ch st = Some st'" "counted st'"
      "args_ok (in_pct (fst st')) (pf_size (fst st')) fmt (pf_ap (fst st'))"
      using send_step_ok[of junk "fst st" "snd st" ch fmt] Cons.prems by (auto simp: step_ok_def simp del: args_ok.simps)
    then show ?thesis using Cons.IH[of st'] Cons.prems(1) False by simp
  qed (use Cons.prems in simp)
qed simp

lemma vprintf_ok:
  assumes "length junk = NUMBER_BUF_SIZE" "args_ok False INTSZ fmt ap"
  shows "\<exists>out. vprintf junk collect [] fmt ap = Some (of_nat (length out), out)"
  using send_loop_ok[OF assms(1), of "(pf_start ap, [])" fmt] assms(2)
  by (auto simp: vprintf_def counted_def pf_start_def)

section \<open>Printing into a buffer\<close>

text \<open>The data of the client \<open>snprintf\<close> after some output.\<close>

definition snp_of :: "8 word list \<Rightarrow> nat \<Rightarrow> 8 word list \<Rightarrow> SNP" where
  "snp_of buf n out = (let m = min n (length buf); k = min (length out) m in
     \<lparr>snp_buf = take k out @ drop k buf, buflen = m, bufpos = k\<rparr>)"

lemma snprintf_send_snp: "snprintf_send (snp_of buf n out) xs = Some (snp_of buf n (out @ xs))"
proof (induction xs arbitrary: out)
  case (Cons x xs)
  have "snprintf_send (snp_of buf n out) (x # xs) = snprintf_send (snp_of buf n (out @ [x])) xs"
  proof (cases "length out < min n (length buf)")
    case True
    then have "(out @ drop (length out) buf)[length out := x] = (out @ [x]) @ drop (Suc (length out)) buf"
      by (simp add: list_update_append Cons_nth_drop_Suc[symmetric])
    then show ?thesis using True by (simp add: snp_of_def Let_def)
  qed (simp add: snp_of_def Let_def min_def)
  then show ?case using Cons.IH[of "out @ [x]"] by simp
qed simp

interpretation snp: pf_client snprintf_send "snp_of buf n" for buf n
  by unfold_locales (rule snprintf_send_snp)

lemma vsnprintf_out:
  assumes "len \<le> length buf" and o: "vprintf junk collect [] fmt ap = Some (chars, out)"
  shows "vsnprintf junk buf len fmt ap = Some (chars,
      if len = 0 then buf else take (len - 1) out @ [0] @ drop (Suc (min (length out) (len - 1))) buf)"
proof -
  have s: "snp_of buf (len - 1) [] = \<lparr>snp_buf = buf, buflen = (if len = 0 then 0 else len - 1), bufpos = 0\<rparr>"
    using assms(1) by (simp add: snp_of_def)
  have m: "min (len - 1) (length buf) = len - 1" using assms(1) by simp
  define k where "k = min (length out) (len - 1)"
  have o': "snp_of buf (len - 1) out = \<lparr>snp_buf = take k out @ drop k buf, buflen = len - 1, bufpos = k\<rparr>"
    by (simp only: snp_of_def Let_def k_def m)
  have a: "aset (take k out @ drop k buf) k 0 = Some (take (len - 1) out @ [0] @ drop (Suc k) buf)" if "0 < len"
    using that assms(1) by (auto simp: k_def min_def list_update_append Cons_nth_drop_Suc[symmetric])
  have v: "vprintf junk snprintf_send \<lparr>snp_buf = buf, buflen = (if len = 0 then 0 else len - 1), bufpos = 0\<rparr> fmt ap =
      Some (chars, \<lparr>snp_buf = take k out @ drop k buf, buflen = len - 1, bufpos = k\<rparr>)"
    unfolding s[symmetric] snp.vprintf_h o by (simp only: option.map apsnd_conv o')
  show ?thesis
    unfolding vsnprintf_def Let_def v k_def[symmetric] using a by (cases "len = 0") (auto simp: k_def)
qed

text \<open>
  C6: \<open>vsnprintf\<close> never writes outside the first \<open>len\<close> bytes of the buffer. For every format
  string and every argument list that fits it, it returns; with \<open>out\<close> the complete output, the
  result is the length of \<open>out\<close>, and the buffer holds as much of \<open>out\<close> as fits, a terminator, and
  its old contents behind it. With a length of zero nothing is written. No assertion of the
  interpreter fails, and its buffer for numbers is always large enough.
\<close>

theorem vsnprintf_correct:
  assumes "len \<le> length buf" "length junk = NUMBER_BUF_SIZE" "args_ok False INTSZ fmt ap"
  shows "\<exists>out. vprintf junk collect [] fmt ap = Some (of_nat (length out), out) \<and>
    vsnprintf junk buf len fmt ap = Some (of_nat (length out),
      if len = 0 then buf else take (len - 1) out @ [0] @ drop (Suc (min (length out) (len - 1))) buf)"
  using vprintf_ok[OF assms(2,3)] vsnprintf_out[OF assms(1)] by blast

theorem vsnprintf_correct_witness:
  "vsnprintf (replicate 23 0) (replicate 6 1) 5 (cconst ''n=%d'') [Arg_word (- 12)] = Some (5, ascii ''n=-1'' @ [0, 1])"
proof -
  have v: "vprintf (replicate 23 0) collect [] (cconst ''n=%d'') [Arg_word (- 12)] = Some (5, ascii ''n=-12'')"
    by code_simp
  have "args_ok False INTSZ (cconst ''n=%d'') [Arg_word (- 12)]" by (simp add: cconst_def ascii_def)
  then show ?thesis
    using vsnprintf_correct[of 5 "replicate 6 1" "replicate 23 0" "cconst ''n=%d''" "[Arg_word (- 12)]"] v
    by (simp add: NUMBER_BUF_SIZE_def ascii_def)
qed

section \<open>Printing and reading numbers\<close>

lemma printstuff_plain:
  assumes "spacing pf = 0" "length a + length b + length c < 2 ^ 31" "0 \<notin> set (a @ b @ c)"
  shows "\<exists>pf'. pf_printstuff collect (a @ [0]) (b @ [0]) (c @ [0]) (pf, out) = Some (pf', out @ a @ b @ c)"
proof -
  have t: "strlen (xs @ [0]) = Some (length xs)" if "0 \<notin> set xs" for xs :: "8 word list"
    using that by (induction xs) auto
  have "sint (of_nat (length a + length b + length c) :: 32 word) = int (length a + length b + length c)"
    using assms(2) by (simp only: signed_of_nat) (simp add: signed_take_bit_int_eq_self)
  then show ?thesis using assms(1,3) by (simp add: pf_printstuff_def Let_def t pf_print_def collect_def)
qed

lemma digit_cases: "(k :: nat) < 10 \<Longrightarrow> k \<in> {0, 1, 2, 3, 4, 5, 6, 7, 8, 9}"
  by auto

lemma digit_char: "k < 10 \<Longrightarrow> digits ! k \<in> {48..57}"
  by (drule digit_cases) (auto simp: digits_def ascii_def)

lemma digit_strchr: "k < 10 \<Longrightarrow> strchr (map of_nat [48..<58] @ [0]) (digits ! k) = Some (Some k)"
  by (drule digit_cases) (auto simp: digits_def ascii_def upt_rec)

lemma atoi_digit: "k < 10 \<Longrightarrow> atoi_digits (digits ! k # ys) val = atoi_digits ys (val * 10 + of_nat k)"
proof -
  assume k: "k < 10"
  have "digits ! k \<noteq> 0" using digit_char[OF k] by auto
  then show ?thesis by (simp only: atoi_digits.simps digit_strchr[OF k] if_False option.case)
qed

lemma atoi_numeral: "atoi_digits (numeral_of 10 n @ ys) 0 = atoi_digits ys (of_nat n)"
proof (induction n arbitrary: ys rule: less_induct)
  case (less n)
  show ?case
  proof (cases "n < 10")
    case False
    have "of_nat (n div 10) * 10 + of_nat (n mod 10) = (of_nat n :: 32 word)"
      by (metis div_mult_mod_eq of_nat_add of_nat_mult of_nat_numeral)
    then show ?thesis using less[of "n div 10" "digits ! (n mod 10) # ys"] False
      by (simp add: numeral_of.simps[of 10 n] atoi_digit del: atoi_digits.simps)
  qed (simp add: numeral_of.simps[of 10 n] atoi_digit del: atoi_digits.simps)
qed

lemma numeral_chars: "c \<in> set (numeral_of 10 n) \<Longrightarrow> c \<noteq> 0 \<and> c \<noteq> 32 \<and> c \<noteq> 9 \<and> c \<noteq> 45 \<and> c \<noteq> 43"
proof (induction n rule: less_induct)
  case (less n)
  have "digits ! (n mod 10) \<in> {48..57}" by (rule digit_char) simp
  then show ?case using less.IH[of "n div 10"] less.prems by (auto simp: numeral_of.simps[of 10 n] split: if_splits)
qed

text \<open>What \<open>%d\<close> prints.\<close>

definition decimal :: "int \<Rightarrow> 8 word list" where
  "decimal i = (if i < 0 then ascii ''-'' else []) @ numeral_of 10 (nat \<bar>i\<bar>)"

lemma atoi_decimal:
  assumes "- (2 ^ 31) \<le> i" "i < 2 ^ 31"
  shows "atoi (decimal i @ 0 # ys) = Some i"
proof -
  obtain c cs where n: "numeral_of 10 (nat \<bar>i\<bar>) = c # cs"
    by (cases "numeral_of 10 (nat \<bar>i\<bar>)") (auto simp: numeral_of.simps[of 10])
  have c: "c \<noteq> 0 \<and> c \<noteq> 32 \<and> c \<noteq> 9 \<and> c \<noteq> 45 \<and> c \<noteq> 43" using numeral_chars[of c "nat \<bar>i\<bar>"] n by simp
  have d: "atoi_digits (c # cs @ 0 # ys) 0 = Some (of_nat (nat \<bar>i\<bar>))"
    using atoi_numeral[of "nat \<bar>i\<bar>" "0 # ys"] unfolding n by (simp del: atoi_digits.simps(2) add: atoi_digits.simps(2)[of 0])
  have w: "(if i < 0 then - of_nat (nat \<bar>i\<bar>) else of_nat (nat \<bar>i\<bar>)) = (word_of_int i :: 32 word)"
    by (simp add: abs_if)
  have "sint (word_of_int i :: 32 word) = i"
    using assms by (simp only: signed_of_int) (simp add: signed_take_bit_int_eq_self)
  moreover have "decimal i = (if i < 0 then [45] else []) @ c # cs" unfolding decimal_def n by (simp add: ascii_def)
  ultimately show ?thesis
    using c d w by (cases "i < 0") (simp_all add: atoi_def skip_while.simps[of _ _ 0] del: atoi_digits.simps of_nat_nat)
qed

lemma vprintf_decimal:
  assumes j: "length junk = NUMBER_BUF_SIZE"
  shows "\<exists>chars. vprintf junk collect [] (cconst ''%d'') [Arg_word w] = Some (chars, decimal (sint w))"
proof -
  define pf where "pf = (pf_start [Arg_word w])\<lparr>in_pct := True\<rparr>"
  define v where "v = (scast w :: 64 word)"
  define pf' where "pf' = pf\<lparr>pf_ap := [], pf_sign := sint v < 0, pf_num := (if sint v < 0 then - v else v), pf_base := 10\<rparr>"
  have g: "map_option (pf_setbase (of_char CHR ''d'')) (pf_getnum (of_char CHR ''d'') pf) = Some pf'"
    by (simp add: pf'_def pf_def pf_start_def pf_endfield_def pf_getnum_def next_word_def v_def pf_setbase_def)
  have i: "sint v = sint w" unfolding v_def by (rule sint_up_scast) (simp add: is_up)
  have b: "- (2 ^ 31) \<le> sint w" "sint w < 2 ^ 31" using sint_greater_eq[of w] sint_lt[of w] by simp_all
  have "pf_num pf' = word_of_int \<bar>sint w\<bar>" unfolding pf'_def using i by (auto simp: abs_if i[symmetric])
  then have n: "unat (pf_num pf') = nat \<bar>sint w\<bar>"
    using b by (simp add: unsigned_of_int take_bit_int_eq_self)
  have l: "length (numeral_of 10 (nat \<bar>sint w\<bar>)) \<le> 10" using b by (intro length_numeral_of) auto
  have z: "0 \<notin> set (numeral_of 10 (nat \<bar>sint w\<bar>))" using numeral_chars by blast
  have s: "pf_base pf' = 10" "pf_sign pf' = (sint w < 0)" "spacing pf' = 0"
    unfolding pf'_def pf_def by (simp_all add: i pf_start_def pf_endfield_def)
  obtain p where p: "pf_printnum junk collect (pf', []) = Some (p, decimal (sint w))"
    using printstuff_plain[OF s(3), of "ascii (if sint w < 0 then ''-'' else [])" "[]" "numeral_of 10 (nat \<bar>sint w\<bar>)" "[]"] l z s(1,2)
    by (auto simp: printnum_spec[OF j] n cconst_def ascii_def decimal_def split: if_splits)
  obtain q where q: "pf_getnum 100 pf = Some q" "pf_setbase 100 q = pf'" using g by auto
  have "in_pct pf" "pf_start [Arg_word w]\<lparr>in_pct := True\<rparr> = pf" "\<not> in_pct (pf_start [Arg_word w])"
    by (simp_all add: pf_def pf_start_def pf_endfield_def)
  then show ?thesis using p q by (simp add: vprintf_def cconst_def ascii_def pf_send_def)
qed

text \<open>
  C24: Printing and reading numbers: for every 32-bit number, \<open>snprintf\<close> with the format \<open>%d\<close> into a
  buffer of at least 12 bytes leaves a string that \<open>atoi\<close> reads as the same number.
\<close>


theorem snprintf_atoi:
  assumes "12 \<le> len" "len \<le> length buf" "length junk = NUMBER_BUF_SIZE"
  shows "\<exists>n buf'. snprintf junk buf len (cconst ''%d'') [Arg_word w] = Some (n, buf') \<and> atoi buf' = Some (sint w)"
proof -
  have b: "- (2 ^ 31) \<le> sint w" "sint w < 2 ^ 31" using sint_greater_eq[of w] sint_lt[of w] by simp_all
  have "length (numeral_of 10 (nat \<bar>sint w\<bar>)) \<le> 10" using b by (intro length_numeral_of) auto
  then have l: "length (decimal (sint w)) \<le> len - 1"
    using assms(1) by (cases "sint w < 0") (auto simp: decimal_def ascii_def)
  obtain chars where v: "vprintf junk collect [] (cconst ''%d'') [Arg_word w] = Some (chars, decimal (sint w))"
    using vprintf_decimal[OF assms(3), of w] by blast
  show ?thesis
    using vsnprintf_out[OF assms(2) v] l assms(1) atoi_decimal[OF b] by (simp add: snprintf_def)
qed

theorem snprintf_atoi_witness:
  "\<exists>n buf'. snprintf (replicate 23 0) (replicate 12 7) 12 (cconst ''%d'') [Arg_word (- 5)] = Some (n, buf') \<and> atoi buf' = Some (- 5)"
  using snprintf_atoi[of 12 "replicate 12 7" "replicate 23 0" "- 5"] by (simp add: NUMBER_BUF_SIZE_def)

end
