(* ===== verification/Milli_Arith.thy ===== *)
theory Milli_Arith
  imports Os_Prelude
begin

text \<open>
  The 64-bit arithmetic that the compiler calls on this 32-bit machine,
  \<open>src/common/gcc-millicode\<close>, except division: addition, subtraction, negation, multiplication,
  shifts, comparisons and the bitwise operations. The union of a 64-bit value and two 32-bit
  halves is given by \<open>hi\<close>, \<open>lo\<close> and \<open>join\<close>; shifting by the width of the type or more is undefined
  in C and a shift of the parts is only used below that width.
\<close>

definition hi :: "64 word \<Rightarrow> 32 word" where
  "hi a = ucast (drop_bit 32 a)"

definition lo :: "64 word \<Rightarrow> 32 word" where
  "lo a = ucast a"

definition join :: "32 word \<Rightarrow> 32 word \<Rightarrow> 64 word" where
  "join h l = push_bit 32 (ucast h) OR ucast l"

definition INT_BITS :: nat where
  "INT_BITS = 32"

definition HHALF :: "32 word \<Rightarrow> 32 word" where
  "HHALF x = drop_bit 16 x"

definition LHALF :: "32 word \<Rightarrow> 32 word" where
  "LHALF x = x AND 0xffff"

definition LHUP :: "32 word \<Rightarrow> 32 word" where
  "LHUP x = push_bit 16 x"

abbreviation flag :: "bool \<Rightarrow> 32 word" where
  "flag b \<equiv> (if b then 1 else 0)"

section \<open>Operations\<close>

definition adddi3 :: "64 word \<Rightarrow> 64 word \<Rightarrow> 64 word" where
  "adddi3 a b = (let l = lo a + lo b in join (hi a + hi b + flag (l < lo b)) l)"

definition subdi3 :: "64 word \<Rightarrow> 64 word \<Rightarrow> 64 word" where
  "subdi3 a b = (let l = lo a - lo b in join (hi a - hi b - flag (l > lo a)) l)"

definition negdi2 :: "64 word \<Rightarrow> 64 word" where
  "negdi2 a = (let l = - lo a in join (- hi a - flag (l > 0)) l)"

definition anddi3 :: "64 word \<Rightarrow> 64 word \<Rightarrow> 64 word" where
  "anddi3 a b = join (hi a AND hi b) (lo a AND lo b)"

definition iordi3 :: "64 word \<Rightarrow> 64 word \<Rightarrow> 64 word" where
  "iordi3 a b = join (hi a OR hi b) (lo a OR lo b)"

definition xordi3 :: "64 word \<Rightarrow> 64 word \<Rightarrow> 64 word" where
  "xordi3 a b = join (hi a XOR hi b) (lo a XOR lo b)"

definition one_cmpldi2 :: "64 word \<Rightarrow> 64 word" where
  "one_cmpldi2 a = join (NOT (hi a)) (NOT (lo a))"

definition ashldi3 :: "64 word \<Rightarrow> nat \<Rightarrow> 64 word" where
  "ashldi3 a shift =
     (if shift = 0 then a
      else if shift \<ge> INT_BITS then join (push_bit (shift - INT_BITS) (lo a)) 0
      else join (push_bit shift (hi a) OR drop_bit (INT_BITS - shift) (lo a)) (push_bit shift (lo a)))"

definition lshldi3 :: "64 word \<Rightarrow> nat \<Rightarrow> 64 word" where
  "lshldi3 a shift =
     (if shift = 0 then a
      else if shift \<ge> INT_BITS then join (push_bit (shift - INT_BITS) (lo a)) 0
      else join (push_bit shift (hi a) OR drop_bit (INT_BITS - shift) (lo a)) (push_bit shift (lo a)))"

definition lshrdi3 :: "64 word \<Rightarrow> nat \<Rightarrow> 64 word" where
  "lshrdi3 a shift =
     (if shift = 0 then a
      else if shift \<ge> INT_BITS then join 0 (drop_bit (shift - INT_BITS) (hi a))
      else join (drop_bit shift (hi a)) (drop_bit shift (lo a) OR push_bit (INT_BITS - shift) (hi a)))"

text \<open>Shifting a signed integer to the right copies its sign, as on this machine.\<close>

definition ashrdi3 :: "64 word \<Rightarrow> nat \<Rightarrow> 64 word" where
  "ashrdi3 a shift =
     (if shift = 0 then a
      else if shift \<ge> INT_BITS then
        join (signed_drop_bit 1 (signed_drop_bit (INT_BITS - 1) (hi a))) (signed_drop_bit (shift - INT_BITS) (hi a))
      else join (signed_drop_bit shift (hi a)) (drop_bit shift (lo a) OR push_bit (INT_BITS - shift) (hi a)))"

definition cmpdi2 :: "64 word \<Rightarrow> 64 word \<Rightarrow> int" where
  "cmpdi2 a b =
     (if sint (hi a) < sint (hi b) then 0 else if sint (hi a) > sint (hi b) then 2
      else if lo a < lo b then 0 else if lo a > lo b then 2 else 1)"

definition ucmpdi2 :: "64 word \<Rightarrow> 64 word \<Rightarrow> int" where
  "ucmpdi2 a b =
     (if hi a < hi b then 0 else if hi a > hi b then 2
      else if lo a < lo b then 0 else if lo a > lo b then 2 else 1)"

definition lmulq :: "32 word \<Rightarrow> 32 word \<Rightarrow> 64 word" where
  "lmulq u v =
     (let u1 = HHALF u; u0 = LHALF u; v1 = HHALF v; v0 = LHALF v; low = u0 * v0 in
      if u1 = 0 \<and> v1 = 0 then ucast low
      else
        let (udiff, neg) = (if u1 \<ge> u0 then (u1 - u0, False) else (u0 - u1, True));
            (vdiff, neg) = (if v0 \<ge> v1 then (v0 - v1, neg) else (v1 - v0, \<not> neg));
            mid = udiff * vdiff;
            high = u1 * v1;
            prodh = high + HHALF high;
            prodl = LHUP high;
            was = prodl;
            (prodl, prodh) = (if neg
              then let prodl = prodl - LHUP mid in (prodl, prodh - (HHALF mid + flag (prodl > was)))
              else let prodl = prodl + LHUP mid in (prodl, prodh + (HHALF mid + flag (prodl < was))));
            was = prodl;
            prodl = prodl + LHUP low;
            prodh = prodh + (HHALF low + flag (prodl < was));
            prodl = prodl + low;
            prodh = (if prodl < low then prodh + 1 else prodh)
        in join prodh prodl)"

definition muldi3 :: "64 word \<Rightarrow> 64 word \<Rightarrow> 64 word" where
  "muldi3 a b =
     (let (u, negall) = (if sint a \<ge> 0 then (a, False) else (- a, True));
          (v, negall) = (if sint b \<ge> 0 then (b, negall) else (- b, \<not> negall));
          prod =
            (if hi u = 0 \<and> hi v = 0 then lmulq (lo u) (lo v)
             else
               let low = lmulq (lo u) (lo v);
                   (negmid, udiff) = (if hi u \<ge> lo u then (False, hi u - lo u) else (True, lo u - hi u));
                   (negmid, vdiff) = (if lo v \<ge> hi v then (negmid, lo v - hi v) else (\<not> negmid, hi v - lo v));
                   mid = udiff * vdiff;
                   high = hi u * hi v
               in join (high + (if negmid then - mid else mid) + lo low + hi low) (lo low))
      in if negall then - prod else prod)"

section \<open>The halves of a long long\<close>

lemma bit_join: "bit (join h l) n \<longleftrightarrow> (if n < 32 then bit l n else n < 64 \<and> bit h (n - 32))"
  by (auto simp: join_def bit_simps dest: bit_imp_le_length)

lemma bit_hi: "bit (hi a) n \<longleftrightarrow> bit a (n + 32)"
  by (auto simp: hi_def bit_simps add.commute dest: bit_imp_le_length)

lemma bit_lo: "bit (lo a) n \<longleftrightarrow> n < 32 \<and> bit a n"
  by (auto simp: lo_def bit_simps dest: bit_imp_le_length)

lemmas bit_halves = bit_join bit_hi bit_lo

lemma halves_join [simp]: "hi (join h l) = h" "lo (join h l) = l"
  by (auto intro!: bit_word_eqI simp: bit_halves)

lemma join_halves [simp]: "join (hi a) (lo a) = a"
  by (rule bit_word_eqI) (auto simp: bit_halves split: if_splits)

lemma join_eq: "join h l = ucast h * 2 ^ 32 + ucast l"
proof -
  have "push_bit 32 (ucast h) + ucast l = (push_bit 32 (ucast h) OR ucast l :: 64 word)"
    by (rule disjunctive_add) (auto simp: bit_simps dest: bit_imp_le_length)
  then show ?thesis by (simp add: join_def push_bit_eq_mult)
qed

text \<open>A high half, as a 64-bit number.\<close>

definition up :: "32 word \<Rightarrow> 64 word" where
  "up x = ucast x * 2 ^ 32"

lemma join_up: "join h l = up h + ucast l"
  by (simp add: join_eq up_def)

lemma up_of_int: "up (word_of_int a) = word_of_int (a * 2 ^ 32)"
proof -
  have e: "take_bit 64 (push_bit 32 (take_bit 32 a)) = take_bit 64 (push_bit 32 a)"
    by (simp add: take_bit_push_bit)
  have "up (word_of_int a) = word_of_int (take_bit 32 a * 2 ^ 32)"
    by (simp add: up_def unsigned_of_int)
  also have "\<dots> = word_of_int (a * 2 ^ 32)"
    using e[unfolded push_bit_eq_mult] by (intro word_of_int_eq_iff[THEN iffD2]) simp
  finally show ?thesis .
qed

lemma up_simps: "up (x + y) = up x + up y" "up (x - y) = up x - up y" "up (- x) = - up x" "up (x * y) = ucast x * up y" "up 0 = 0"
  "up 1 = 2 ^ 32"
proof -
  have x: "x = word_of_int (uint x)" "y = word_of_int (uint y)" by simp_all
  have u: "ucast x = (word_of_int (uint x) :: 64 word)" by simp
  show "up (x + y) = up x + up y" "up (x - y) = up x - up y" "up (- x) = - up x" "up (x * y) = ucast x * up y" "up 0 = 0" "up 1 = 2 ^ 32"
    using up_of_int[of "uint x + uint y"] up_of_int[of "uint x - uint y"] up_of_int[of "- uint x"] up_of_int[of "uint x * uint y"]
      up_of_int[of "uint x"] up_of_int[of "uint y"]
    by (simp_all add: algebra_simps up_def)
qed

text \<open>The carry of an addition of low halves and the borrow of a subtraction.\<close>

lemma carry_add:
  fixes l l' :: "32 word"
  shows "ucast (l + l') + up (flag (l + l' < l')) = (ucast l + ucast l' :: 64 word)"
proof -
  have "uint l < 2 ^ 32" "uint l' < 2 ^ 32" using uint_bounded[of l] uint_bounded[of l'] by simp_all
  then have "uint (l + l') + (if l + l' < l' then 2 ^ 32 else 0) = uint l + uint l'"
    by (auto simp: word_less_def uint_plus_if' uint_sub_if')
  then have "(word_of_int (uint (l + l') + (if l + l' < l' then 2 ^ 32 else 0)) :: 64 word) = word_of_int (uint l + uint l')"
    by simp
  then show ?thesis by (simp add: up_simps split: if_splits)
qed

lemma carry_sub:
  fixes l l' :: "32 word"
  shows "ucast (l - l') - up (flag (l - l' > l)) = (ucast l - ucast l' :: 64 word)"
proof -
  have "uint l < 2 ^ 32" "uint l' < 2 ^ 32" using uint_bounded[of l] uint_bounded[of l'] by simp_all
  then have "uint (l - l') - (if l - l' > l then 2 ^ 32 else 0) = uint l - uint l'"
    by (auto simp: word_less_def uint_plus_if' uint_sub_if')
  then have "(word_of_int (uint (l - l') - (if l - l' > l then 2 ^ 32 else 0)) :: 64 word) = word_of_int (uint l - uint l')"
    by simp
  then show ?thesis by (simp add: up_simps split: if_splits)
qed

lemma adddi3_eq: "adddi3 a b = a + b"
proof -
  have "a + b = up (hi a) + up (hi b) + (ucast (lo a) + ucast (lo b))"
    using join_up[of "hi a" "lo a"] join_up[of "hi b" "lo b"] by (simp add: algebra_simps)
  then show ?thesis
    unfolding carry_add[symmetric] adddi3_def Let_def join_up up_simps by (simp add: algebra_simps)
qed

lemma subdi3_eq: "subdi3 a b = a - b"
proof -
  have "a - b = up (hi a) - up (hi b) + (ucast (lo a) - ucast (lo b))"
    using join_up[of "hi a" "lo a"] join_up[of "hi b" "lo b"] by (simp add: algebra_simps)
  then show ?thesis
    unfolding carry_sub[symmetric] subdi3_def Let_def join_up up_simps by (simp add: algebra_simps)
qed

lemma negdi2_eq: "negdi2 a = - a"
proof -
  have "negdi2 a = subdi3 0 a"
    unfolding negdi2_def subdi3_def by (simp add: hi_def lo_def)
  then show ?thesis by (simp add: subdi3_eq)
qed

section \<open>Multiplication\<close>

lemma LHALF_eq: "LHALF x = take_bit 16 x"
  by (simp add: LHALF_def take_bit_eq_mask mask_eq_exp_minus_1)

lemma ucast_halves: "(ucast u :: 64 word) = ucast (HHALF u) * 2 ^ 16 + ucast (LHALF u)"
proof -
  have "push_bit 16 (ucast (HHALF u)) + ucast (LHALF u) = (push_bit 16 (ucast (HHALF u)) OR ucast (LHALF u) :: 64 word)"
    by (rule disjunctive_add) (auto simp: bit_simps HHALF_def LHALF_eq)
  also have "\<dots> = ucast u"
    by (rule bit_word_eqI)
      (auto simp: bit_simps HHALF_def LHALF_eq not_less dest: bit_imp_le_length)
  finally show ?thesis by (simp add: push_bit_eq_mult)
qed

lemma half_bound: "uint (HHALF u) < 2 ^ 16" "uint (LHALF u) < 2 ^ 16"
proof -
  have "uint u < 2 ^ 32" using uint_bounded[of u] by simp
  then show "uint (HHALF u) < 2 ^ 16" by (simp add: HHALF_def drop_bit_eq_div uint_div)
  show "uint (LHALF u) < 2 ^ 16" using take_bit_int_less_exp[of 16 "uint u"] by (simp add: LHALF_eq unsigned_take_bit_eq)
qed

lemma ucast_mult_small:
  fixes a b :: "32 word"
  assumes "uint a < 2 ^ 16" "uint b < 2 ^ 16"
  shows "(ucast (a * b) :: 64 word) = ucast a * ucast b"
proof -
  have "uint a * uint b < 2 ^ 16 * 2 ^ 16" using assms by (intro mult_strict_mono) auto
  then have "uint (a * b) = uint a * uint b" by (simp add: uint_word_ariths)
  then have "(word_of_int (uint (a * b)) :: 64 word) = word_of_int (uint a) * word_of_int (uint b)" by simp
  then show ?thesis by simp
qed

lemma shifted_half: "up (HHALF x) + ucast (LHUP x) = ucast x * 2 ^ 16"
proof -
  have "push_bit 32 (ucast (HHALF x)) + ucast (LHUP x) = (push_bit 32 (ucast (HHALF x)) OR ucast (LHUP x) :: 64 word)"
    by (rule disjunctive_add) (auto simp: bit_simps HHALF_def LHUP_def)
  also have "\<dots> = push_bit 16 (ucast x)"
    by (rule bit_word_eqI) (auto simp: bit_simps HHALF_def LHUP_def not_less dest: bit_imp_le_length)
  finally show ?thesis by (simp add: push_bit_eq_mult up_def)
qed

lemma diff_exact:
  fixes a b :: "32 word"
  shows "b \<le> a \<Longrightarrow> (ucast (a - b) :: 64 word) = ucast a - ucast b"
  using carry_sub[of a b] by (auto simp: up_simps word_less_def word_le_def uint_sub_if' split: if_splits)

text \<open>Adding and subtracting a half-shifted number on the two halves of a product.\<close>

lemma join_add_shifted: "join (h + (HHALF x + flag (l + LHUP x < l))) (l + LHUP x) = join h l + ucast x * 2 ^ 16"
  using carry_add[of "LHUP x" l] shifted_half[of x] unfolding join_up up_simps by (simp add: algebra_simps)

lemma join_sub_shifted: "join (h - (HHALF x + flag (l - LHUP x > l))) (l - LHUP x) = join h l - ucast x * 2 ^ 16"
proof -
  have "(ucast (l - LHUP x) :: 64 word) = ucast l - ucast (LHUP x) + up (flag (l - LHUP x > l))"
    using carry_sub[of l "LHUP x"] by (simp only: diff_eq_eq)
  then show ?thesis unfolding join_up up_simps shifted_half[symmetric] by (simp only: algebra_simps)
qed

lemma join_add_low: "join (if l + x < x then h + 1 else h) (l + x) = join h l + ucast x"
  using carry_add[of l x] unfolding join_up by (auto simp: up_simps algebra_simps split: if_splits)

lemma join_high: "join (x + HHALF x) (LHUP x) = up x + ucast x * 2 ^ 16"
  using shifted_half[of x] unfolding join_up up_simps by (simp add: algebra_simps)

lemma diff_small: "b \<le> a \<Longrightarrow> uint (a - b) \<le> uint a"
  by (simp add: word_le_def uint_sub_if')

lemma karatsuba:
  fixes u1 u0 v1 v0 :: "64 word"
  shows "u1 * v1 * 2 ^ 32 + u1 * v1 * 2 ^ 16 + (u1 - u0) * (v0 - v1) * 2 ^ 16 + u0 * v0 * 2 ^ 16 + u0 * v0 =
    (u1 * 2 ^ 16 + u0) * (v1 * 2 ^ 16 + v0)"
  by (simp add: algebra_simps)

lemma lmulq_eq: "lmulq u v = ucast u * ucast v"
proof -
  define u1 u0 v1 v0 where d: "u1 = HHALF u" "u0 = LHALF u" "v1 = HHALF v" "v0 = LHALF v"
  have b: "uint u1 < 2 ^ 16" "uint u0 < 2 ^ 16" "uint v1 < 2 ^ 16" "uint v0 < 2 ^ 16" using half_bound by (simp_all add: d)
  have uv: "(ucast u :: 64 word) = ucast u1 * 2 ^ 16 + ucast u0" "(ucast v :: 64 word) = ucast v1 * 2 ^ 16 + ucast v0"
    unfolding d by (rule ucast_halves)+
  define ud where "ud = (if u1 \<ge> u0 then u1 - u0 else u0 - u1)"
  define vd where "vd = (if v0 \<ge> v1 then v0 - v1 else v1 - v0)"
  define neg where "neg \<longleftrightarrow> (u1 \<ge> u0) \<noteq> (v0 \<ge> v1)"
  have "uint ud < 2 ^ 16" "uint vd < 2 ^ 16" using b
    by (auto simp: ud_def vd_def not_le intro: le_less_trans[OF diff_small])
  then have m: "(ucast (ud * vd) :: 64 word) = ucast ud * ucast vd" by (rule ucast_mult_small)
  have ds: "ucast u1 - ucast u0 = (if u1 \<ge> u0 then ucast ud else - ucast ud :: 64 word)"
    "ucast v0 - ucast v1 = (if v0 \<ge> v1 then ucast vd else - ucast vd :: 64 word)"
    by (auto simp: ud_def vd_def diff_exact)
  have mid: "(if neg then - ucast (ud * vd) else ucast (ud * vd)) = (ucast u1 - ucast u0) * (ucast v0 - ucast v1 :: 64 word)"
    unfolding ds m neg_def by simp
  have hl: "(ucast (u1 * v1) :: 64 word) = ucast u1 * ucast v1" "(ucast (u0 * v0) :: 64 word) = ucast u0 * ucast v0"
    using b by (auto intro: ucast_mult_small)
  show ?thesis
  proof (cases "u1 = 0 \<and> v1 = 0")
    case True
    then show ?thesis using hl uv by (simp add: lmulq_def d[symmetric] Let_def)
  next
    case False
    have "lmulq u v = join (u1 * v1 + HHALF (u1 * v1)) (LHUP (u1 * v1)) +
        (if neg then - ucast (ud * vd) else ucast (ud * vd)) * 2 ^ 16 + ucast (u0 * v0) * 2 ^ 16 + ucast (u0 * v0)"
      using False
      by (cases "u1 \<ge> u0"; cases "v0 \<ge> v1")
        (simp_all only: lmulq_def d[symmetric] Let_def prod.case if_True if_False join_add_low join_add_shifted
          join_sub_shifted ud_def vd_def neg_def simp_thms add_uminus_conv_diff mult_minus_left)
    also have "\<dots> = ucast u * ucast v"
      unfolding mid join_high uv hl karatsuba[symmetric] up_def by (simp add: algebra_simps)
    finally show ?thesis .
  qed
qed

lemma up_mult_up: "up x * up y = 0"
proof -
  have "(2 ^ 32 * 2 ^ 32 :: 64 word) = 0" by simp
  then have "ucast x * ucast y * (2 ^ 32 * 2 ^ 32 :: 64 word) = 0" by (metis mult_zero_right)
  then show ?thesis by (simp only: up_def ac_simps)
qed

lemma up_lo: "up (lo a) = a * 2 ^ 32"
proof -
  have "a * 2 ^ 32 = (up (hi a) + ucast (lo a)) * 2 ^ 32" using join_up[of "hi a" "lo a"] by simp
  also have "\<dots> = up (hi a) * up 1 + up (lo a)" by (simp add: up_def algebra_simps)
  finally show ?thesis by (simp add: up_mult_up)
qed

text \<open>The product of the magnitudes.\<close>

lemma mul_parts:
  defines "ud \<equiv> \<lambda>u. if hi u \<ge> lo u then hi u - lo u else lo u - hi u"
    and "vd \<equiv> \<lambda>v. if lo v \<ge> hi v then lo v - hi v else hi v - lo v"
  shows "join (hi u * hi v + (if (hi u \<ge> lo u) \<noteq> (lo v \<ge> hi v) then - (ud u * vd v) else ud u * vd v) +
    lo (lmulq (lo u) (lo v)) + hi (lmulq (lo u) (lo v))) (lo (lmulq (lo u) (lo v))) = u * v"
proof -
  have mid: "(if (hi u \<ge> lo u) \<noteq> (lo v \<ge> hi v) then - (ud u * vd v) else ud u * vd v) = (hi u - lo u) * (lo v - hi v)"
    by (auto simp: ud_def vd_def algebra_simps)
  let ?z = "ucast (lo u) * ucast (lo v) :: 64 word"
  have l: "up (hi ?z) + ucast (lo ?z) = ?z" using join_up[of "hi ?z" "lo ?z"] by simp
  have up_diff: "up ((x - y) * (z - w)) = (ucast x - ucast y) * (ucast z - ucast w) * 2 ^ 32" for x y z w
  proof -
    have "up (p * (z - w)) = up p * (ucast z - ucast w)" for p
      unfolding up_simps(2,4) by (simp add: up_def algebra_simps)
    then show ?thesis by (simp add: up_simps(2)) (simp add: up_def algebra_simps)
  qed
  have "u * v = (up (hi u) + ucast (lo u)) * (up (hi v) + ucast (lo v))"
    using join_up[of "hi u" "lo u"] join_up[of "hi v" "lo v"] by simp
  also have "\<dots> = up (hi u) * ucast (lo v) + ucast (lo u) * up (hi v) + ?z"
    by (simp add: up_mult_up algebra_simps)
  also have "\<dots> = up (hi u * hi v) + (ucast (hi u) - ucast (lo u)) * (ucast (lo v) - ucast (hi v)) * 2 ^ 32 + ?z * 2 ^ 32 + ?z"
    unfolding up_simps(4) by (simp add: up_def algebra_simps)
  also have "\<dots> = up (hi u * hi v) + up ((hi u - lo u) * (lo v - hi v)) + up (lo ?z) + (up (hi ?z) + ucast (lo ?z))"
    unfolding l up_diff up_lo ..
  finally show ?thesis unfolding join_up up_simps(1) mid lmulq_eq by (simp only: ac_simps)
qed

lemma muldi3_eq: "muldi3 a b = a * b"
proof -
  have small: "lmulq (lo u) (lo v) = u * v" if "hi u = 0" "hi v = 0" for u v
    using join_up[of "hi u" "lo u"] join_up[of "hi v" "lo v"] that unfolding join_halves by (simp add: lmulq_eq up_simps)
  have parts: "(let low = lmulq (lo u) (lo v);
       (negmid, udiff) = (if hi u \<ge> lo u then (False, hi u - lo u) else (True, lo u - hi u));
       (negmid, vdiff) = (if lo v \<ge> hi v then (negmid, lo v - hi v) else (\<not> negmid, hi v - lo v));
       mid = udiff * vdiff; high = hi u * hi v
     in join (high + (if negmid then - mid else mid) + lo low + hi low) (lo low)) = u * v" for u v
    unfolding mul_parts[of u v, symmetric] Let_def by auto
  show ?thesis
    unfolding muldi3_def parts by (auto simp: small)
qed

section \<open>Shifts, comparisons and bitwise operations\<close>

lemma ashldi3_eq: "shift < 64 \<Longrightarrow> ashldi3 a shift = push_bit shift a"
  by (rule bit_word_eqI) (auto simp: ashldi3_def INT_BITS_def bit_halves bit_simps not_less)

lemma lshrdi3_eq: "shift < 64 \<Longrightarrow> lshrdi3 a shift = drop_bit shift a"
proof (rule bit_word_eqI)
  fix n assume "shift < 64" "n < LENGTH(64)"
  then show "bit (lshrdi3 a shift) n = bit (drop_bit shift a) n"
    by (cases "n + shift < 32")
      (auto simp: lshrdi3_def INT_BITS_def bit_halves bit_simps not_less add.commute dest: bit_imp_le_length)
qed

lemma bit_sdrop:
  "bit (signed_drop_bit k (w :: 32 word)) n \<longleftrightarrow> n < 32 \<and> bit w (if n + k < 32 then n + k else 31)"
  "bit (signed_drop_bit k (a :: 64 word)) n \<longleftrightarrow> n < 64 \<and> bit a (if n + k < 64 then n + k else 63)"
proof -
  have 31: "LENGTH(32) - Suc 0 = 31" "LENGTH(64) - Suc 0 = 63" by simp_all
  have l: "bit w j \<Longrightarrow> j < 32" "bit a j \<Longrightarrow> j < 64" for j using bit_imp_le_length[of w j] bit_imp_le_length[of a j] by simp_all
  show "bit (signed_drop_bit k w) n \<longleftrightarrow> n < 32 \<and> bit w (if n + k < 32 then n + k else 31)"
    "bit (signed_drop_bit k a) n \<longleftrightarrow> n < 64 \<and> bit a (if n + k < 64 then n + k else 63)"
    unfolding bit_signed_drop_bit_iff 31 One_nat_def by (auto simp: add.commute dest: l)
qed

lemma ashrdi3_eq: "shift < 64 \<Longrightarrow> ashrdi3 a shift = signed_drop_bit shift a"
proof (rule bit_word_eqI)
  fix n assume n: "shift < 64" "n < LENGTH(64)"
  have i: "n \<ge> 32 \<Longrightarrow> n - 32 + k + 32 = n + k" "n + k \<ge> 32 \<Longrightarrow> n + k - 32 + 32 = n + k" for k by simp_all
  show "bit (ashrdi3 a shift) n = bit (signed_drop_bit shift a) n"
    using n unfolding ashrdi3_def INT_BITS_def
    by (cases "shift = 0"; cases "32 \<le> shift"; cases "n < 32"; cases "n + shift < 32"; cases "n + shift < 64")
      (auto simp: bit_halves bit_sdrop bit_or_iff bit_drop_bit_eq bit_push_bit_iff i add.commute)
qed

lemma uint_halves: "uint a = uint (hi a) * 2 ^ 32 + uint (lo a)"
proof -
  have "uint a < 2 ^ 64" using uint_bounded[of a] by simp
  then have "take_bit 32 (uint a div 2 ^ 32) = uint a div 2 ^ 32" by (intro take_bit_int_eq_self) (simp_all add: pos_imp_zdiv_nonneg_iff)
  then have "uint (hi a) = uint a div 2 ^ 32"
    by (simp add: hi_def unsigned_ucast_eq drop_bit_eq_div uint_div)
  moreover have "uint (lo a) = uint a mod 2 ^ 32" by (simp add: lo_def unsigned_ucast_eq take_bit_eq_mod)
  ultimately show ?thesis by simp
qed

lemma sint_halves: "sint a = sint (hi a) * 2 ^ 32 + uint (lo a)"
proof -
  have t: "take_bit 64 (uint a) = uint a" "take_bit 32 (uint (hi a)) = uint (hi a)"
    using uint_bounded[of a] uint_bounded[of "hi a"] by (auto intro: take_bit_int_eq_self)
  have "sint a = uint a - 2 ^ 64 * of_bool (bit a 63)"
    by (simp add: sint_uint signed_take_bit_eq_take_bit_minus bit_uint_iff t)
  moreover have "sint (hi a) = uint (hi a) - 2 ^ 32 * of_bool (bit a 63)"
    by (simp add: sint_uint signed_take_bit_eq_take_bit_minus bit_uint_iff t bit_hi)
  ultimately show ?thesis using uint_halves[of a] by (simp add: algebra_simps)
qed

lemma halves_less:
  assumes "0 \<le> (l :: int)" "l < 2 ^ 32" "0 \<le> l'" "l' < 2 ^ 32"
  shows "h * 2 ^ 32 + l < h' * 2 ^ 32 + l' \<longleftrightarrow> h < h' \<or> h = h' \<and> l < l'"
proof -
  consider "h < h'" | "h = h'" | "h' < h" by linarith
  then show ?thesis using assms by cases auto
qed

lemma lo_bound: "0 \<le> uint (lo a)" "uint (lo a) < 2 ^ 32"
  using uint_bounded[of "lo a"] by simp_all

lemma ucmpdi2_eq: "ucmpdi2 a b = (if a < b then 0 else if b < a then 2 else 1)"
  unfolding word_less_def uint_halves[of a] uint_halves[of b] halves_less[OF lo_bound lo_bound]
  by (auto simp: ucmpdi2_def word_less_def)

lemma cmpdi2_eq: "cmpdi2 a b = (if sint a < sint b then 0 else if sint b < sint a then 2 else 1)"
  unfolding sint_halves[of a] sint_halves[of b] halves_less[OF lo_bound lo_bound]
  by (auto simp: cmpdi2_def word_less_def)

lemma lshldi3_eq: "shift < 64 \<Longrightarrow> lshldi3 a shift = push_bit shift a"
  using ashldi3_eq[of shift a] by (simp add: ashldi3_def lshldi3_def)

lemma bitwise_eq: "anddi3 a b = a AND b" "iordi3 a b = a OR b" "xordi3 a b = a XOR b" "one_cmpldi2 a = NOT a"
  by (rule bit_word_eqI; auto simp: anddi3_def iordi3_def xordi3_def one_cmpldi2_def bit_halves bit_simps split: if_splits)+

section \<open>Property\<close>

text \<open>
  C23: The 64-bit routines compute the operations they are called for, on all arguments:
  addition, subtraction, negation and multiplication modulo \<open>2 ^ 64\<close> (multiplication by Karatsuba's
  method on halves and quarters, with the carries between them), the shifts below 64 bits,
  signed and unsigned comparison, and the bitwise operations.
\<close>

theorem millicode_arith:
  "adddi3 a b = a + b \<and> subdi3 a b = a - b \<and> negdi2 a = - a \<and> muldi3 a b = a * b \<and>
   (shift < 64 \<longrightarrow> ashldi3 a shift = push_bit shift a \<and> lshldi3 a shift = push_bit shift a \<and>
     lshrdi3 a shift = drop_bit shift a \<and> ashrdi3 a shift = signed_drop_bit shift a) \<and>
   cmpdi2 a b = (if sint a < sint b then 0 else if sint b < sint a then 2 else 1) \<and>
   ucmpdi2 a b = (if a < b then 0 else if b < a then 2 else 1) \<and>
   anddi3 a b = a AND b \<and> iordi3 a b = a OR b \<and> xordi3 a b = a XOR b \<and> one_cmpldi2 a = NOT a"
  by (simp add: adddi3_eq subdi3_eq negdi2_eq muldi3_eq ashldi3_eq lshldi3_eq lshrdi3_eq ashrdi3_eq cmpdi2_eq ucmpdi2_eq
      bitwise_eq)

theorem millicode_arith_witness:
  "muldi3 0x123456789 0xfedcba987 = 0x123456789 * 0xfedcba987 \<and> ashldi3 3 40 = push_bit 40 3"
  using millicode_arith[of "0x123456789" "0xfedcba987" 40] millicode_arith[of 3 0 40] by simp

end
