(* ===== verification/Milli_Div.thy ===== *)
theory Milli_Div
  imports Milli_Arith "HOL-Library.Signed_Division"
begin

text \<open>
  64-bit division, \<open>qdivrem.c\<close> and its callers in \<open>src/common/gcc-millicode\<close>: Knuth's algorithm D
  in base \<open>2 ^ 16\<close>.

  Digits and the variables of type \<open>unsigned int\<close> are natural numbers, with the wrap-around
  modulo \<open>2 ^ 32\<close> written out. The arrays are lists, and an access outside of them stops
  (\<open>None\<close>). The pointers \<open>u\<close>, \<open>v\<close> and \<open>q\<close> that the code advances into its arrays are the offsets
  \<open>uo\<close>, \<open>vo\<close> and \<open>qo\<close>.
\<close>

definition B :: nat where
  "B = 2 ^ 16"

definition hhalf :: "nat \<Rightarrow> nat" where
  "hhalf x = x div 2 ^ 16"

definition lhalf :: "nat \<Rightarrow> nat" where
  "lhalf x = x AND (2 ^ 16 - 1)"

definition COMBINE :: "nat \<Rightarrow> nat \<Rightarrow> nat" where
  "COMBINE a b = wrap32 (a * 2 ^ 16) OR b"

text \<open>Subtraction of \<open>unsigned int\<close> values.\<close>

definition sub32 :: "nat \<Rightarrow> nat \<Rightarrow> nat" where
  "sub32 a b = nat ((int a - int b) mod 2 ^ 32)"

section \<open>Program D\<close>

fun shl_loop :: "nat \<Rightarrow> nat \<Rightarrow> nat \<Rightarrow> nat list \<Rightarrow> nat list option" where
  "shl_loop i 0 sh p = do {
     x \<leftarrow> aget p i;
     aset p i (lhalf (wrap32 (x * 2 ^ sh)))
   }"
| "shl_loop i (Suc len) sh p = do {
     x \<leftarrow> aget p i;
     y \<leftarrow> aget p (i + 1);
     p \<leftarrow> aset p i (lhalf (wrap32 (x * 2 ^ sh)) OR (y div 2 ^ (16 - sh)));
     shl_loop (i + 1) len sh p
   }"

text \<open>\<open>shl(&p[off], len, sh)\<close>.\<close>

definition shl :: "nat \<Rightarrow> nat \<Rightarrow> nat \<Rightarrow> nat list \<Rightarrow> nat list option" where
  "shl off len sh p = shl_loop off len sh p"

text \<open>D1: the number of bits by which the divisor is shifted; for 0 the loop would not end.\<close>

function norm_shift :: "nat \<Rightarrow> nat \<Rightarrow> nat option" where
  "norm_shift t d = (if t = 0 then None else if t < B div 2 then norm_shift (t * 2) (d + 1) else Some d)"
  by pat_completeness auto
termination
  by (relation "measure (\<lambda>(t, d). B - t)") (auto simp: B_def)

declare norm_shift.simps [simp del]

text \<open>D3: the loop that corrects the estimate of a digit, and its body, which the code also enters by a jump.\<close>

function qhat_loop :: "nat \<Rightarrow> nat \<Rightarrow> nat \<Rightarrow> nat \<Rightarrow> nat \<Rightarrow> nat" where
  "qhat_loop v1 v2 uj2 qhat rhat =
     (if wrap32 (v2 * qhat) > COMBINE rhat uj2
      then (if rhat + v1 \<ge> B then qhat - 1 else qhat_loop v1 v2 uj2 (qhat - 1) (rhat + v1))
      else qhat)"
  by pat_completeness auto
termination
proof (relation "measure (\<lambda>(v1, v2, uj2, qhat, rhat). qhat)")
  fix v1 v2 uj2 qhat rhat :: nat
  assume "COMBINE rhat uj2 < wrap32 (v2 * qhat)"
  then show "((v1, v2, uj2, qhat - 1, rhat + v1), (v1, v2, uj2, qhat, rhat)) \<in> measure (\<lambda>(v1, v2, uj2, qhat, rhat). qhat)"
    by (cases qhat) simp_all
qed simp

declare qhat_loop.simps [simp del]

definition qhat_guess :: "nat \<Rightarrow> nat \<Rightarrow> nat \<Rightarrow> nat \<Rightarrow> nat \<Rightarrow> nat" where
  "qhat_guess v1 v2 uj0 uj1 uj2 =
     (if uj0 = v1 then (if uj1 + v1 \<ge> B then B - 1 else qhat_loop v1 v2 uj2 (B - 1) (uj1 + v1))
      else let nn = COMBINE uj0 uj1 in qhat_loop v1 v2 uj2 (nn div v1) (nn mod v1))"

text \<open>D4: multiply and subtract, for the digits \<open>i\<close> down to 1, and D6: add back. \<open>uj\<close> is \<open>&u[j]\<close>.\<close>

fun mulsub :: "nat list \<Rightarrow> nat \<Rightarrow> nat \<Rightarrow> nat \<Rightarrow> nat \<Rightarrow> nat \<Rightarrow> nat list \<Rightarrow> (nat \<times> nat list) option" where
  "mulsub v vo qhat uj 0 t u = Some (t, u)"
| "mulsub v vo qhat uj (Suc i) t u = do {
     x \<leftarrow> aget u (uj + Suc i);
     y \<leftarrow> aget v (vo + Suc i);
     let t = sub32 (sub32 x (wrap32 (y * qhat))) t;
     u \<leftarrow> aset u (uj + Suc i) (lhalf t);
     mulsub v vo qhat uj i ((B - hhalf t) AND (B - 1)) u
   }"

fun addback :: "nat list \<Rightarrow> nat \<Rightarrow> nat \<Rightarrow> nat \<Rightarrow> nat \<Rightarrow> nat list \<Rightarrow> (nat \<times> nat list) option" where
  "addback v vo uj 0 t u = Some (t, u)"
| "addback v vo uj (Suc i) t u = do {
     x \<leftarrow> aget u (uj + Suc i);
     y \<leftarrow> aget v (vo + Suc i);
     let t = wrap32 (t + x + y);
     u \<leftarrow> aset u (uj + Suc i) (lhalf t);
     addback v vo uj i (hhalf t) u
   }"

text \<open>The estimate was too large: one less, and the divisor is added back.\<close>

definition add_back :: "nat list \<Rightarrow> nat \<Rightarrow> nat \<Rightarrow> nat \<Rightarrow> nat \<Rightarrow> nat list \<Rightarrow> (nat \<times> nat list) option" where
  "add_back v vo n uj qhat u = do {
     (t, u) \<leftarrow> addback v vo uj n 0 u;
     x \<leftarrow> aget u uj;
     u \<leftarrow> aset u uj (lhalf (x + t));
     Some (lhalf (qhat - 1), u)
   }"

text \<open>One round of the loop on \<open>j\<close>: the next digit of the quotient and the new remainder.\<close>

definition div_step :: "nat list \<Rightarrow> nat \<Rightarrow> nat \<Rightarrow> nat \<Rightarrow> nat list \<Rightarrow> (nat \<times> nat list) option" where
  "div_step v vo n uj u = do {
     v1 \<leftarrow> aget v (vo + 1);
     v2 \<leftarrow> aget v (vo + 2);
     uj0 \<leftarrow> aget u uj;
     uj1 \<leftarrow> aget u (uj + 1);
     uj2 \<leftarrow> aget u (uj + 2);
     let qhat = qhat_guess v1 v2 uj0 uj1 uj2;
     (t, u) \<leftarrow> mulsub v vo qhat uj n 0 u;
     x \<leftarrow> aget u uj;
     let t = sub32 x t;
     u \<leftarrow> aset u uj (lhalf t);
     if hhalf t \<noteq> 0 then add_back v vo n uj qhat u else Some (lhalf qhat, u)
   }"

text \<open>The loop on \<open>j\<close>, with the number of rounds left.\<close>

fun div_loop :: "nat list \<Rightarrow> nat \<Rightarrow> nat \<Rightarrow> nat \<Rightarrow> nat \<Rightarrow> nat \<Rightarrow> nat \<Rightarrow> nat list \<times> nat list \<Rightarrow> (nat list \<times> nat list) option" where
  "div_loop v vo n uo qo j 0 (u, q) = Some (u, q)"
| "div_loop v vo n uo qo j (Suc k) (u, q) = do {
     (qhat, u) \<leftarrow> div_step v vo n (uo + j) u;
     q \<leftarrow> aset q (qo + j) qhat;
     div_loop v vo n uo qo (j + 1) k (u, q)
   }"

text \<open>The shift of the remainder to the right, for the digits \<open>uo + m + k\<close> down to \<open>uo + m + 1\<close>.\<close>

fun unshift :: "nat \<Rightarrow> nat \<Rightarrow> nat \<Rightarrow> nat list \<Rightarrow> nat list option" where
  "unshift um d 0 u = aset u um 0"
| "unshift um d (Suc k) u = do {
     x \<leftarrow> aget u (um + Suc k);
     y \<leftarrow> aget u (um + k);
     u \<leftarrow> aset u (um + Suc k) ((x div 2 ^ d) OR lhalf (wrap32 (y * 2 ^ (16 - d))));
     unshift um d k u
   }"

section \<open>Division\<close>

definition digits4 :: "64 word \<Rightarrow> nat list" where
  "digits4 x = [hhalf (unat (hi x)), lhalf (unat (hi x)), hhalf (unat (lo x)), lhalf (unat (lo x))]"

definition combine4 :: "nat list \<Rightarrow> 64 word" where
  "combine4 p = join (of_nat (COMBINE (p ! 1) (p ! 2))) (of_nat (COMBINE (p ! 3) (p ! 4)))"

text \<open>
  The length of the divisor: the loop on \<open>n\<close> stops at the first digit that is not zero, or at the
  last digit, for which the other method is used.
\<close>

fun divisor_len :: "nat list \<Rightarrow> nat \<Rightarrow> nat" where
  "divisor_len v 0 = 0"
| "divisor_len v (Suc n) = (if v ! (4 - n) = 0 then if n = 1 then 1 else divisor_len v n else Suc n)"

text \<open>The position of the first digit of the dividend that is not zero, less one.\<close>

function skip_zeros :: "nat list \<Rightarrow> nat \<Rightarrow> nat option" where
  "skip_zeros u uo = (case aget u (uo + 1) of None \<Rightarrow> None | Some x \<Rightarrow> if x = 0 then skip_zeros u (uo + 1) else Some uo)"
  by pat_completeness auto
termination
  by (relation "measure (\<lambda>(u, uo). length u - uo)") (auto simp: aget_Some)

declare skip_zeros.simps [simp del]

definition div_short :: "nat list \<Rightarrow> nat \<Rightarrow> 64 word \<times> 64 word" where
  "div_short u t =
     (let q1 = lhalf (u ! 1 div t);
          rbj = COMBINE (u ! 1 mod t) (u ! 2);
          q2 = lhalf (rbj div t);
          rbj = COMBINE (rbj mod t) (u ! 3);
          q3 = lhalf (rbj div t);
          rbj = COMBINE (rbj mod t) (u ! 4);
          q4 = lhalf (rbj div t)
      in (join (of_nat (COMBINE q1 q2)) (of_nat (COMBINE q3 q4)), of_nat (rbj mod t)))"

text \<open>
  The division by \<open>n\<close> digits. \<open>junk\<close> is the uninitialised quotient. The remainder is always
  computed here; a caller that passes no pointer for it ignores it.
\<close>

definition program_D :: "nat list \<Rightarrow> nat \<Rightarrow> nat list \<Rightarrow> nat list \<Rightarrow> (64 word \<times> 64 word) option" where
  "program_D junk n u v = do {
     let vo = 4 - n;
     uo \<leftarrow> skip_zeros u 0;
     let m = 4 - n - uo;
     let q = replicate (4 - m) 0 @ drop (4 - m) junk;
     let qo = 4 - m;
     t \<leftarrow> aget v (vo + 1);
     d \<leftarrow> norm_shift t 0;
     u \<leftarrow> (if d > 0 then shl uo (m + n) d u else Some u);
     v \<leftarrow> (if d > 0 then shl (vo + 1) (n - 1) d v else Some v);
     (u, q) \<leftarrow> div_loop v vo n uo qo 0 (m + 1) (u, q);
     u \<leftarrow> (if d > 0 then unshift (uo + m) d n u else Some u);
     Some (combine4 q, combine4 u)
   }"

text \<open>Division by zero traps.\<close>

definition qdivrem :: "nat list \<Rightarrow> 64 word \<Rightarrow> 64 word \<Rightarrow> (64 word \<times> 64 word) option" where
  "qdivrem junk ull vll =
     (if vll = 0 then None
      else if ull < vll then Some (0, ull)
      else
        let u = 0 # digits4 ull; v = 0 # digits4 vll; n = divisor_len v 4 in
        if n = 1 then Some (div_short u (v ! 4)) else program_D junk n u v)"

definition udivdi3 :: "nat list \<Rightarrow> 64 word \<Rightarrow> 64 word \<Rightarrow> 64 word option" where
  "udivdi3 junk a b = map_option fst (qdivrem junk a b)"

definition umoddi3 :: "nat list \<Rightarrow> 64 word \<Rightarrow> 64 word \<Rightarrow> 64 word option" where
  "umoddi3 junk a b = map_option snd (qdivrem junk a b)"

definition divdi3 :: "nat list \<Rightarrow> 64 word \<Rightarrow> 64 word \<Rightarrow> 64 word option" where
  "divdi3 junk a b = do {
     let (ua, neg) = (if sint a < 0 then (- a, True) else (a, False));
     let (ub, neg) = (if sint b < 0 then (- b, \<not> neg) else (b, neg));
     (uq, _) \<leftarrow> qdivrem junk ua ub;
     Some (if neg then - uq else uq)
   }"

definition moddi3 :: "nat list \<Rightarrow> 64 word \<Rightarrow> 64 word \<Rightarrow> 64 word option" where
  "moddi3 junk a b = do {
     let (ua, neg) = (if sint a < 0 then (- a, True) else (a, False));
     let ub = (if sint b < 0 then - b else b);
     (_, ur) \<leftarrow> qdivrem junk ua ub;
     Some (if neg then - ur else ur)
   }"

section \<open>Digits\<close>

lemma lhalf_mod: "lhalf x = x mod B"
  using take_bit_eq_mask[of 16 x] take_bit_eq_mod[of 16 x] by (simp add: lhalf_def B_def mask_eq_exp_minus_1)

lemma and_mod: "x AND (B - 1) = x mod B" for x :: nat
  using lhalf_mod[of x] by (simp add: lhalf_def B_def)

lemma hhalf_div: "hhalf x = x div B"
  by (simp add: hhalf_def B_def)

lemma B_pos [simp]: "0 < B"
  by (simp add: B_def)

lemma lhalf_less [simp]: "lhalf x < B"
  by (simp add: lhalf_mod)

lemma or_add: "y < 2 ^ k \<Longrightarrow> x * 2 ^ k OR y = x * 2 ^ k + y" for x y :: nat
proof -
  assume y: "y < 2 ^ k"
  have "push_bit k x + y = push_bit k x OR y"
    by (rule disjunctive_add) (metis bit_take_bit_iff leD bit_push_bit_iff_nat y take_bit_nat_eq_self)
  then show ?thesis by (simp add: push_bit_eq_mult)
qed

lemma COMBINE_add: "a < B \<Longrightarrow> b < B \<Longrightarrow> COMBINE a b = a * B + b"
  unfolding COMBINE_def using or_add[of b 16 a] by (simp add: B_def)

text \<open>The number that the \<open>n\<close> digits from position \<open>a\<close> on represent.\<close>

fun W :: "nat list \<Rightarrow> nat \<Rightarrow> nat \<Rightarrow> nat" where
  "W u a 0 = 0"
| "W u a (Suc n) = W u a n * B + u ! (a + n)"

lemma W_append: "W u a (n + m) = W u a n * B ^ m + W u (a + n) m"
  by (induction m) (simp_all add: algebra_simps)

lemma W_Cons: "W u a (Suc n) = u ! a * B ^ n + W u (Suc a) n"
  using W_append[of u a 1 n] by simp

lemma W_cong: "(\<And>i. a \<le> i \<Longrightarrow> i < a + n \<Longrightarrow> u ! i = u' ! i) \<Longrightarrow> W u a n = W u' a n"
  by (induction n) auto

definition digits_ok :: "nat list \<Rightarrow> bool" where
  "digits_ok u \<longleftrightarrow> (\<forall>x\<in>set u. x < B)"

lemma digits_nth: "digits_ok u \<Longrightarrow> i < length u \<Longrightarrow> u ! i < B"
  by (auto simp: digits_ok_def)

lemma digits_update: "digits_ok u \<Longrightarrow> x < B \<Longrightarrow> digits_ok (u[i := x])"
  using set_update_subset_insert[of u i x] by (auto simp: digits_ok_def)

lemma W_less: "digits_ok u \<Longrightarrow> a + n \<le> length u \<Longrightarrow> W u a n < B ^ n"
proof (induction n)
  case (Suc n)
  then have "W u a n + 1 \<le> B ^ n" "u ! (a + n) < B" by (auto intro: digits_nth)
  then have "W u a n * B + u ! (a + n) < (W u a n + 1) * B" "(W u a n + 1) * B \<le> B ^ n * B"
    using mult_le_mono1[of "W u a n + 1" "B ^ n" B] by simp_all
  then show ?case by (simp add: mult.commute[of B])
qed simp

section \<open>Multiply, subtract and add back\<close>

lemma sub_digit:
  assumes "x < B" "y < B" "q < B" "t < B"
  defines "X \<equiv> sub32 (sub32 x (wrap32 (y * q))) t"
  shows "x + ((B - hhalf X) AND (B - 1)) * B = lhalf X + y * q + t" "(B - hhalf X) AND (B - 1) < B"
proof -
  define S where "S = y * q + t"
  have "y * q \<le> (B - 1) * (B - 1)" using assms by (intro mult_le_mono) auto
  then have S: "S \<le> (B - 1) * B" using assms(4) by (simp add: B_def S_def)
  have "wrap32 (y * q) = y * q" using S by (simp add: B_def S_def)
  then have X: "int X = (int x - int S) mod 2 ^ 32"
    by (simp add: X_def sub32_def S_def mod_diff_left_eq algebra_simps)
  have "x + (B - X div B) mod B * B = X mod B + S"
  proof (cases "S \<le> x")
    case True
    have "int (x - S) mod 2 ^ 32 = int (x - S)" using assms(1) by (intro mod_pos_pos_trivial) (simp_all add: B_def)
    then have "X = x - S" using X of_nat_diff[OF True, where 'a = int] by (metis of_nat_eq_iff)
    then show ?thesis using True assms(1) by simp
  next
    case False
    have "(int x - int S) mod 2 ^ 32 = (int x - int S + 2 ^ 32) mod 2 ^ 32" by (simp only: mod_add_self2)
    also have "\<dots> = int x - int S + 2 ^ 32" using False S by (intro mod_pos_pos_trivial) (simp_all add: B_def)
    finally have e: "X + S = x + B * B" using X by (simp add: B_def)
    then have "B \<le> X" "X < B * B" using S False by (simp_all add: B_def)
    then have h: "1 \<le> X div B" "X div B < B" by (simp_all add: div_greater_zero_iff Suc_leI less_mult_imp_div_less)
    then have m: "(B - X div B) mod B = B - X div B" by simp
    have "(B - X div B) * B + X div B * B = B * B" using h by (simp add: add_mult_distrib[symmetric])
    then show ?thesis unfolding m using e div_mult_mod_eq[of X B] by linarith
  qed
  then show "x + ((B - hhalf X) AND (B - 1)) * B = lhalf X + y * q + t"
    unfolding and_mod hhalf_div lhalf_mod S_def by simp
  show "(B - hhalf X) AND (B - 1) < B" unfolding and_mod by simp
qed

lemma mulsub_spec:
  "digits_ok u \<Longrightarrow> digits_ok v \<Longrightarrow> q < B \<Longrightarrow> t < B \<Longrightarrow> uj + i < length u \<Longrightarrow> vo + i < length v \<Longrightarrow>
   \<exists>t' u'. mulsub v vo q uj i t u = Some (t', u') \<and> t' < B \<and> digits_ok u' \<and> length u' = length u \<and>
     (\<forall>k. k \<le> uj \<or> uj + i < k \<longrightarrow> u' ! k = u ! k) \<and>
     W u (Suc uj) i + t' * B ^ i = W u' (Suc uj) i + q * W v (Suc vo) i + t"
proof (induction i arbitrary: t u)
  case (Suc i)
  define x y where "x = u ! (uj + Suc i)" and "y = v ! (vo + Suc i)"
  define X where "X = sub32 (sub32 x (wrap32 (y * q))) t"
  define t1 where "t1 = (B - hhalf X) AND (B - 1)"
  define u1 where "u1 = u[uj + Suc i := lhalf X]"
  have d: "x < B" "y < B" using Suc.prems by (auto simp: x_def y_def digits_nth)
  note sd = sub_digit[OF d Suc.prems(3,4), folded X_def, folded t1_def]
  have ok: "digits_ok u1" "length u1 = length u" using Suc.prems(1) by (simp_all add: u1_def digits_update)
  have "mulsub v vo q uj (Suc i) t u = mulsub v vo q uj i t1 u1"
    using Suc.prems(5,6) by (simp add: Let_def X_def x_def y_def t1_def u1_def)
  moreover obtain t' u' where r: "mulsub v vo q uj i t1 u1 = Some (t', u')" "t' < B" "digits_ok u'" "length u' = length u1"
    "\<forall>k. k \<le> uj \<or> uj + i < k \<longrightarrow> u' ! k = u1 ! k"
    "W u1 (Suc uj) i + t' * B ^ i = W u' (Suc uj) i + q * W v (Suc vo) i + t1"
    using Suc.IH[OF ok(1) Suc.prems(2,3) sd(2)] Suc.prems(5,6) ok(2) by auto
  have "W u1 (Suc uj) i = W u (Suc uj) i" by (rule W_cong) (simp add: u1_def)
  moreover have "u' ! (Suc uj + i) = lhalf X" using r(5) Suc.prems(5) by (simp add: u1_def)
  moreover have "(W u (Suc uj) i + t' * B ^ i) * B = (W u' (Suc uj) i + q * W v (Suc vo) i + t1) * B"
    using r(6) calculation(2) by simp
  ultimately have "W u (Suc uj) (Suc i) + t' * B ^ Suc i = W u' (Suc uj) (Suc i) + q * W v (Suc vo) (Suc i) + t"
    using sd(1) by (simp add: x_def y_def algebra_simps)
  then show ?case using r \<open>mulsub v vo q uj (Suc i) t u = _\<close> ok by (auto simp: u1_def)
qed simp

lemma addback_spec:
  "digits_ok u \<Longrightarrow> digits_ok v \<Longrightarrow> t \<le> 1 \<Longrightarrow> uj + i < length u \<Longrightarrow> vo + i < length v \<Longrightarrow>
   \<exists>t' u'. addback v vo uj i t u = Some (t', u') \<and> t' \<le> 1 \<and> digits_ok u' \<and> length u' = length u \<and>
     (\<forall>k. k \<le> uj \<or> uj + i < k \<longrightarrow> u' ! k = u ! k) \<and>
     W u (Suc uj) i + W v (Suc vo) i + t = W u' (Suc uj) i + t' * B ^ i"
proof (induction i arbitrary: t u)
  case (Suc i)
  define X where "X = t + u ! (uj + Suc i) + v ! (vo + Suc i)"
  define u1 where "u1 = u[uj + Suc i := lhalf X]"
  have d: "u ! (uj + Suc i) < B" "v ! (vo + Suc i) < B" using Suc.prems by (auto simp: digits_nth)
  then have X: "X < 2 * B" "wrap32 X = X" using Suc.prems(3) by (simp_all add: X_def B_def)
  then have h: "hhalf X \<le> 1" using less_mult_imp_div_less[of X 2 B] by (simp add: hhalf_div)
  have ok: "digits_ok u1" "length u1 = length u" using Suc.prems(1) by (simp_all add: u1_def digits_update)
  have e: "addback v vo uj (Suc i) t u = addback v vo uj i (hhalf X) u1"
    using Suc.prems(4,5) X(2) by (simp add: Let_def X_def u1_def)
  obtain t' u' where r: "addback v vo uj i (hhalf X) u1 = Some (t', u')" "t' \<le> 1" "digits_ok u'" "length u' = length u1"
    "\<forall>k. k \<le> uj \<or> uj + i < k \<longrightarrow> u' ! k = u1 ! k"
    "W u1 (Suc uj) i + W v (Suc vo) i + hhalf X = W u' (Suc uj) i + t' * B ^ i"
    using Suc.IH[OF ok(1) Suc.prems(2) h] Suc.prems(4,5) ok(2) by auto
  have c: "W u1 (Suc uj) i = W u (Suc uj) i" by (rule W_cong) (simp add: u1_def)
  have n: "u' ! (Suc uj + i) = lhalf X" using r(5) Suc.prems(4) by (simp add: u1_def)
  have "(W u (Suc uj) i + W v (Suc vo) i + hhalf X) * B = (W u' (Suc uj) i + t' * B ^ i) * B" using r(6) c by simp
  moreover have "hhalf X * B + lhalf X = X" by (simp add: hhalf_div lhalf_mod)
  ultimately have "W u (Suc uj) (Suc i) + W v (Suc vo) (Suc i) + t = W u' (Suc uj) (Suc i) + t' * B ^ Suc i"
    using n by (simp add: X_def algebra_simps)
  then show ?case using r e ok by (auto simp: u1_def)
qed simp

section \<open>The estimate of a digit\<close>

lemma qhat_loop_spec:
  "0 < v1 \<Longrightarrow> v2 < B \<Longrightarrow> uj2 < B \<Longrightarrow> rhat < B \<Longrightarrow> qhat < B \<Longrightarrow>
   qhat_loop v1 v2 uj2 qhat rhat = min qhat (((qhat * v1 + rhat) * B + uj2) div (v1 * B + v2))"
proof (induction v1 v2 uj2 qhat rhat rule: qhat_loop.induct)
  case (1 v1 v2 uj2 qhat rhat)
  define N D where "N = (qhat * v1 + rhat) * B + uj2" and "D = v1 * B + v2"
  have D: "0 < D" using 1(2) by (simp add: D_def)
  have "v2 * qhat \<le> (B - 1) * (B - 1)" using 1 by (intro mult_le_mono) auto
  then have w: "wrap32 (v2 * qhat) = v2 * qhat" by (simp add: B_def)
  have test: "wrap32 (v2 * qhat) > COMBINE rhat uj2 \<longleftrightarrow> N < qhat * D"
    unfolding w COMBINE_add[OF 1(5,4)] by (simp add: N_def D_def algebra_simps)
  have u: "qhat_loop v1 v2 uj2 qhat rhat = (if N < qhat * D
      then (if rhat + v1 \<ge> B then qhat - 1 else qhat_loop v1 v2 uj2 (qhat - 1) (rhat + v1)) else qhat)"
    by (subst qhat_loop.simps) (simp only: test)
  have "qhat_loop v1 v2 uj2 qhat rhat = min qhat (N div D)"
  proof (cases "N < qhat * D")
    case False
    then have "qhat \<le> N div D" using D by (simp add: less_eq_div_iff_mult_less_eq)
    then show ?thesis using False by (simp add: u)
  next
    case True
    then have lt: "N div D < qhat" by (simp add: less_mult_imp_div_less)
    then obtain p where p: "qhat = Suc p" by (cases qhat) auto
    have N: "N = (p * v1 + (rhat + v1)) * B + uj2" by (simp add: N_def p algebra_simps)
    show ?thesis
    proof (cases "rhat + v1 \<ge> B")
      case b: True
      have "p * v2 \<le> B * B" using 1(3,6) p by (intro mult_le_mono) auto
      also have "\<dots> \<le> (rhat + v1) * B" using b by simp
      finally have "p * D \<le> N" by (simp add: N D_def algebra_simps)
      then have "p \<le> N div D" using D by (simp add: less_eq_div_iff_mult_less_eq)
      then show ?thesis unfolding u using True b lt p by simp
    next
      case b: False
      have "qhat_loop v1 v2 uj2 p (rhat + v1) = min p (N div D)"
        using 1(1) True b 1(2-6) p unfolding test by (simp add: N D_def)
      then show ?thesis unfolding u using True b lt p by simp
    qed
  qed
  then show ?case by (simp add: N_def D_def)
qed

lemma qhat_guess_spec:
  assumes "0 < v1" "v1 < B" "v2 < B" "uj0 \<le> v1" "uj1 < B" "uj2 < B"
  shows "qhat_guess v1 v2 uj0 uj1 uj2 = min (B - 1) (((uj0 * B + uj1) * B + uj2) div (v1 * B + v2))"
proof -
  define N D where "N = (uj0 * B + uj1) * B + uj2" and "D = v1 * B + v2"
  have D: "0 < D" using assms(1) by (simp add: D_def)
  show ?thesis
  proof (cases "uj0 = v1")
    case True
    have N: "N = ((B - 1) * v1 + (uj1 + v1)) * B + uj2" by (simp add: N_def True B_def)
    show ?thesis
    proof (cases "uj1 + v1 \<ge> B")
      case b: True
      have "(B - 1) * v2 \<le> B * B" using assms(3) by (intro mult_le_mono) auto
      also have "\<dots> \<le> (uj1 + v1) * B" using b by simp
      finally have "(B - 1) * D \<le> N" unfolding N D_def by (simp add: algebra_simps)
      then have "B - 1 \<le> N div D" using D by (simp add: less_eq_div_iff_mult_less_eq)
      then show ?thesis using True b by (simp add: qhat_guess_def N_def D_def)
    next
      case False
      then have "qhat_loop v1 v2 uj2 (B - 1) (uj1 + v1) = min (B - 1) (N div D)"
        using qhat_loop_spec[OF assms(1,3,6), of "uj1 + v1" "B - 1"] unfolding N D_def by simp
      then show ?thesis unfolding N_def[symmetric] D_def[symmetric] qhat_guess_def using True False by simp
    qed
  next
    case False
    let ?nn = "uj0 * B + uj1"
    have "uj0 + 1 \<le> v1" using False assms(4) by simp
    then have "(uj0 + 1) * B \<le> v1 * B" by (rule mult_le_mono1)
    then have "?nn < v1 * B" using assms(5) by simp
    then have l: "?nn div v1 < B" by (simp add: less_mult_imp_div_less mult.commute)
    have "N div D \<le> N div (v1 * B)" using assms(1) by (intro div_le_mono2) (simp_all add: D_def)
    also have "\<dots> = N div B div v1" by (simp add: div_mult2_eq mult.commute[of v1])
    also have "N div B = ?nn" using assms(6) by (simp add: N_def)
    finally have le: "N div D \<le> ?nn div v1" .
    have "qhat_guess v1 v2 uj0 uj1 uj2 = min (?nn div v1) (((?nn div v1 * v1 + ?nn mod v1) * B + uj2) div D)"
      unfolding qhat_guess_def D_def using False assms l
      by (simp add: COMBINE_add Let_def qhat_loop_spec[OF assms(1,3,6)] less_trans[OF mod_less_divisor[OF assms(1)] assms(2)])
    then show ?thesis using le l by (simp add: N_def[symmetric] D_def[symmetric])
  qed
qed

lemma quotient_estimate:
  fixes N D :: nat
  assumes "U = N * k + r" "r < k" "V = D * k + s" "s < k" "0 < D" "U < V * B" "B * k \<le> V"
  shows "U div V \<le> min (B - 1) (N div D)" "min (B - 1) (N div D) \<le> U div V + 1"
proof -
  have V: "0 < V" using assms(6) by (cases V) auto
  let ?q = "U div V" and ?g = "min (B - 1) (N div D)"
  have q: "?q * V \<le> U" by simp
  have "?q * D * k \<le> ?q * V" using assms(3) by (simp add: algebra_simps)
  also have "\<dots> < (N + 1) * k" by (rule le_less_trans[OF q]) (simp add: assms(1,2))
  finally have "?q * D < N + 1" by (simp only: mult_less_cancel2)
  then have "?q \<le> N div D" using assms(5) by (simp add: less_eq_div_iff_mult_less_eq)
  moreover have "?q < B" using assms(6) by (simp add: less_mult_imp_div_less mult.commute)
  ultimately show "?q \<le> ?g" by simp
  have g: "?g * D \<le> N" "?g < B"
    using assms(5) le_less_trans[OF min.cobounded1[of "B - 1" "N div D"], of B] by (simp_all add: less_eq_div_iff_mult_less_eq[symmetric])
  have "?g * V = ?g * D * k + ?g * s" by (simp add: assms(3) algebra_simps)
  also have "\<dots> \<le> N * k + ?g * s" using g(1) by simp
  also have "\<dots> \<le> U + B * k" using assms(1,4) g(2) by (simp add: mult_le_mono add_mono less_imp_le)
  also have "\<dots> \<le> U + V" using assms(7) by simp
  finally have "(?g - 1) * V \<le> U" by (simp add: diff_mult_distrib)
  then have "?g - 1 \<le> ?q" using V by (simp add: less_eq_div_iff_mult_less_eq)
  then show "?g \<le> ?q + 1" by simp
qed

section \<open>One digit of the quotient\<close>

lemma sub_top:
  assumes "x < B" "t < B"
  shows "hhalf (sub32 x t) \<noteq> 0 \<longleftrightarrow> x < t" "lhalf (sub32 x t) = (if x < t then B + x - t else x - t)"
proof -
  have "lhalf (sub32 x t) = (if x < t then B + x - t else x - t) \<and> (hhalf (sub32 x t) \<noteq> 0 \<longleftrightarrow> x < t)"
  proof (cases "x < t")
    case True
    have "(int x - int t) mod 2 ^ 32 = (int x - int t + 2 ^ 32) mod 2 ^ 32" by (simp only: mod_add_self2)
    also have "\<dots> = int x - int t + 2 ^ 32" using True assms by (intro mod_pos_pos_trivial) (simp_all add: B_def)
    finally have "sub32 x t = nat (int x - int t + 2 ^ 32)" by (simp add: sub32_def)
    moreover define r where "r = B + x - t"
    ultimately have "sub32 x t = r + (B - 1) * B" "r < B" using True assms by (simp_all add: B_def nat_eq_iff of_nat_diff)
    then have "sub32 x t div B = B - 1" "sub32 x t mod B = r" by simp_all
    then show ?thesis using True by (simp add: hhalf_div lhalf_mod r_def) (simp add: B_def)
  next
    case False
    then have "int x - int t = int (x - t)" by (simp add: of_nat_diff)
    moreover have "int (x - t) mod 2 ^ 32 = int (x - t)" using assms(1) by (intro mod_pos_pos_trivial) (simp_all add: B_def)
    ultimately have "sub32 x t = x - t" unfolding sub32_def by (metis nat_int)
    then show ?thesis using False assms(1) by (simp add: hhalf_div lhalf_mod)
  qed
  then show "hhalf (sub32 x t) \<noteq> 0 \<longleftrightarrow> x < t" "lhalf (sub32 x t) = (if x < t then B + x - t else x - t)" by blast+
qed

text \<open>The estimate is right or one too large.\<close>

lemma guess_bounds:
  assumes ok: "digits_ok u" "digits_ok v" and n: "2 \<le> n" "uj + n < length u" "vo + n < length v"
    and v1: "0 < v ! (vo + 1)" and lt: "W u uj (Suc n) < W v (Suc vo) n * B"
  defines "g \<equiv> qhat_guess (v ! (vo + 1)) (v ! (vo + 2)) (u ! uj) (u ! (uj + 1)) (u ! (uj + 2))"
  shows "W u uj (Suc n) div W v (Suc vo) n \<le> g" "g \<le> W u uj (Suc n) div W v (Suc vo) n + 1" "g < B"
proof -
  let ?U = "W u uj (Suc n)" and ?V = "W v (Suc vo) n"
  let ?N = "(u ! uj * B + u ! (uj + 1)) * B + u ! (uj + 2)" and ?D = "v ! (vo + 1) * B + v ! (vo + 2)"
  obtain l where l: "n = 2 + l" using n(1) le_Suc_ex by blast
  have U: "?U = ?N * B ^ l + W u (uj + 3) l"
    using W_append[of u uj 3 l] by (simp add: l eval_nat_numeral)
  have V: "?V = ?D * B ^ l + W v (Suc vo + 2) l"
    using W_append[of v "Suc vo" 2 l] by (simp add: l eval_nat_numeral)
  have r: "W u (uj + 3) l < B ^ l" "W v (Suc vo + 2) l < B ^ l" using ok n l by (auto intro!: W_less)
  have d: "v ! (vo + 1) < B" "v ! (vo + 2) < B" "u ! uj < B" "u ! (uj + 1) < B" "u ! (uj + 2) < B"
    using ok n by (auto intro!: digits_nth)
  have "1 * B \<le> v ! (vo + 1) * B" using v1 by (intro mult_le_mono1) simp
  then have D: "B \<le> ?D" unfolding mult_1 by (rule trans_le_add1)
  have BV: "B * B ^ l \<le> ?V" unfolding V by (rule trans_le_add1, rule mult_le_mono1, rule D)
  have "u ! uj * B ^ n \<le> ?U" by (simp only: W_Cons)
  also have "\<dots> < ?V * B" by (rule lt)
  also have "?V \<le> (v ! (vo + 1) + 1) * B ^ (n - 1)"
    using W_Cons[of v "Suc vo" "n - 1"] W_less[OF ok(2), of "Suc (Suc vo)" "n - 1"] n by simp
  also have "(v ! (vo + 1) + 1) * B ^ (n - 1) * B = (v ! (vo + 1) + 1) * B ^ n"
    using n(1) power_minus_mult[of n B] by (simp only: mult.assoc)
  finally have "u ! uj * B ^ n < (v ! (vo + 1) + 1) * B ^ n" by simp
  then have "u ! uj < v ! (vo + 1) + 1" by (simp only: mult_less_cancel2)
  then have le: "u ! uj \<le> v ! (vo + 1)" by simp
  have g: "g = min (B - 1) (?N div ?D)" unfolding g_def by (rule qhat_guess_spec[OF v1 d(1,2) le d(4,5)])
  have "0 < ?D" using D B_pos by linarith
  note e = quotient_estimate[OF U r(1) V r(2) this lt BV]
  show "?U div ?V \<le> g" "g \<le> ?U div ?V + 1" unfolding g using e by blast+
  show "g < B" unfolding g by (rule le_less_trans[OF min.cobounded1]) simp
qed

text \<open>Subtracting the estimate times the divisor borrows exactly when the estimate is too large.\<close>

lemma div_step_sub:
  assumes ok: "digits_ok u" "digits_ok v" and n: "2 \<le> n" "uj + n < length u" "vo + n < length v"
    and g: "g = qhat_guess (v ! (vo + 1)) (v ! (vo + 2)) (u ! uj) (u ! (uj + 1)) (u ! (uj + 2))" "g < B"
  shows "\<exists>u'. div_step v vo n uj u = (if W u uj (Suc n) < g * W v (Suc vo) n then add_back v vo n uj g u' else Some (g, u')) \<and>
    digits_ok u' \<and> length u' = length u \<and> (\<forall>k. k < uj \<or> uj + n < k \<longrightarrow> u' ! k = u ! k) \<and>
    W u' uj (Suc n) + g * W v (Suc vo) n = W u uj (Suc n) + (if W u uj (Suc n) < g * W v (Suc vo) n then B ^ Suc n else 0)"
proof -
  let ?U = "W u uj (Suc n)" and ?V = "W v (Suc vo) n"
  obtain t u1 where m: "mulsub v vo g uj n 0 u = Some (t, u1)" "t < B" "digits_ok u1" "length u1 = length u"
    "\<forall>k. k \<le> uj \<or> uj + n < k \<longrightarrow> u1 ! k = u ! k" "W u (Suc uj) n + t * B ^ n = W u1 (Suc uj) n + g * ?V + 0"
    using mulsub_spec[OF ok g(2) B_pos n(2,3)] by blast
  have top: "u1 ! uj = u ! uj" using m(5) by simp
  have b: "u ! uj < B" using ok(1) n(2) by (auto intro: digits_nth)
  define x u2 where "x = lhalf (sub32 (u ! uj) t)" and "u2 = u1[uj := x]"
  have u2: "digits_ok u2" "length u2 = length u" "u2 ! uj = x" "\<forall>k. k < uj \<or> uj + n < k \<longrightarrow> u2 ! k = u ! k"
    using m(3,4,5) n(2) by (simp_all add: u2_def x_def digits_update)
  have gets: "aget v (vo + 1) = Some (v ! (vo + 1))" "aget v (vo + 2) = Some (v ! (vo + 2))" "aget u uj = Some (u ! uj)"
    "aget u (uj + 1) = Some (u ! (uj + 1))" "aget u (uj + 2) = Some (u ! (uj + 2))" using n by simp_all
  have sel: "div_step v vo n uj u = (if u ! uj < t then add_back v vo n uj g u2 else Some (g, u2))"
    unfolding div_step_def gets Option.bind.bind_lunit Let_def g(1)[symmetric] m(1) prod.case
    using n(2) m(4) top sub_top[OF b m(2)] g(2) by (simp add: u2_def x_def lhalf_mod[of g])
  have "W u2 (Suc uj) n = W u1 (Suc uj) n" by (rule W_cong) (simp add: u2_def)
  then have w2: "W u2 uj (Suc n) = x * B ^ n + W u1 (Suc uj) n" by (simp only: W_Cons u2(3))
  have "x + t = u ! uj + (if u ! uj < t then B else 0)" using sub_top[OF b m(2)] m(2) by (simp add: x_def)
  then have "x * B ^ n + t * B ^ n = u ! uj * B ^ n + (if u ! uj < t then B else 0) * B ^ n" by (simp only: add_mult_distrib[symmetric])
  then have e: "W u2 uj (Suc n) + g * ?V = ?U + (if u ! uj < t then B ^ Suc n else 0)"
    unfolding w2 using m(6) W_Cons[of u uj n] by (simp only: if_distrib[of "\<lambda>c. c * B ^ n"] mult_0 power_Suc)
  have "W u2 uj (Suc n) < B ^ Suc n" using u2 n(2) by (intro W_less) simp_all
  then have "u ! uj < t \<longleftrightarrow> ?U < g * ?V" using e by (cases "u ! uj < t") simp_all
  then show ?thesis using sel e u2 by (intro exI[of _ u2]) simp
qed

text \<open>Adding the divisor back makes up for the borrow.\<close>

lemma add_back_spec:
  assumes ok: "digits_ok u" "digits_ok v" and n: "uj + n < length u" "vo + n < length v"
    and e: "W u uj (Suc n) + W v (Suc vo) n = R + B ^ Suc n" and q: "q < B"
  shows "\<exists>u'. add_back v vo n uj q u = Some (q - 1, u') \<and> digits_ok u' \<and> length u' = length u \<and>
    (\<forall>k. k < uj \<or> uj + n < k \<longrightarrow> u' ! k = u ! k) \<and> W u' uj (Suc n) = R"
proof -
  let ?V = "W v (Suc vo) n"
  obtain t u1 where a: "addback v vo uj n 0 u = Some (t, u1)" "t \<le> 1" "digits_ok u1" "length u1 = length u"
    "\<forall>k. k \<le> uj \<or> uj + n < k \<longrightarrow> u1 ! k = u ! k" "W u (Suc uj) n + ?V + 0 = W u1 (Suc uj) n + t * B ^ n"
    using addback_spec[OF ok, of 0 uj n vo] n by auto
  have top: "u1 ! uj = u ! uj" using a(5) by simp
  have x: "(u ! uj + t) * B ^ n + W u1 (Suc uj) n = R + B ^ Suc n"
    using e a(6) unfolding W_Cons add_mult_distrib by linarith
  have w: "W u1 (Suc uj) n < B ^ n" using a(3,4) n(1) by (intro W_less) simp_all
  then have "B * B ^ n < (u ! uj + t + 1) * B ^ n" using x by simp
  then have "B < u ! uj + t + 1" by (simp only: mult_less_cancel2)
  moreover have "u ! uj < B" using ok(1) n(1) by (intro digits_nth) simp_all
  ultimately have y: "u ! uj + t = B" using a(2) by simp
  define u2 where "u2 = u1[uj := 0]"
  have "W u2 uj (Suc n) = W u1 (Suc uj) n"
    using a(4) n(1) W_cong[of "Suc uj" n u2 u1] by (simp add: u2_def W_Cons del: W.simps)
  also have "\<dots> = R" using x y by simp
  finally have "W u2 uj (Suc n) = R" .
  moreover have "add_back v vo n uj q u = Some (q - 1, u2)"
    using a(1,4) n(1) y top q by (simp add: add_back_def u2_def lhalf_mod)
  ultimately show ?thesis using a(3,4,5) by (intro exI[of _ u2]) (simp add: u2_def digits_update)
qed

lemma div_step_spec:
  assumes ok: "digits_ok u" "digits_ok v" and n: "2 \<le> n" "uj + n < length u" "vo + n < length v"
    and v1: "0 < v ! (vo + 1)" and lt: "W u uj (Suc n) < W v (Suc vo) n * B"
  shows "\<exists>u'. div_step v vo n uj u = Some (W u uj (Suc n) div W v (Suc vo) n, u') \<and> digits_ok u' \<and> length u' = length u \<and>
    (\<forall>k. k < uj \<or> uj + n < k \<longrightarrow> u' ! k = u ! k) \<and> W u' uj (Suc n) = W u uj (Suc n) mod W v (Suc vo) n"
proof -
  define U V where "U = W u uj (Suc n)" and "V = W v (Suc vo) n"
  define g where "g = qhat_guess (v ! (vo + 1)) (v ! (vo + 2)) (u ! uj) (u ! (uj + 1)) (u ! (uj + 2))"
  note gb = guess_bounds[OF assms, folded g_def U_def V_def]
  obtain u2 where s: "div_step v vo n uj u = (if U < g * V then add_back v vo n uj g u2 else Some (g, u2))"
    "digits_ok u2" "length u2 = length u" "\<forall>k. k < uj \<or> uj + n < k \<longrightarrow> u2 ! k = u ! k"
    "W u2 uj (Suc n) + g * V = U + (if U < g * V then B ^ Suc n else 0)"
    using div_step_sub[OF ok n g_def gb(3), folded U_def V_def] by blast
  have V: "0 < V" using lt unfolding V_def by (cases "W v (Suc vo) n") auto
  let ?P = "\<lambda>u'. div_step v vo n uj u = Some (U div V, u') \<and> digits_ok u' \<and> length u' = length u \<and>
    (\<forall>k. k < uj \<or> uj + n < k \<longrightarrow> u' ! k = u ! k) \<and> W u' uj (Suc n) = U mod V"
  have "\<exists>u'. ?P u'"
  proof (cases "U < g * V")
    case False
    then have e: "W u2 uj (Suc n) + g * V = U" using s(5) by simp
    then have g: "g = U div V" using gb(1) V False by (simp add: less_eq_div_iff_mult_less_eq le_antisym)
    have "W u2 uj (Suc n) = U mod V" using e div_mult_mod_eq[of U V] unfolding g by linarith
    then show ?thesis using s False g by (intro exI[of _ u2]) (simp del: W.simps)
  next
    case True
    then have "U div V < g" by (simp add: less_mult_imp_div_less)
    then have g: "g = U div V + 1" using gb(2) by simp
    have "g * V = U div V * V + V" using arg_cong[OF g, of "\<lambda>x. x * V"] by (simp only: add_mult_distrib mult_1)
    moreover have "W u2 uj (Suc n) + g * V = U + B ^ Suc n" using s(5) True by (simp only: if_True)
    ultimately have "W u2 uj (Suc n) + V = U mod V + B ^ Suc n" using div_mult_mod_eq[of U V] by linarith
    then show ?thesis using add_back_spec[OF s(2) ok(2) _ n(3), of uj "U mod V" g] s n(2) True g gb(3) by (auto simp: V_def simp del: W.simps)
  qed
  then show ?thesis unfolding U_def V_def .
qed

section \<open>The quotient\<close>

lemma div_loop_spec:
  assumes v: "digits_ok v" "2 \<le> n" "vo + n < length v" "0 < v ! (vo + 1)"
  shows "digits_ok u \<Longrightarrow> uo + j + n + k \<le> length u \<Longrightarrow> qo + j + k \<le> length q \<Longrightarrow> W u (uo + j) n < W v (Suc vo) n \<Longrightarrow>
    \<exists>u' q'. div_loop v vo n uo qo j k (u, q) = Some (u', q') \<and> digits_ok u' \<and> length u' = length u \<and> length q' = length q \<and>
      (\<forall>i. i < uo + j \<or> uo + j + n + k \<le> i \<longrightarrow> u' ! i = u ! i) \<and> (\<forall>i. i < qo + j \<or> qo + j + k \<le> i \<longrightarrow> q' ! i = q ! i) \<and>
      (\<forall>i. uo + j \<le> i \<and> i < uo + j + k \<longrightarrow> u' ! i = 0) \<and> (\<forall>i. qo + j \<le> i \<and> i < qo + j + k \<longrightarrow> q' ! i < B) \<and>
      W u' (uo + j + k) n < W v (Suc vo) n \<and>
      W u (uo + j) (n + k) = W v (Suc vo) n * W q' (qo + j) k + W u' (uo + j) (n + k)"
proof (induction k arbitrary: j u q)
  case 0
  then show ?case by auto
next
  case (Suc k)
  let ?V = "W v (Suc vo) n" and ?U = "W u (uo + j) (Suc n)"
  have "(W u (uo + j) n + 1) * B \<le> ?V * B" using Suc.prems(4) by (intro mult_le_mono1) simp
  moreover have "u ! (uo + j + n) < B" using Suc.prems(1,2) by (intro digits_nth) simp_all
  ultimately have lt: "?U < ?V * B" by simp
  have V: "0 < ?V" "?V < B ^ n" using Suc.prems(4) v W_less[OF v(1), of "Suc vo" n] by simp_all
  obtain u1 where s: "div_step v vo n (uo + j) u = Some (?U div ?V, u1)" "digits_ok u1" "length u1 = length u"
    "\<forall>i. i < uo + j \<or> uo + j + n < i \<longrightarrow> u1 ! i = u ! i" "W u1 (uo + j) (Suc n) = ?U mod ?V"
    using div_step_spec[OF Suc.prems(1) v(1,2) _ v(3,4) lt] Suc.prems(2) by auto
  have r: "W u1 (uo + j) (Suc n) < ?V" unfolding s(5) using V(1) by simp
  then have "u1 ! (uo + j) * B ^ n < 1 * B ^ n" using V(2) unfolding W_Cons by linarith
  then have z: "u1 ! (uo + j) = 0" unfolding mult_less_cancel2 by simp
  have w1: "W u1 (Suc (uo + j)) n = ?U mod ?V" using s(5) z by (simp only: W_Cons)
  define q1 where "q1 = q[qo + j := ?U div ?V]"
  have d: "?U div ?V < B" using lt by (simp add: less_mult_imp_div_less mult.commute)
  obtain u' q' where i: "div_loop v vo n uo qo (j + 1) k (u1, q1) = Some (u', q')" "digits_ok u'" "length u' = length u1"
    "length q' = length q1" "\<forall>i. i < uo + (j + 1) \<or> uo + (j + 1) + n + k \<le> i \<longrightarrow> u' ! i = u1 ! i"
    "\<forall>i. i < qo + (j + 1) \<or> qo + (j + 1) + k \<le> i \<longrightarrow> q' ! i = q1 ! i"
    "\<forall>i. uo + (j + 1) \<le> i \<and> i < uo + (j + 1) + k \<longrightarrow> u' ! i = 0" "\<forall>i. qo + (j + 1) \<le> i \<and> i < qo + (j + 1) + k \<longrightarrow> q' ! i < B"
    "W u' (uo + (j + 1) + k) n < ?V" "W u1 (uo + (j + 1)) (n + k) = ?V * W q' (qo + (j + 1)) k + W u' (uo + (j + 1)) (n + k)"
    using Suc.IH[OF s(2), of "j + 1" q1] Suc.prems(2,3) s(3) w1 r z V by (auto simp: q1_def simp del: W.simps)
  have "div_loop v vo n uo qo j (Suc k) (u, q) = Some (u', q')"
    using s(1) i(1) Suc.prems(3) by (simp add: q1_def del: W.simps)
  moreover have h: "q' ! (qo + j) = ?U div ?V" "u' ! (uo + j) = 0" using i(5,6) Suc.prems(3) z by (simp_all add: q1_def)
  moreover have "W u (uo + j) (n + Suc k) = ?V * W q' (qo + j) (Suc k) + W u' (uo + j) (n + Suc k)"
  proof -
    let ?rest = "W u (uo + j + Suc n) k"
    have "W u1 (Suc (uo + j) + n) k = ?rest" by (simp only: add_Suc add_Suc_right) (rule W_cong, use s(4) in simp)
    then have 1: "W u1 (Suc (uo + j)) (n + k) = ?U mod ?V * B ^ k + ?rest" by (simp only: W_append w1)
    have 2: "W u (uo + j) (n + Suc k) = ?U * B ^ k + ?rest" using W_append[of u "uo + j" "Suc n" k] by (simp only: add_Suc add_Suc_right)
    have 3: "W u' (uo + j) (n + Suc k) = W u' (Suc (uo + j)) (n + k)" by (simp only: add_Suc_right W_Cons h mult_0 add_0)
    have 4: "W q' (qo + j) (Suc k) = ?U div ?V * B ^ k + W q' (Suc (qo + j)) k" by (simp only: W_Cons h)
    have 5: "W u1 (Suc (uo + j)) (n + k) = ?V * W q' (Suc (qo + j)) k + W u' (Suc (uo + j)) (n + k)" using i(10) by (simp del: W.simps)
    have "?U * B ^ k = (?V * (?U div ?V) + ?U mod ?V) * B ^ k" by (simp only: mult_div_mod_eq)
    then show ?thesis unfolding 2 3 4 using 1 5 by (simp only: algebra_simps)
  qed
  moreover have "\<forall>i. i < uo + j \<or> uo + j + n + Suc k \<le> i \<longrightarrow> u' ! i = u ! i" using s(4) i(5) by simp
  moreover have "\<forall>i. i < qo + j \<or> qo + j + Suc k \<le> i \<longrightarrow> q' ! i = q ! i" using i(6) by (simp add: q1_def)
  moreover have "u' ! i = 0" if "uo + j \<le> i" "i < uo + j + Suc k" for i using i(7) h(2) that by (cases "i = uo + j") auto
  moreover have "q' ! i < B" if "qo + j \<le> i" "i < qo + j + Suc k" for i using i(8) h(1) d that by (cases "i = qo + j") auto
  ultimately show ?case using i(2,3,4,9) s(3) by (simp add: q1_def del: W.simps)
qed

section \<open>Shifting digits\<close>

lemma B_split: "sh \<le> 16 \<Longrightarrow> B = 2 ^ (16 - sh) * 2 ^ sh"
  by (simp add: B_def power_add[symmetric])

text \<open>A digit is shifted to a digit and a carry.\<close>

lemma shift_digit:
  assumes "x < B" "sh \<le> 16"
  shows "lhalf (wrap32 (x * 2 ^ sh)) = x mod 2 ^ (16 - sh) * 2 ^ sh" "x * 2 ^ sh = x div 2 ^ (16 - sh) * B + x mod 2 ^ (16 - sh) * 2 ^ sh"
proof -
  have "x * 2 ^ sh < B * 2 ^ 16"
    using assms power_increasing[OF assms(2), of "2 :: nat"] by (intro mult_less_le_imp_less) simp_all
  then have "wrap32 (x * 2 ^ sh) = x * 2 ^ sh" by (simp add: B_def)
  then show "lhalf (wrap32 (x * 2 ^ sh)) = x mod 2 ^ (16 - sh) * 2 ^ sh"
    unfolding lhalf_mod B_split[OF assms(2)] by (simp only: mod_mult_mult2)
  have "x * 2 ^ sh = (x div 2 ^ (16 - sh) * 2 ^ (16 - sh) + x mod 2 ^ (16 - sh)) * 2 ^ sh" by (simp only: div_mult_mod_eq)
  then show "x * 2 ^ sh = x div 2 ^ (16 - sh) * B + x mod 2 ^ (16 - sh) * 2 ^ sh"
    unfolding B_split[OF assms(2)] by (simp only: algebra_simps)
qed

lemma part_less: "a < 2 ^ (16 - sh) \<Longrightarrow> b < 2 ^ sh \<Longrightarrow> sh \<le> 16 \<Longrightarrow> a * 2 ^ sh + b < B"
proof -
  assume a: "a < 2 ^ (16 - sh)" "b < 2 ^ sh" "sh \<le> 16"
  then have "a * 2 ^ sh + b < (a + 1) * 2 ^ sh" by simp
  also have "\<dots> \<le> 2 ^ (16 - sh) * 2 ^ sh" using a by (intro mult_le_mono1) simp
  finally show ?thesis using B_split[OF a(3)] by simp
qed

lemma shl_loop_spec:
  "digits_ok p \<Longrightarrow> i + len < length p \<Longrightarrow> sh \<le> 16 \<Longrightarrow>
   \<exists>p'. shl_loop i len sh p = Some p' \<and> digits_ok p' \<and> length p' = length p \<and>
     (\<forall>k. k < i \<or> i + len < k \<longrightarrow> p' ! k = p ! k) \<and>
     p ! i div 2 ^ (16 - sh) * B ^ Suc len + W p' i (Suc len) = W p i (Suc len) * 2 ^ sh"
proof (induction len arbitrary: i p)
  case 0
  have x: "p ! i < B" using 0 by (auto intro: digits_nth)
  have "p ! i mod 2 ^ (16 - sh) * 2 ^ sh < B" using part_less[of "p ! i mod 2 ^ (16 - sh)" sh 0] 0(3) by simp
  then show ?case using 0 shift_digit[OF x 0(3)] by (simp add: digits_update)
next
  case (Suc len)
  define x y where "x = p ! i" and "y = p ! Suc i"
  have d: "x < B" "y < B" using Suc.prems by (auto simp: x_def y_def intro: digits_nth)
  define c where "c = y div 2 ^ (16 - sh)"
  have "y < 2 ^ sh * 2 ^ (16 - sh)" using d(2) B_split[OF Suc.prems(3)] by (simp add: mult.commute)
  then have c: "c < 2 ^ sh" unfolding c_def by (rule less_mult_imp_div_less)
  define z where "z = x mod 2 ^ (16 - sh) * 2 ^ sh + c"
  have z: "lhalf (wrap32 (x * 2 ^ sh)) OR c = z" "z < B"
    unfolding z_def shift_digit(1)[OF d(1) Suc.prems(3)] using or_add[OF c] part_less[OF _ c Suc.prems(3)] by simp_all
  define p1 where "p1 = p[i := z]"
  have ok: "digits_ok p1" "length p1 = length p" using Suc.prems(1) z(2) by (simp_all add: p1_def digits_update)
  have e: "shl_loop i (Suc len) sh p = shl_loop (Suc i) len sh p1"
    using Suc.prems(2) z(1) by (simp add: x_def y_def c_def p1_def)
  obtain p' where r: "shl_loop (Suc i) len sh p1 = Some p'" "digits_ok p'" "length p' = length p1"
    "\<forall>k. k < Suc i \<or> Suc i + len < k \<longrightarrow> p' ! k = p1 ! k"
    "p1 ! Suc i div 2 ^ (16 - sh) * B ^ Suc len + W p' (Suc i) (Suc len) = W p1 (Suc i) (Suc len) * 2 ^ sh"
    using Suc.IH[OF ok(1), of "Suc i"] Suc.prems ok(2) by auto
  have w: "W p1 (Suc i) (Suc len) = W p (Suc i) (Suc len)" by (rule W_cong) (simp add: p1_def)
  have t: "p' ! i = z" "p1 ! Suc i = y" using r(4) Suc.prems(2) by (simp_all add: p1_def y_def)
  have "W p i (Suc (Suc len)) * 2 ^ sh = x * 2 ^ sh * B ^ Suc len + W p (Suc i) (Suc len) * 2 ^ sh"
    unfolding W_Cons[of p i] x_def by (simp only: algebra_simps)
  also have "\<dots> = x div 2 ^ (16 - sh) * B ^ Suc (Suc len) + (z * B ^ Suc len + W p' (Suc i) (Suc len))"
    unfolding w[symmetric] r(5)[symmetric, unfolded t, folded c_def] shift_digit(2)[OF d(1) Suc.prems(3)] z_def power_Suc[of B "Suc len"]
    by (simp only: algebra_simps)
  also have "z * B ^ Suc len + W p' (Suc i) (Suc len) = W p' i (Suc (Suc len))" unfolding W_Cons[of p' i] t ..
  finally have "x div 2 ^ (16 - sh) * B ^ Suc (Suc len) + W p' i (Suc (Suc len)) = W p i (Suc (Suc len)) * 2 ^ sh" by simp
  then show ?case using e r(1-4) ok by (auto simp: p1_def x_def simp del: W.simps power_Suc)
qed

lemma shl_spec:
  assumes "digits_ok p" "i + len < length p" "d < 16" "p ! i * 2 ^ d < B"
  shows "\<exists>p'. (if d > 0 then shl i len d p else Some p) = Some p' \<and> digits_ok p' \<and> length p' = length p \<and>
     (\<forall>k. k < i \<or> i + len < k \<longrightarrow> p' ! k = p ! k) \<and> W p' i (Suc len) = W p i (Suc len) * 2 ^ d"
proof (cases "d = 0")
  case False
  have "p ! i * 2 ^ d < 2 ^ (16 - d) * 2 ^ d" using assms(3,4) B_split[of d] by simp
  then have "p ! i < 2 ^ (16 - d)" by (simp only: mult_less_cancel2)
  then have "p ! i div 2 ^ (16 - d) = 0" by simp
  then show ?thesis using shl_loop_spec[OF assms(1,2), of d] assms(3) False by (simp add: shl_def del: W.simps power_Suc)
qed (use assms in simp)

lemma norm_shift_spec: "0 < t \<Longrightarrow> t < B \<Longrightarrow> \<exists>d. norm_shift t e = Some (e + d) \<and> t * 2 ^ d < B"
proof (induction t e rule: norm_shift.induct)
  case (1 t e)
  show ?case
  proof (cases "t < B div 2")
    case True
    then have "t * 2 < B" by (simp add: B_def)
    then obtain d where "norm_shift (t * 2) (e + 1) = Some (e + 1 + d)" "t * 2 * 2 ^ d < B" using 1 True by auto
    then show ?thesis using True 1(2) by (intro exI[of _ "Suc d"]) (simp add: norm_shift.simps[of t e] mult.assoc)
  next
    case False
    then show ?thesis using 1(2,3) by (intro exI[of _ 0]) (simp add: norm_shift.simps[of t e])
  qed
qed

lemma unshift_spec:
  "digits_ok u \<Longrightarrow> um + k < length u \<Longrightarrow> d \<le> 16 \<Longrightarrow>
   \<exists>u'. unshift um d k u = Some u' \<and> digits_ok u' \<and> length u' = length u \<and> u' ! um = 0 \<and>
     (\<forall>i. i < um \<or> um + k < i \<longrightarrow> u' ! i = u ! i) \<and>
     u ! um div 2 ^ d * B ^ k + W u' (Suc um) k = W u um (Suc k) div 2 ^ d"
proof (induction k arbitrary: u)
  case 0
  then show ?case by (simp add: digits_update)
next
  case (Suc k)
  define x y where "x = u ! (um + Suc k)" and "y = u ! (um + k)"
  have d: "x < B" "y < B" using Suc.prems by (auto simp: x_def y_def intro: digits_nth)
  have d16: "16 - (16 - d) = d" "16 - d \<le> 16" using Suc.prems(3) by simp_all
  have c: "x div 2 ^ d < 2 ^ (16 - d)"
    using d(1) B_split[OF Suc.prems(3)] by (intro less_mult_imp_div_less) simp
  define z where "z = y mod 2 ^ d * 2 ^ (16 - d) + x div 2 ^ d"
  have z: "x div 2 ^ d OR lhalf (wrap32 (y * 2 ^ (16 - d))) = z" "z < B"
    unfolding z_def shift_digit(1)[OF d(2) d16(2), unfolded d16(1)]
    using or_add[OF c, of "y mod 2 ^ d"] part_less[of "y mod 2 ^ d" "16 - d" "x div 2 ^ d"] c d16 by (simp_all add: or.commute)
  define u1 where "u1 = u[um + Suc k := z]"
  have ok: "digits_ok u1" "length u1 = length u" using Suc.prems(1) z(2) by (simp_all add: u1_def digits_update)
  have e: "unshift um d (Suc k) u = unshift um d k u1" using Suc.prems(2) z(1) by (simp add: x_def y_def u1_def)
  obtain u' where r: "unshift um d k u1 = Some u'" "digits_ok u'" "length u' = length u1" "u' ! um = 0"
    "\<forall>i. i < um \<or> um + k < i \<longrightarrow> u' ! i = u1 ! i" "u1 ! um div 2 ^ d * B ^ k + W u' (Suc um) k = W u1 um (Suc k) div 2 ^ d"
    using Suc.IH[OF ok(1)] Suc.prems(2,3) ok(2) by auto
  let ?G = "W u um (Suc k)"
  have G: "W u1 um (Suc k) = ?G" by (rule W_cong) (simp add: u1_def)
  have "?G = y + W u um k * 2 ^ (16 - d) * 2 ^ d"
    unfolding W.simps y_def by (subst B_split[OF Suc.prems(3)]) (simp only: algebra_simps)
  then have m: "?G mod 2 ^ d = y mod 2 ^ d" by (simp only: mod_mult_self1)
  have "?G * B = (?G div 2 ^ d * 2 ^ d + ?G mod 2 ^ d) * B" by (simp only: div_mult_mod_eq)
  also have "\<dots> = 2 ^ d * (?G div 2 ^ d * B + y mod 2 ^ d * 2 ^ (16 - d))"
    unfolding m by (subst (2) B_split[OF Suc.prems(3)], subst B_split[OF Suc.prems(3)]) (simp only: algebra_simps)
  finally have "(?G * B + x) div 2 ^ d = (?G div 2 ^ d * B + y mod 2 ^ d * 2 ^ (16 - d)) + x div 2 ^ d" by (simp only: div_mult_self4[OF power_not_zero] zero_neq_numeral[symmetric] not_False_eq_True)
  then have q: "W u um (Suc (Suc k)) div 2 ^ d = ?G div 2 ^ d * B + z" unfolding W.simps(2)[of u um "Suc k"] x_def z_def by (simp only: add.assoc)
  have t: "u' ! (Suc um + k) = z" "u1 ! um = u ! um" using r(5) Suc.prems(2) by (simp_all add: u1_def)
  have "u ! um div 2 ^ d * B ^ Suc k + W u' (Suc um) (Suc k) = (u ! um div 2 ^ d * B ^ k + W u' (Suc um) k) * B + z"
    unfolding W.simps(2)[of u' "Suc um" k] t(1) by (simp only: algebra_simps power_Suc)
  then have "u ! um div 2 ^ d * B ^ Suc k + W u' (Suc um) (Suc k) = W u um (Suc (Suc k)) div 2 ^ d"
    unfolding q r(6)[unfolded t(2) G] .
  then show ?case using e r(1-5) ok by (auto simp: u1_def simp del: W.simps power_Suc)
qed

section \<open>Numbers and their digits\<close>

lemma unat_halves: "unat a = unat (hi a) * 2 ^ 32 + unat (lo a)"
proof -
  have "int (unat a) = int (unat (hi a) * 2 ^ 32 + unat (lo a))" using uint_halves[of a] by simp
  then show ?thesis by (simp only: of_nat_eq_iff)
qed

lemma half_digits: "hhalf (unat w) < B" "hhalf (unat w) * B + lhalf (unat w) = unat w" for w :: "32 word"
proof -
  have "unat w < B * B" using unsigned_less[where 'a = nat and 'b = 32, of w] by (simp add: B_def)
  then show "hhalf (unat w) < B" by (simp add: hhalf_div less_mult_imp_div_less)
  show "hhalf (unat w) * B + lhalf (unat w) = unat w" by (simp add: hhalf_div lhalf_mod)
qed

lemma digits4_spec: "digits_ok (0 # digits4 x)" "W (0 # digits4 x) 1 4 = unat x" "length (0 # digits4 x) = 5" "(0 # digits4 x) ! 0 = 0"
proof -
  show "digits_ok (0 # digits4 x)" using half_digits by (simp add: digits_ok_def digits4_def)
  have "unat x = (hhalf (unat (hi x)) * B + lhalf (unat (hi x))) * (B * B) + (hhalf (unat (lo x)) * B + lhalf (unat (lo x)))"
    unfolding half_digits unat_halves[of x] by (simp add: B_def)
  then show "W (0 # digits4 x) 1 4 = unat x" by (simp add: digits4_def eval_nat_numeral algebra_simps)
qed (simp_all add: digits4_def)

lemma join_of_nat:
  assumes "h < 2 ^ 32" "l < 2 ^ 32"
  shows "join (of_nat h) (of_nat l) = of_nat (h * 2 ^ 32 + l)"
proof -
  have "(ucast (of_nat x :: 32 word) :: 64 word) = of_nat x" if "x < 2 ^ 32" for x
    using that by (simp add: unsigned_of_nat take_bit_nat_eq_self)
  then show ?thesis unfolding join_eq using assms by simp
qed

lemma combine4_spec:
  assumes "p ! 1 < B" "p ! 2 < B" "p ! 3 < B" "p ! 4 < B"
  shows "combine4 p = of_nat (W p 1 4)"
proof -
  have "p ! 1 * B + p ! 2 < 2 ^ 32" "p ! 3 * B + p ! 4 < 2 ^ 32" using assms by (simp_all add: B_def)
  moreover have "W p 1 4 = (p ! 1 * B + p ! 2) * (B * B) + (p ! 3 * B + p ! 4)" by (simp add: eval_nat_numeral algebra_simps)
  moreover have "B * B = 2 ^ 32" by (simp add: B_def)
  ultimately show ?thesis unfolding combine4_def using assms by (simp only: COMBINE_add join_of_nat)
qed

lemma W_zero: "(\<And>i. a \<le> i \<Longrightarrow> i < a + n \<Longrightarrow> u ! i = 0) \<Longrightarrow> W u a n = 0"
  by (induction n) auto

lemma W_drop_zeros:
  assumes "\<And>i. 1 \<le> i \<Longrightarrow> i \<le> z \<Longrightarrow> u ! i = 0" "z + l = 4"
  shows "W u 1 4 = W u (Suc z) l"
proof -
  have "W u 1 z = 0" by (rule W_zero) (use assms(1) in simp)
  then show ?thesis using W_append[of u 1 z l] unfolding assms(2) by simp
qed

lemma skip_zeros_spec:
  "\<exists>i>uo. i < length u \<and> u ! i \<noteq> 0 \<Longrightarrow>
   \<exists>k. skip_zeros u uo = Some k \<and> uo \<le> k \<and> k + 1 < length u \<and> u ! (k + 1) \<noteq> 0 \<and> (\<forall>i. uo < i \<and> i \<le> k \<longrightarrow> u ! i = 0)"
proof (induction u uo rule: skip_zeros.induct)
  case (1 u uo)
  then obtain i where i: "uo < i" "i < length u" "u ! i \<noteq> 0" by blast
  then have l: "uo + 1 < length u" by simp
  show ?case
  proof (cases "u ! (uo + 1) = 0")
    case True
    then have "uo + 1 < i" using i by (cases "i = uo + 1") auto
    then obtain k where "skip_zeros u (uo + 1) = Some k" "uo + 1 \<le> k" "k + 1 < length u" "u ! (k + 1) \<noteq> 0"
      "\<forall>i. uo + 1 < i \<and> i \<le> k \<longrightarrow> u ! i = 0"
      using 1(1)[of "u ! (uo + 1)"] True l i by auto
    moreover have "u ! i = 0" if "uo < i" "i \<le> k" for i using calculation(5) True that by (cases "i = uo + 1") auto
    ultimately show ?thesis using True l by (auto simp: skip_zeros.simps[of u uo])
  next
    case False
    then show ?thesis using l by (auto simp: skip_zeros.simps[of u uo])
  qed
qed

lemma divisor_len_spec:
  fixes v :: "nat list"
  defines "n \<equiv> divisor_len v 4"
  shows "1 \<le> n" "n \<le> 4" "\<And>i. 1 \<le> i \<Longrightarrow> i \<le> 4 - n \<Longrightarrow> v ! i = 0" "2 \<le> n \<Longrightarrow> v ! (5 - n) \<noteq> 0"
proof -
  have "1 \<le> n \<and> n \<le> 4 \<and> (\<forall>i. 1 \<le> i \<and> i \<le> 4 - n \<longrightarrow> v ! i = 0) \<and> (2 \<le> n \<longrightarrow> v ! (5 - n) \<noteq> 0)"
    by (auto simp: n_def eval_nat_numeral le_Suc_eq)
  then show "1 \<le> n" "n \<le> 4" "\<And>i. 1 \<le> i \<Longrightarrow> i \<le> 4 - n \<Longrightarrow> v ! i = 0" "2 \<le> n \<Longrightarrow> v ! (5 - n) \<noteq> 0" by blast+
qed

section \<open>Correctness\<close>

lemma word_of_div_mod: "of_nat (unat a div unat b) = a div b" "of_nat (unat a mod unat b) = a mod b" for a b :: "64 word"
  by (simp_all add: unat_div[symmetric] unat_mod[symmetric])

lemma short_step: "r < t \<Longrightarrow> t < B \<Longrightarrow> x < B \<Longrightarrow> COMBINE r x = r * B + x \<and> (r * B + x) div t < B"
proof -
  assume a: "r < t" "t < B" "x < B"
  have "r * B + x < (r + 1) * B" using a by simp
  also have "\<dots> \<le> t * B" using a by (intro mult_le_mono1) simp
  finally have "(r * B + x) div t < B" by (simp add: less_mult_imp_div_less mult.commute)
  then show ?thesis using a by (simp add: COMBINE_add)
qed

lemma div_short_spec:
  assumes "digits_ok u" "length u = 5" "0 < t" "t < B"
  shows "div_short u t = (of_nat (W u 1 4 div t), of_nat (W u 1 4 mod t))"
proof -
  define r1 r2 r3 where "r1 = u ! 1 mod t" and "r2 = (r1 * B + u ! 2) mod t" and "r3 = (r2 * B + u ! 3) mod t"
  have d: "u ! 1 < B" "u ! 2 < B" "u ! 3 < B" "u ! 4 < B" using assms(1,2) by (auto intro: digits_nth)
  have r: "r1 < t" "r2 < t" "r3 < t" using assms(3) by (simp_all add: r1_def r2_def r3_def)
  note s = short_step[OF r(1) assms(4) d(2)] short_step[OF r(2) assms(4) d(3)] short_step[OF r(3) assms(4) d(4)]
  define q1 q2 q3 q4 where "q1 = u ! 1 div t" and "q2 = (r1 * B + u ! 2) div t" and "q3 = (r2 * B + u ! 3) div t"
    and "q4 = (r3 * B + u ! 4) div t"
  have q: "q1 < B" "q2 < B" "q3 < B" "q4 < B" using s le_less_trans[OF div_le_dividend d(1)] by (simp_all add: q1_def q2_def q3_def q4_def)
  have e: "u ! 1 = q1 * t + r1" "r1 * B + u ! 2 = q2 * t + r2" "r2 * B + u ! 3 = q3 * t + r3"
    by (simp_all add: q1_def q2_def q3_def r1_def r2_def r3_def)
  define Q where "Q = (q1 * B + q2) * 2 ^ 32 + (q3 * B + q4)"
  have "W u 1 4 = ((u ! 1 * B + u ! 2) * B + u ! 3) * B + u ! 4" by (simp add: eval_nat_numeral)
  also have "u ! 1 * B + u ! 2 = (q1 * B + q2) * t + r2" unfolding e(1) using e(2) by (simp add: algebra_simps)
  also have "((q1 * B + q2) * t + r2) * B + u ! 3 = ((q1 * B + q2) * B + q3) * t + r3" using e(3) by (simp add: algebra_simps)
  finally have "W u 1 4 = ((q1 * B + q2) * B + q3) * B * t + (r3 * B + u ! 4)" by (simp only: algebra_simps)
  also have "r3 * B + u ! 4 = q4 * t + (r3 * B + u ! 4) mod t" by (simp add: q4_def)
  finally have "W u 1 4 = Q * t + (r3 * B + u ! 4) mod t" by (simp add: Q_def B_def algebra_simps)
  then have Q: "W u 1 4 div t = Q" "W u 1 4 mod t = (r3 * B + u ! 4) mod t" using assms(3) by simp_all
  have "q1 * B + q2 < 2 ^ 32" "q3 * B + q4 < 2 ^ 32" using q by (simp_all add: B_def)
  then show ?thesis
    unfolding div_short_def Let_def Q r1_def[symmetric] q1_def[symmetric] using s q
    by (simp add: r2_def[symmetric] r3_def[symmetric] q2_def[symmetric] q3_def[symmetric] q4_def[symmetric]
        lhalf_mod COMBINE_add join_of_nat Q_def del: of_nat_add of_nat_mult)
qed

text \<open>The shifted operands satisfy the invariant of the loop.\<close>

lemma W_ge: "0 < u ! a \<Longrightarrow> 0 < n \<Longrightarrow> B ^ (n - 1) \<le> W u a n"
proof -
  assume a: "0 < u ! a" "0 < n"
  have "1 * B ^ (n - 1) \<le> u ! a * B ^ (n - 1)" using a(1) by (intro mult_le_mono1) simp
  also have "\<dots> \<le> W u a n" using W_Cons[of u a "n - 1"] a(2) by simp
  finally show ?thesis by (simp only: mult_1)
qed

lemma loop_start:
  assumes "W u uo (n + Suc m) < B ^ (n + m) * 2 ^ d" "B ^ (n - 1) * 2 ^ d \<le> V" "0 < n"
  shows "W u uo n < V"
proof -
  have "W u uo n * B ^ Suc m \<le> W u uo (n + Suc m)" by (simp only: W_append le_add1)
  also have "\<dots> < B ^ (n + m) * 2 ^ d" by (rule assms(1))
  also have "B ^ (n + m) = B ^ (n - 1) * B ^ Suc m" using assms(3) by (cases n) (simp_all add: power_add)
  finally have "W u uo n * B ^ Suc m < B ^ (n - 1) * 2 ^ d * B ^ Suc m" by (simp only: ac_simps)
  then have "W u uo n < B ^ (n - 1) * 2 ^ d" by (simp only: mult_less_cancel2)
  then show ?thesis using assms(2) by simp
qed

text \<open>The quotient and the remainder of the shifted operands give those of the operands.\<close>

lemma unscale:
  fixes U V :: nat
  assumes "U * 2 ^ d = V * 2 ^ d * Q + R" "R < V * 2 ^ d"
  shows "U div V = Q" "R div 2 ^ d = U mod V"
proof -
  define D where "D = V * 2 ^ d"
  have e: "U * 2 ^ d = D * Q + R" "R < D" using assms by (simp_all only: D_def)
  then have q: "U * 2 ^ d div D = Q" "U * 2 ^ d mod D = R" by (simp_all only:) simp_all
  then show "U div V = Q" unfolding D_def by (simp only: div_mult_mult2[OF power_not_zero] zero_neq_numeral[symmetric] not_False_eq_True)
  have "R = U mod V * 2 ^ d" using q(2) unfolding D_def by (simp only: mod_mult_mult2)
  then show "R div 2 ^ d = U mod V" by simp
qed

text \<open>The loop and the two results.\<close>

lemma div_loop_result:
  assumes v: "digits_ok v" "length v = 5" "2 \<le> n" "vo + n = 4" "0 < v ! (vo + 1)" and u: "digits_ok u" "length u = 5" "uo + n + m = 4"
    and lt: "W u uo n < W v (Suc vo) n" and q: "length q = 5" "\<And>i. i < 4 - m \<Longrightarrow> q ! i = 0"
  shows "\<exists>u' q' Q. div_loop v vo n uo (4 - m) 0 (m + 1) (u, q) = Some (u', q') \<and> digits_ok u' \<and> length u' = 5 \<and>
    (\<forall>i<uo. u' ! i = u ! i) \<and> (\<forall>i. uo \<le> i \<and> i \<le> uo + m \<longrightarrow> u' ! i = 0) \<and> combine4 q' = of_nat Q \<and>
    W u' (Suc (uo + m)) n < W v (Suc vo) n \<and> W u uo (n + Suc m) = W v (Suc vo) n * Q + W u' (Suc (uo + m)) n"
proof -
  have m: "m \<le> 2" using u(3) v(3) by simp
  obtain u' q' where r: "div_loop v vo n uo (4 - m) 0 (m + 1) (u, q) = Some (u', q')" "digits_ok u'" "length u' = 5"
    and i: "\<forall>i<uo. u' ! i = u ! i" "\<forall>i. i < 4 - m \<longrightarrow> q' ! i = q ! i" "\<forall>i. uo \<le> i \<and> i < uo + (m + 1) \<longrightarrow> u' ! i = 0"
      "\<forall>i. 4 - m \<le> i \<and> i < 4 - m + (m + 1) \<longrightarrow> q' ! i < B" and w: "W u' (uo + (m + 1)) n < W v (Suc vo) n"
      "W u uo (n + (m + 1)) = W v (Suc vo) n * W q' (4 - m) (m + 1) + W u' uo (n + (m + 1))"
    using div_loop_spec[OF v(1,3) _ v(5) u(1), of uo 0 "m + 1" "4 - m" q] v(2,4) u(2,3) lt q(1) m by (auto simp del: W.simps)
  have q0: "q' ! i = 0" if "i < 4 - m" for i using that i(2) q(2) by simp
  have qB: "q' ! i < B" if "i \<le> 4" for i
    using that q0[of i] i(4) m by (cases "i < 4 - m") simp_all
  have "W q' 1 4 = W q' (Suc (3 - m)) (m + 1)" by (rule W_drop_zeros) (use q0 m in simp_all)
  also have "Suc (3 - m) = 4 - m" using m by simp
  finally have Q: "combine4 q' = of_nat (W q' (4 - m) (m + 1))" using combine4_spec[of q'] qB by simp
  have "W u' uo (m + 1) = 0" by (rule W_zero) (use i(3) in simp)
  then have "W u' uo (m + 1 + n) = W u' (uo + (m + 1)) n" by (simp only: W_append mult_0 add_0)
  then show ?thesis using r i(1,3) w Q
    by (intro exI[of _ u'] exI[of _ q'] exI[of _ "W q' (4 - m) (m + 1)"]) (simp add: add.commute[of n] less_Suc_eq_le del: W.simps)
qed

lemma unshift_result:
  assumes u: "digits_ok u" "length u = 5" "um + n = 4" and z: "\<And>i. i \<le> um \<Longrightarrow> u ! i = 0" and d: "d < 16"
  shows "\<exists>u'. (if d > 0 then unshift um d n u else Some u) = Some u' \<and> combine4 u' = of_nat (W u (Suc um) n div 2 ^ d)"
proof -
  obtain u' where r: "(if d > 0 then unshift um d n u else Some u) = Some u'" "digits_ok u'" "length u' = 5"
    "\<And>i. i \<le> um \<Longrightarrow> u' ! i = 0" "W u' (Suc um) n = W u um (Suc n) div 2 ^ d"
  proof (cases "d = 0")
    case True
    then show ?thesis using that[of u] u z by (simp add: W_Cons del: W.simps)
  next
    case False
    obtain u' where s: "unshift um d n u = Some u'" "digits_ok u'" "length u' = 5" "u' ! um = 0" "\<forall>i<um. u' ! i = u ! i"
      "W u' (Suc um) n = W u um (Suc n) div 2 ^ d"
      using unshift_spec[OF u(1), of um n d] u(2,3) d z[of um] by (auto simp del: W.simps)
    have "u' ! i = 0" if "i \<le> um" for i using that s(4,5) z[of i] by (cases "i = um") simp_all
    then show ?thesis using that[of u'] False s by (simp del: W.simps)
  qed
  have "combine4 u' = of_nat (W u' 1 4)" using r(2,3) by (intro combine4_spec digits_nth) simp_all
  also have "W u' 1 4 = W u' (Suc um) n" by (rule W_drop_zeros) (use r(4) u(3) in simp_all)
  also have "\<dots> = W u (Suc um) n div 2 ^ d" unfolding r(5) using z[of um] by (simp add: W_Cons del: W.simps)
  finally show ?thesis using r(1) by blast
qed

lemma program_D_run:
  assumes u: "digits_ok u" "length u = 5" and v: "digits_ok v" "length v = 5" and j: "length junk = 5"
    and n: "2 \<le> n" "vo + n = 4" "0 < v ! (vo + 1)" and uo: "skip_zeros u 0 = Some uo" "uo + n + m = 4" "\<And>i. i \<le> uo \<Longrightarrow> u ! i = 0"
    and U: "U = W u (Suc uo) (n + m)" and V: "V = W v (Suc vo) n"
  shows "program_D junk n u v = Some (of_nat (U div V), of_nat (U mod V))"
proof -
  have vo: "4 - n = vo" "vo - uo = m" using n(2) uo(2) by simp_all
  have "v ! (vo + 1) < B" using v n by (intro digits_nth) simp_all
  then obtain d where d: "norm_shift (v ! (vo + 1)) 0 = Some d" "v ! (vo + 1) * 2 ^ d < B" using norm_shift_spec[OF n(3), of 0] by auto
  have "1 * 2 ^ d \<le> v ! (vo + 1) * 2 ^ d" using n(3) by (intro mult_le_mono1) simp
  also have "\<dots> < 2 ^ 16" using d(2) by (simp only: B_def)
  finally have "2 ^ d < (2 :: nat) ^ 16" by (simp only: mult_1)
  then have d16: "d < 16" by (rule power_less_imp_less_exp[rotated]) simp
  obtain u1 where u1: "(if d > 0 then shl uo (m + n) d u else Some u) = Some u1" "digits_ok u1" "length u1 = 5"
    "\<forall>k. k < uo \<or> uo + (m + n) < k \<longrightarrow> u1 ! k = u ! k" "W u1 uo (Suc (m + n)) = W u uo (Suc (m + n)) * 2 ^ d"
    using shl_spec[OF u(1) _ d16, of uo "m + n"] u(2) uo(2,3) by auto
  obtain v1 where v1: "(if d > 0 then shl (vo + 1) (n - 1) d v else Some v) = Some v1" "digits_ok v1" "length v1 = 5"
    "W v1 (vo + 1) (Suc (n - 1)) = W v (vo + 1) (Suc (n - 1)) * 2 ^ d"
    using shl_spec[OF v(1) _ d16 d(2), of "n - 1"] v(2) n by auto
  have U1: "W u1 uo (n + Suc m) = U * 2 ^ d" using u1(5) uo(3)[of uo] by (simp add: U W_Cons add.commute[of m] del: W.simps)
  have V1: "W v1 (Suc vo) n = V * 2 ^ d" using v1(4) n(1) by (simp add: V del: W.simps)
  have Vge: "B ^ (n - 1) \<le> V" unfolding V by (rule W_ge) (use n in simp_all)
  have "U < B ^ (n + m)" unfolding U by (rule W_less) (use u uo(2) in simp_all)
  then have Ud: "W u1 uo (n + Suc m) < B ^ (n + m) * 2 ^ d" unfolding U1 by simp
  have Vd: "B ^ (n - 1) * 2 ^ d \<le> V * 2 ^ d" using Vge by (rule mult_le_mono1)
  have lt: "W u1 uo n < W v1 (Suc vo) n" unfolding V1 by (rule loop_start[OF Ud Vd]) (use n(1) in simp)
  have top: "0 < v1 ! (vo + 1)"
  proof (rule ccontr)
    assume "\<not> ?thesis"
    then have "W v1 (Suc vo) n = W v1 (Suc (Suc vo)) (n - 1)" using W_Cons[of v1 "Suc vo" "n - 1"] n(1) by (simp del: W.simps)
    also have "\<dots> < B ^ (n - 1)" by (rule W_less) (use v1 n in simp_all)
    also have "\<dots> \<le> B ^ (n - 1) * 2 ^ d" by simp
    finally show False using Vd unfolding V1 by simp
  qed
  let ?q = "replicate (4 - m) 0 @ drop (4 - m) junk"
  obtain u2 q2 Q where l: "div_loop v1 vo n uo (4 - m) 0 (m + 1) (u1, ?q) = Some (u2, q2)" "digits_ok u2" "length u2 = 5"
    "\<forall>i<uo. u2 ! i = u1 ! i" "\<forall>i. uo \<le> i \<and> i \<le> uo + m \<longrightarrow> u2 ! i = 0" "combine4 q2 = of_nat Q"
    "W u2 (Suc (uo + m)) n < V * 2 ^ d" "U * 2 ^ d = V * 2 ^ d * Q + W u2 (Suc (uo + m)) n"
    using div_loop_result[OF v1(2,3) n(1,2) top u1(2,3) uo(2) lt, of ?q] j uo(2) unfolding U1 V1
    by (auto simp: nth_append simp del: W.simps)
  note r = unscale[OF l(8,7)]
  have z: "u2 ! i = 0" if "i \<le> uo + m" for i
    using that l(4,5) u1(4) uo(3)[of i] by (cases "i < uo") simp_all
  have um: "uo + m + n = 4" using uo(2) by simp
  obtain u3 where "(if d > 0 then unshift (uo + m) d n u2 else Some u2) = Some u3" "combine4 u3 = of_nat (U mod V)"
    using unshift_result[OF l(2,3) um z d16] unfolding r(2) by blast
  moreover have "aget v (vo + 1) = Some (v ! (vo + 1))" using v n by (simp add: aget_def)
  ultimately show ?thesis
    unfolding program_D_def Let_def vo using uo(1) d(1) u1(1) v1(1) l(1,6) by (simp only: bind.bind_lunit prod.case vo r(1))
qed

text \<open>The lengths that the code finds for the operands.\<close>

lemma program_D_spec:
  assumes u: "digits_ok u" "length u = 5" "u ! 0 = 0" and v: "digits_ok v" "length v = 5" and j: "length junk = 5"
    and n: "n = divisor_len v 4" "n \<noteq> 1" and le: "W v 1 4 \<le> W u 1 4" and pos: "0 < W v 1 4"
  shows "program_D junk n u v = Some (of_nat (W u 1 4 div W v 1 4), of_nat (W u 1 4 mod W v 1 4))"
proof -
  note dl = divisor_len_spec[where v = v, folded n(1)]
  have n2: "2 \<le> n" using dl(1) n(2) by simp
  define vo where "vo = 4 - n"
  have vo: "vo + n = 4" "5 - n = vo + 1" using dl(2) by (simp_all add: vo_def)
  have V: "W v 1 4 = W v (Suc vo) n" by (rule W_drop_zeros) (use dl(3) vo in \<open>simp_all add: vo_def\<close>)
  have vt: "0 < v ! (vo + 1)" using dl(4)[OF n2] unfolding vo(2) by simp
  have "\<exists>i>0. i < length u \<and> u ! i \<noteq> 0"
  proof (rule ccontr)
    assume "\<not> ?thesis"
    then have "W u 1 4 = 0" by (intro W_zero) (auto simp: u(2))
    then show False using le pos by simp
  qed
  then obtain uo where uo: "skip_zeros u 0 = Some uo" "uo + 1 < 5" "\<forall>i. 0 < i \<and> i \<le> uo \<longrightarrow> u ! i = 0"
    using skip_zeros_spec[of 0 u] u(2) by auto
  have z: "u ! i = 0" if "i \<le> uo" for i using that uo(3) u(3) by (cases "i = 0") simp_all
  have U: "W u 1 4 = W u (Suc uo) (4 - uo)" by (rule W_drop_zeros) (use z uo(2) in simp_all)
  have "B ^ (n - 1) \<le> W v 1 4" unfolding V by (rule W_ge) (use n2 vt in simp_all)
  also have "\<dots> \<le> W u (Suc uo) (4 - uo)" using le unfolding U .
  also have "\<dots> < B ^ (4 - uo)" by (rule W_less) (use u uo(2) in simp_all)
  finally have "n - 1 < 4 - uo" by (rule power_less_imp_less_exp[rotated]) (simp add: B_def)
  then have m: "uo + n + (4 - uo - n) = 4" "n + (4 - uo - n) = 4 - uo" using uo(2) n2 by simp_all
  show ?thesis unfolding U V
    using program_D_run[OF u(1,2) v j n2 vo(1) vt uo(1) m(1) z refl refl] unfolding m(2) by simp
qed

lemma qdivrem_spec:
  assumes "length junk = 5" "vll \<noteq> 0"
  shows "qdivrem junk ull vll = Some (ull div vll, ull mod vll)"
proof (cases "ull < vll")
  case True
  then have "unat ull < unat vll" by (simp add: word_less_nat_alt)
  then have "ull div vll = 0" "ull mod vll = ull" using word_of_div_mod[of ull vll] by simp_all
  then show ?thesis using True assms by (simp add: qdivrem_def)
next
  case False
  define u v where "u = 0 # digits4 ull" and "v = 0 # digits4 vll"
  note us = digits4_spec[of ull, folded u_def] and vs = digits4_spec[of vll, folded v_def]
  have vp: "0 < W v 1 4" using assms(2) vs(2) by (simp add: unat_gt_0)
  have le: "W v 1 4 \<le> W u 1 4" using False unfolding us vs by (simp add: word_le_nat_alt not_less)
  have e: "qdivrem junk ull vll =
      (if divisor_len v 4 = 1 then Some (div_short u (v ! 4)) else program_D junk (divisor_len v 4) u v)"
    using False assms(2) by (simp add: qdivrem_def u_def v_def Let_def)
  show ?thesis
  proof (cases "divisor_len v 4 = 1")
    case True
    have "W v 1 4 = W v (Suc 3) 1" by (rule W_drop_zeros) (use divisor_len_spec(3)[where v = v] True in simp_all)
    then have "W v 1 4 = v ! 4" by simp
    moreover have "v ! 4 < B" using vs by (intro digits_nth) simp_all
    ultimately show ?thesis using div_short_spec[OF us(1,3), of "v ! 4"] vp e True us(2) vs(2) by (simp add: word_of_div_mod)
  next
    case False
    then show ?thesis using program_D_spec[OF us(1,3,4) vs(1,3) assms(1) refl False le vp] e us(2) vs(2) by (simp add: word_of_div_mod)
  qed
qed

text \<open>The operands of the signed routines, and the sign of their results.\<close>

lemma uint_abs: "uint (if sint a < 0 then - a else a) = \<bar>sint a\<bar>" for a :: "64 word"
proof (cases "sint a < 0")
  case True
  have "- (2 ^ 63) \<le> sint a" using sint_ge[of a] by simp
  then have "(- sint a) mod 2 ^ 64 = - sint a" using True by (intro mod_pos_pos_trivial) simp_all
  moreover have "uint (- a) = (- sint a) mod 2 ^ 64"
    using uint_word_of_int[where 'a = 64, of "- sint a"] by simp
  ultimately show ?thesis using True by simp
next
  case False
  have "sint a < 2 ^ 63" using sint_lt[of a] by simp
  then have "sint a mod 2 ^ 64 = sint a" using False by (intro mod_pos_pos_trivial) simp_all
  then show ?thesis using False uint_word_of_int[where 'a = 64, of "sint a"] by simp
qed

lemma signed_results:
  fixes a b :: "64 word"
  defines "ua \<equiv> (if sint a < 0 then - a else a)" and "ub \<equiv> (if sint b < 0 then - b else b)"
  assumes "b \<noteq> 0"
  shows "(if (sint a < 0) = (sint b < 0) then ua div ub else - (ua div ub)) = word_of_int (sint a sdiv sint b)"
    "(if sint a < 0 then - (ua mod ub) else ua mod ub) = word_of_int (sint a smod sint b)" "ub \<noteq> 0"
proof -
  have q: "ua div ub = word_of_int (\<bar>sint a\<bar> div \<bar>sint b\<bar>)" "ua mod ub = word_of_int (\<bar>sint a\<bar> mod \<bar>sint b\<bar>)"
    unfolding uint_abs[symmetric] ua_def[symmetric] ub_def[symmetric] by (simp_all add: word_div_def word_mod_def)
  have b: "sint b \<noteq> 0" using assms(3) uint_abs[of b] by (auto simp: uint_0_iff)
  show "(if (sint a < 0) = (sint b < 0) then ua div ub else - (ua div ub)) = word_of_int (sint a sdiv sint b)"
    unfolding q signed_divide_int_def using b by (cases "sint a = 0") (auto simp: sgn_if)
  show "(if sint a < 0 then - (ua mod ub) else ua mod ub) = word_of_int (sint a smod sint b)"
    unfolding q signed_modulo_int_def by (cases "sint a = 0") (auto simp: sgn_if)
  show "ub \<noteq> 0" using assms(3) by (simp add: ub_def)
qed

lemma divdi3_spec:
  assumes "length junk = 5" "b \<noteq> 0"
  shows "divdi3 junk a b = Some (word_of_int (sint a sdiv sint b))"
  unfolding divdi3_def signed_results(1)[OF assms(2), symmetric]
  using qdivrem_spec[OF assms(1) signed_results(3)[OF assms(2)]] by (auto simp: Let_def)

lemma moddi3_spec:
  assumes "length junk = 5" "b \<noteq> 0"
  shows "moddi3 junk a b = Some (word_of_int (sint a smod sint b))"
  unfolding moddi3_def signed_results(2)[OF assms(2), symmetric]
  using qdivrem_spec[OF assms(1) signed_results(3)[OF assms(2)]] by (auto simp: Let_def)

text \<open>
  C5: 64-bit division is exact, for all operands with a divisor other than zero and whatever the
  uninitialised quotient array holds: the division never reads or writes outside of its arrays, the
  unsigned routines compute the quotient and the remainder, and the signed routines the quotient
  rounded towards zero and the remainder with the sign of the dividend, as C has them (the most
  negative number divided by -1 wraps around). Division by zero traps.
\<close>

theorem millicode_div:
  assumes "length junk = 5"
  shows "(b \<noteq> 0 \<longrightarrow> udivdi3 junk a b = Some (a div b) \<and> umoddi3 junk a b = Some (a mod b) \<and>
      divdi3 junk a b = Some (word_of_int (sint a sdiv sint b)) \<and> moddi3 junk a b = Some (word_of_int (sint a smod sint b))) \<and>
    udivdi3 junk a 0 = None \<and> umoddi3 junk a 0 = None \<and> divdi3 junk a 0 = None \<and> moddi3 junk a 0 = None"
  using assms qdivrem_spec[of junk b a] divdi3_spec[of junk b a] moddi3_spec[of junk b a]
  by (simp add: udivdi3_def umoddi3_def divdi3_def[of _ _ 0] moddi3_def[of _ _ 0] qdivrem_def[of _ _ 0])

theorem millicode_div_witness:
  "udivdi3 (replicate 5 7) 0xFFFFFFFFFFFFFFFF 0x8000000000000001 = Some 1 \<and>
   umoddi3 (replicate 5 7) 0xFFFFFFFFFFFFFFFF 0x8000000000000001 = Some 0x7FFFFFFFFFFFFFFE \<and>
   divdi3 (replicate 5 7) (- 7) 2 = Some (- 3) \<and> moddi3 (replicate 5 7) (- 7) 2 = Some (- 1)"
  using millicode_div[of "replicate 5 7" "0x8000000000000001" "0xFFFFFFFFFFFFFFFF"] millicode_div[of "replicate 5 7" 2 "- 7"]
  by (simp add: signed_divide_int_def signed_modulo_int_def)

end
