(* ===== verification/Spec2Isabelle.thy ===== *)
theory Spec2Isabelle
  imports Threadlist Kern_Array Sfs_Names Sfs_Fs Synch_Sem Synch_Lock Libc_Printf Milli_Div
begin

text \<open>
  A verification development for the OS/161 kernel in this repository (paths below are under
  \<open>src/\<close>).

  \<^bold>\<open>The program.\<close> OS/161 is a small kernel for a MIPS machine. The parts modelled here are its file
  system and everything that lies between a \<open>read\<close> or \<open>write\<close> on a file and the disk, its
  synchronisation primitives, and the libraries both rest on. A file operation reaches the Simple
  File System through a vnode (\<open>kern/vfs/vnode.c\<close>, \<open>kern/fs/sfs/sfs_vnode.c\<close>). It finds the disk
  blocks of the file, moves bytes with \<open>uiomove\<close> (\<open>kern/lib/uio.c\<close>, which for user memory calls
  \<open>kern/vm/copyinout.c\<close>), and reads and writes blocks (\<open>kern/fs/sfs/sfs_io.c\<close>) through the disk
  driver (\<open>kern/dev/lamebus/lhd.c\<close>). Free blocks are kept in a bitmap (\<open>kern/lib/bitmap.c\<close>).
  Threads wait on wait channels, on which \<open>kern/thread/synch.c\<close> builds semaphores, locks and
  condition variables.

  \<^bold>\<open>Conventions.\<close> A C function is a function of the same name. Stopping (a failed \<open>KASSERT\<close>, a
  \<open>panic\<close>, an access outside an object) is \<open>None\<close>, an error code is \<open>Inl\<close>. State is a record that is
  passed along; in the file system the monad of \<open>Kern_Proc\<close> does that, with weakest preconditions
  (\<open>wp\<close>) for reasoning. Unsigned numbers are words, or natural numbers with the wrap-around written
  out. What the environment decides is an input: the outcome of each allocation, the status codes
  of the disk, the results of \<open>random()\<close>, the user addresses that fault, and what uninitialised
  memory holds.

  \<^bold>\<open>Theories and what they show.\<close>

  \<^item> \<open>Os_Prelude\<close>: error codes, assertions, array accesses, wrap-around, and facts on bits and
    lists. \<open>Kern_Proc\<close>: procedures with state, errors and stops, and their \<open>wp\<close> rules.
  \<^item> \<open>Bitmap\<close> (\<open>kern/lib/bitmap.c\<close>): every operation keeps the invariant; allocation returns the
    lowest free number and fails exactly when the map is full; a new map serves exactly its
    size; marking and unmarking are inverse. The interface \<open>free_map\<close> states the contract on
    the set of used numbers, and allocating in sequence is proved from it.
  \<^item> \<open>Threadlist\<close> (\<open>kern/thread/threadlist.c\<close>): the pointer operations on a heap of nodes. \<open>tls_rep\<close>
    relates the heap to a map from lists to sequences of threads, for all lists of the heap at
    once; insertion and removal implement the operations on sequences. The interface
    \<open>thread_queue\<close> gives first-in first-out behaviour.
  \<^item> \<open>Kern_Array\<close> (\<open>kern/lib/array.c\<close>): the operations on resizeable arrays are those on lists;
    growing beyond \<open>2 ^ 31\<close> elements never returns. The loop is a partial function, \<open>None\<close>
    meaning that it does not end.
  \<^item> \<open>Copyinout\<close> (\<open>kern/vm/copyinout.c\<close>): exact success and error cases of the copies between
    kernel and user memory; no user pointer makes the kernel write its own memory.
  \<^item> \<open>Uio\<close> (\<open>kern/lib/uio.c\<close>): \<open>uiomove\<close> moves the next bytes of a scattered buffer. On top of it
    stands a view of a descriptor as a stream of bytes, which \<open>uiomove\<close> implements; the file
    system is modelled on that view.
  \<^item> \<open>Lhd\<close> (\<open>kern/dev/lamebus/lhd.c\<close>): the I/O path of the disk driver with its interrupt handler
    moves whole sectors between descriptor and medium.
  \<^item> \<open>Sfs_Disk\<close> (\<open>kern/include/kern/sfs.h\<close>, \<open>kern/include/sfs.h\<close>, \<open>kern/fs/sfs/sfs_io.c\<close>): on-disk
    structures with encoding and decoding as inverse functions, the state of a volume, block
    I/O with its retries.
  \<^item> \<open>Sfs_Alloc\<close>, \<open>Sfs_Io\<close>, \<open>Sfs_Dir\<close>, \<open>Sfs_Inode\<close>, \<open>Sfs_Ops\<close> (\<open>kern/fs/sfs/sfs_vnode.c\<close> in its order,
    and \<open>kern/vfs/vnode.c\<close>): block mapping, file I/O with the buffer cache, directories, vnodes
    with truncation and reclaim, and the operations of the two function tables. The invariants
    are \<open>fs_ok\<close> (free map and volume), \<open>file_ok\<close> (the blocks of a file are distinct, in use and
    inside the volume), \<open>cache_ok\<close> and \<open>vnodes_ok\<close>. The specifications are the mapping \<open>fblock\<close>, the
    contents \<open>ldata\<close> of a block as the cache and the disk together have it, the list \<open>dents\<close> of a
    directory and the map from names to inodes that it represents; the interface \<open>name_store\<close>
    states the laws of that map. Mapping, reading, writing, searching, linking, unlinking,
    truncating, loading and releasing are proved against these, errors included. \<open>space_for\<close> says
    when the volume has the free blocks an allocation needs: without them, and only then, the
    result is \<open>ENOSPC\<close>.
  \<^item> \<open>Sfs_Frame\<close>: which parts of the state an operation cannot change. \<open>Sfs_Names\<close>: creating a file
    from all of the above, and the defect of path lookup. \<open>Sfs_Fs\<close> (\<open>kern/fs/sfs/sfs_fs.c\<close>): free
    map I/O, sync, mount and unmount; what was synced is what a later mount finds.
  \<^item> \<open>Wchan\<close> (\<open>kern/thread/spinlock.c\<close>, the wait channels of \<open>kern/thread/thread.c\<close>), \<open>Synch_Sem\<close>,
    \<open>Synch_Lock\<close> (\<open>kern/thread/synch.c\<close>): atomic steps of any number of threads, with the control
    points of the source. The reachable states are inductively defined (\<open>sem_reach\<close>, \<open>lock_reach\<close>), and the
    theorems hold in all of them: the count of a semaphore is exact and no wakeup is lost,
    a lock excludes; a signal wakes the first sleeper and a broadcast all of them, but a thread
    between the two halves of \<open>cv_wait\<close> loses them. A sleeper is in one place only (\<open>sleep_inv\<close>).
  \<^item> \<open>Libc_String\<close> (\<open>common/libc/string\<close>, \<open>common/libc/stdlib\<close>): copying under every overlap and
    alignment, strings, words, numbers. \<open>Libc_Printf\<close> (\<open>common/libc/printf\<close>): the interpreter of
    formats for any client that satisfies the interface \<open>pf_client\<close>, and its instance \<open>snprintf\<close>
    with its bounds; numbers that are printed are read back.
  \<^item> \<open>Milli_Arith\<close>, \<open>Milli_Div\<close> (\<open>common/gcc-millicode\<close>): the 64-bit operations the compiler calls are
    those of 64-bit words, including Knuth's division on digits of 16 bits.

  \<^bold>\<open>Bounds.\<close> Loops over a fixed range are recursion on the range, and the others have a termination
  proof. One function takes a bound on its rounds, \<open>sfs_namefile\<close>, which climbs to the root
  directory and does not end on a cyclic directory tree; no theorem is stated about it. The number
  of threads, the size of memory, files, directories and volumes are arbitrary within the limits
  that the theorems state. The volumes in the witnesses are small.

  \<^bold>\<open>What is assumed.\<close> The file system operations run on one thread: each of them holds a lock of
  the volume or of the directory, which has no effect then. The theorems on files exclude, as hypotheses, the
  two situations in which the buffer cache loses or hides data (a full cache, and a whole-block
  access to a block with a cached copy); separate theorems show what happens then. A disk that reports errors is
  covered for block I/O only; above it the disk works. The counts of a vnode do not overflow.

  \<^bold>\<open>Not modelled.\<close> Assembly code, traps and context switches (their meaning is that of the
  processor); virtual memory, the TLB and the kernel heap, which appear as the addresses that fault and
  as the outcomes of allocations; the scheduler, which appears as an arbitrary choice of the
  thread that takes the next step; the other device drivers; the VFS layer above vnodes, system calls and
  program loading; reader-writer locks; the test programs, the user library and the user programs.
\<close>

end
